(* ===== verification/Prelude.thy ===== *)
theory Prelude
  imports Main "HOL-Library.Word" "HOL-Library.AList" "HOL-Library.Multiset"
begin

section \<open>Shared types, automation and lemmas\<close>

text \<open>
  What the components share: 64-bit machine integers with the overflow check that
  the debug profile compiles in, panics as values, \<open>Vec::get\<close>, \<open>HashMap\<close> as an
  association list with distinct keys, \<open>Display\<close> of unsigned integers, and the list
  and quorum lemmas of the protocol proofs. The interface of a key-value store and the
  interface of a quorum system are locales, interpreted here on the model's own
  definitions.
\<close>

subsection \<open>Machine integers, panics and results\<close>

type_synonym u64 = "64 word"
type_synonym node_id = string

text \<open>
  The binaries are built by \<^verbatim>\<open>cargo build\<close> without \<^verbatim>\<open>--release\<close>
  (\<^verbatim>\<open>orchestrator.go\<close>), so an arithmetic overflow panics. A panic is a value.
\<close>

datatype panic = Overflow | Unwrap_None | Unwrap_Err | Index_Out_Of_Bounds | Payload_Mismatch string
  | Invalid_Port

type_synonym 'a res = "panic + 'a"

definition res_bind :: "'e + 'a \<Rightarrow> ('a \<Rightarrow> 'e + 'b) \<Rightarrow> 'e + 'b" where
  "res_bind m f = (case m of Inl p \<Rightarrow> Inl p | Inr x \<Rightarrow> f x)"

text \<open>A panic together with the state in which it happened.\<close>

definition halting :: "'s \<Rightarrow> 'a res \<Rightarrow> (panic \<times> 's) + 'a" where
  "halting s m = (case m of Inl e \<Rightarrow> Inl (e, s) | Inr x \<Rightarrow> Inr x)"

named_theorems res_simps "evaluation of results"
named_theorems node_frames "fields that an operation of the node leaves alone"

lemma res_bind_simps [simp, res_simps]:
  "res_bind (Inl p) f = Inl p"
  "res_bind (Inr x) f = f x"
  by (simp_all add: res_bind_def)

lemma res_bind_eq_Inr [res_simps]:
  "res_bind m f = Inr y \<longleftrightarrow> (\<exists>x. m = Inr x \<and> f x = Inr y)"
  by (cases m) auto

lemma res_bind_eq_Inl [res_simps]:
  "res_bind m f = Inl p \<longleftrightarrow> m = Inl p \<or> (\<exists>x. m = Inr x \<and> f x = Inl p)"
  by (cases m) auto

lemma halting_simps [simp, res_simps]:
  "halting s (Inl e) = Inl (e, s)"
  "halting s (Inr x) = Inr x"
  "halting s m = Inr x \<longleftrightarrow> m = Inr x"
  "halting s m = Inl (e, t) \<longleftrightarrow> m = Inl e \<and> t = s"
  by (auto simp: halting_def split: sum.split)

definition add_u64 :: "u64 \<Rightarrow> u64 \<Rightarrow> u64 res" where
  "add_u64 x y = (if unat x + unat y < 2 ^ 64 then Inr (x + y) else Inl Overflow)"

text \<open>To compute it, the wrapped sum is compared with a summand.\<close>

lemma add_u64_code [code]: "add_u64 x y = (let z = x + y in if z < x then Inl Overflow else Inr z)"
proof (cases "unat x + unat y < 2 ^ 64")
  case True
  then have "\<not> x + y < x" by (simp add: word_less_nat_alt unat_word_ariths)
  then show ?thesis using True by (simp add: add_u64_def)
next
  case False
  have "unat x < 2 ^ LENGTH(64)" "unat y < 2 ^ LENGTH(64)" by (rule unsigned_less)+
  then have "(unat x + unat y) mod 2 ^ 64 = unat x + unat y - 2 ^ 64"
    using False mod_if [of "unat x + unat y - 2 ^ 64" "2 ^ 64"] by (simp add: le_mod_geq)
  then have "x + y < x"
    using False \<open>unat y < 2 ^ LENGTH(64)\<close> by (simp add: word_less_nat_alt unat_word_ariths)
  then show ?thesis using False by (simp add: add_u64_def)
qed

definition saturating_sub_u64 :: "u64 \<Rightarrow> u64 \<Rightarrow> u64" where
  "saturating_sub_u64 x y = (if x < y then 0 else x - y)"

lemma add_u64_InrD:
  "add_u64 x y = Inr z \<Longrightarrow> z = x + y \<and> unat z = unat x + unat y"
  by (auto simp: add_u64_def unat_word_ariths split: if_splits)

lemma add_u64_cases:
  obtains "add_u64 x y = Inl Overflow" "2 ^ 64 \<le> unat x + unat y"
  | "add_u64 x y = Inr (x + y)" "unat (x + y) = unat x + unat y"
  by (cases "unat x + unat y < 2 ^ 64") (auto simp: add_u64_def unat_word_ariths)

lemma add_u64_Suc:
  assumes "unat (x + 1 :: u64) = Suc (unat x)"
  shows "add_u64 x 1 = Inr (x + 1)"
proof -
  have "unat (x + 1) < 2 ^ LENGTH(64)" by (rule unsigned_less)
  then show ?thesis using assms by (simp add: add_u64_def)
qed

lemma unat_Suc_below: "(x :: u64) < y \<Longrightarrow> unat (x + 1) = Suc (unat x)"
proof -
  assume "x < y"
  then have "unat x < unat y" by (simp add: word_less_nat_alt)
  moreover have "unat y < 2 ^ LENGTH(64)" by (rule unsigned_less)
  ultimately have "unat x + 1 < 2 ^ 64" by simp
  then show ?thesis by (simp add: unat_word_ariths)
qed

lemma unat_pred: "(x :: u64) \<noteq> 0 \<Longrightarrow> unat (x - 1) = unat x - 1"
  by (metis One_nat_def unat_minus_one)

lemma unat_of_nat_u64: "n < 2 ^ 64 \<Longrightarrow> unat (of_nat n :: u64) = n"
  by (simp add: unat_of_nat)

lemma u64_eq_iff: "(x :: u64) = y \<longleftrightarrow> unat x = unat y"
  by (rule word_eq_iff_unsigned)

subsection \<open>\<open>Vec::get\<close>\<close>

text \<open>On the 64-bit targets the code runs on, \<open>as usize\<close> keeps the value of a \<open>u64\<close>.\<close>

definition vec_get :: "'a list \<Rightarrow> u64 \<Rightarrow> 'a option" where
  "vec_get xs i = (if unat i < length xs then Some (xs ! unat i) else None)"

lemma vec_get_Some: "vec_get xs i = Some x \<longleftrightarrow> unat i < length xs \<and> x = xs ! unat i"
  by (auto simp: vec_get_def)

lemma vec_get_None: "vec_get xs i = None \<longleftrightarrow> length xs \<le> unat i"
  by (auto simp: vec_get_def)

definition vec_last :: "'a list \<Rightarrow> 'a option" where
  "vec_last xs = (if xs = [] then None else Some (last xs))"

lemma vec_last_nonempty [simp]: "xs \<noteq> [] \<Longrightarrow> vec_last xs = Some (last xs)"
  by (simp add: vec_last_def)

subsection \<open>\<open>Display\<close> of unsigned integers\<close>

fun dec_nat :: "nat \<Rightarrow> string" where
  "dec_nat n = (if n < 10 then [char_of (48 + n)]
     else dec_nat (n div 10) @ [char_of (48 + n mod 10)])"

declare dec_nat.simps [simp del]

definition show_u64 :: "u64 \<Rightarrow> string" where
  "show_u64 x = dec_nat (unat x)"

text \<open>The printed number determines the number: \<open>parse_dec\<close> reads it back.\<close>

fun parse_dec :: "nat \<Rightarrow> string \<Rightarrow> nat" where
  "parse_dec acc [] = acc"
| "parse_dec acc (c # cs) = parse_dec (10 * acc + (of_char c - 48)) cs"

lemma parse_dec_append: "parse_dec acc (xs @ ys) = parse_dec (parse_dec acc xs) ys"
  by (induction acc xs rule: parse_dec.induct) auto

lemma of_char_digit: "d < 10 \<Longrightarrow> (of_char (char_of (48 + d) :: char) :: nat) = 48 + d"
  by (simp add: of_char_of)

lemma parse_dec_nat: "parse_dec 0 (dec_nat n) = n"
proof (induction n rule: dec_nat.induct)
  case (1 n)
  show ?case
  proof (cases "n < 10")
    case True
    then show ?thesis by (simp add: dec_nat.simps [of n] of_char_digit)
  next
    case False
    with 1 have "parse_dec 0 (dec_nat (n div 10)) = n div 10" by simp
    with False show ?thesis
      by (simp add: dec_nat.simps [of n] parse_dec_append of_char_digit)
  qed
qed

lemma show_u64_inj: "show_u64 x = show_u64 y \<longleftrightarrow> x = y"
  by (metis parse_dec_nat show_u64_def u64_eq_iff)

subsection \<open>\<open>HashMap\<close>\<close>

text \<open>
  What the node relies on of a key-value store: a lookup after an insert, and a \<open>values\<close>
  iterator that yields the value of every key once, in an order nobody may rely on.
\<close>

locale key_value_store =
  fixes empty :: "'m"
    and lookup :: "'m \<Rightarrow> 'k \<Rightarrow> 'v option"
    and insert_kv :: "'k \<Rightarrow> 'v \<Rightarrow> 'm \<Rightarrow> 'm"
    and vals :: "'m \<Rightarrow> 'v list"
    and inv :: "'m \<Rightarrow> bool"
  assumes inv_empty: "inv empty"
    and inv_insert: "inv m \<Longrightarrow> inv (insert_kv k v m)"
    and lookup_empty: "lookup empty k = None"
    and lookup_insert: "inv m \<Longrightarrow> lookup (insert_kv k v m) k' = (if k' = k then Some v else lookup m k')"
    and finite_keys: "inv m \<Longrightarrow> finite (dom (lookup m))"
    and vals_mset: "inv m \<Longrightarrow> mset (vals m) = image_mset (\<lambda>k. the (lookup m k)) (mset_set (dom (lookup m)))"
begin

lemma dom_insert: "inv m \<Longrightarrow> dom (lookup (insert_kv k v m)) = insert k (dom (lookup m))"
  by (auto simp: lookup_insert dom_def)

lemma length_vals: "inv m \<Longrightarrow> length (vals m) = card (dom (lookup m))"
  by (metis size_image_mset size_mset size_mset_set vals_mset)

text \<open>Counting over \<open>values()\<close> is counting keys: the step from numbers to voters.\<close>

lemma count_vals:
  assumes "inv m"
  shows "length (filter P (vals m)) = card {k \<in> dom (lookup m). P (the (lookup m k))}"
proof -
  have "length (filter P (vals m)) = size (filter_mset P (mset (vals m)))"
    by (metis mset_filter size_mset)
  also have "\<dots> = size (image_mset (\<lambda>k. the (lookup m k))
      (filter_mset (\<lambda>k. P (the (lookup m k))) (mset_set (dom (lookup m)))))"
    using assms by (simp add: vals_mset filter_mset_image_mset)
  also have "\<dots> = card {k \<in> dom (lookup m). P (the (lookup m k))}"
    using finite_keys [OF assms] by simp
  finally show ?thesis .
qed

end

type_synonym ('k, 'v) hash_map = "('k \<times> 'v) list"

definition hm_get :: "('k, 'v) hash_map \<Rightarrow> 'k \<Rightarrow> 'v option" where
  "hm_get m k = map_of m k"

definition hm_insert :: "'k \<Rightarrow> 'v \<Rightarrow> ('k, 'v) hash_map \<Rightarrow> ('k, 'v) hash_map" where
  "hm_insert k v m = AList.update k v m"

definition hm_values :: "('k, 'v) hash_map \<Rightarrow> 'v list" where
  "hm_values m = map snd m"

definition hm_inv :: "('k, 'v) hash_map \<Rightarrow> bool" where
  "hm_inv m \<longleftrightarrow> distinct (map fst m)"

lemma hm_get_map_of: "hm_get m = map_of m"
  by (rule ext) (simp add: hm_get_def)

lemma hm_values_mset:
  assumes "distinct (map fst m)"
  shows "mset (map snd m) = image_mset (\<lambda>k. the (map_of m k)) (mset_set (dom (map_of m)))"
proof -
  have "mset (map snd m) = image_mset (\<lambda>k. the (map_of m k)) (mset (map fst m))"
    using assms by (auto simp flip: mset_map intro!: arg_cong [where f = mset])
  also have "mset (map fst m) = mset_set (set (map fst m))"
    using assms by (simp only: mset_set_set)
  finally show ?thesis by (simp add: dom_map_of_conv_image_fst)
qed

interpretation hm: key_value_store "[]" hm_get hm_insert hm_values hm_inv
  by unfold_locales
    (auto simp: hm_get_map_of hm_insert_def hm_values_def hm_inv_def distinct_update
      update_conv' finite_dom_map_of hm_values_mset simp del: mset_map)

subsection \<open>Quorums\<close>

text \<open>
  All that agreement needs of quorums: two of them meet. The node counts votes and match
  indices against half of the cluster; \<open>majority\<close> is that count.
\<close>

locale quorum_system =
  fixes members :: "'n set"
    and quorum :: "'n set \<Rightarrow> bool"
  assumes quorum_members: "quorum Q \<Longrightarrow> Q \<subseteq> members"
    and quorum_meet: "quorum Q \<Longrightarrow> quorum Q' \<Longrightarrow> Q \<inter> Q' \<noteq> {}"
begin

lemma common_voter:
  assumes "quorum Q" "quorum Q'"
  obtains v where "v \<in> Q" "v \<in> Q'" "v \<in> members"
  using assms quorum_meet quorum_members by blast

lemma quorum_nonempty: "quorum Q \<Longrightarrow> \<exists>v. v \<in> Q"
  using quorum_meet [of Q Q] by blast

text \<open>If every voter of a quorum sticks to one choice, two quorums made the same choice.\<close>

lemma unique_choice:
  assumes "quorum Q" "quorum Q'"
    and "\<And>v. v \<in> Q \<Longrightarrow> vote v c" "\<And>v. v \<in> Q' \<Longrightarrow> vote v c'"
    and "\<And>v. vote v c \<Longrightarrow> vote v c' \<Longrightarrow> c = c'"
  shows "c = c'"
  using assms common_voter by metis

end

definition majority :: "'n set \<Rightarrow> 'n set \<Rightarrow> bool" where
  "majority N Q \<longleftrightarrow> finite N \<and> Q \<subseteq> N \<and> card N < 2 * card Q"

lemma majority_meet:
  assumes "majority N Q" "majority N Q'"
  shows "Q \<inter> Q' \<noteq> {}"
proof
  assume disj: "Q \<inter> Q' = {}"
  have "finite Q" "finite Q'" using assms by (auto simp: majority_def intro: finite_subset)
  with disj have "card Q + card Q' = card (Q \<union> Q')" by (simp add: card_Un_disjoint)
  also have "\<dots> \<le> card N" using assms by (intro card_mono) (auto simp: majority_def)
  finally show False using assms by (simp add: majority_def)
qed

interpretation maj: quorum_system N "majority N" for N :: "'n set"
  by unfold_locales (simp_all add: majority_meet, simp add: majority_def)

text \<open>
  The rank of an element in an ascending list: at least \<open>length xs - i\<close> elements are as
  large as the one at position \<open>i\<close>.
\<close>

lemma sorted_nth_rank:
  assumes "sorted xs" "i < length xs"
  shows "length xs - i \<le> length (filter (\<lambda>x. xs ! i \<le> x) xs)"
proof -
  have "\<forall>x \<in> set (drop i xs). xs ! i \<le> x"
    using assms by (auto simp: in_set_conv_nth sorted_iff_nth_mono)
  then have "filter (\<lambda>x. xs ! i \<le> x) (drop i xs) = drop i xs" by simp
  moreover have "filter (\<lambda>x. xs ! i \<le> x) xs
      = filter (\<lambda>x. xs ! i \<le> x) (take i xs) @ filter (\<lambda>x. xs ! i \<le> x) (drop i xs)"
    by (metis append_take_drop_id filter_append)
  ultimately show ?thesis by simp
qed

lemma filter_length_mset: "mset xs = mset ys \<Longrightarrow> length (filter P xs) = length (filter P ys)"
  by (metis mset_filter size_mset)

subsection \<open>Prefixes\<close>

text \<open>Two lists that agree on their first \<open>n\<close> elements agree on every shorter prefix.\<close>

lemma take_agree_le: "take n xs = take n ys \<Longrightarrow> m \<le> n \<Longrightarrow> take m xs = take m ys"
  by (metis min.absorb1 take_take)

lemma take_agree_nth: "take n xs = take n ys \<Longrightarrow> k < n \<Longrightarrow> xs ! k = ys ! k"
  by (metis nth_take)

lemma take_agree_length: "take n xs = take n ys \<Longrightarrow> n \<le> length xs \<Longrightarrow> n \<le> length ys"
  by (metis length_take min.absorb2 min.cobounded1)

end
