(* ===== verification/Protocol.thy ===== *)
theory Protocol
  imports Prelude
begin

section \<open>The data of the protocol\<close>

text \<open>
  The types of \<^verbatim>\<open>raft-rust/src/protocol.rs\<close>: node states, log entries, the arguments
  and replies of the calls, the message envelope and the side effects that the node asks
  its engine to carry out. A field carries its structure's prefix, because the structures
  share field names. \<open>serde_json::Value\<close> is not defined under the source tree: the
  payload of a message has a type parameter.
\<close>

type_synonym target_id = string

datatype NodeState =
    Follower
  | Candidate (votes_received: "node_id set")
  | Leader (next_indices: "(node_id, u64) hash_map") (match_indices: "(node_id, u64) hash_map")

record LogEntry =
  le_term :: u64
  le_index :: u64
  le_command :: string

record RequestVoteArgs =
  rv_term :: u64
  rv_candidate_id :: node_id
  rv_last_log_index :: u64
  rv_last_log_term :: u64

record RequestVoteReply =
  rr_term :: u64
  rr_vote_granted :: bool

record AppendEntriesArgs =
  ae_term :: u64
  ae_leader_id :: node_id
  ae_prev_log_index :: u64
  ae_prev_log_term :: u64
  ae_entries :: "LogEntry list"
  ae_leader_commit :: u64

record AppendEntriesReply =
  ar_term :: u64
  ar_success :: bool
  ar_match_index :: u64

record ClientRequestArgs =
  cr_command :: string

record ClientRequestReply =
  cp_success :: bool
  cp_leader_id :: "node_id option"
  cp_response :: string

record 'v Message =
  m_from :: node_id
  m_to :: node_id
  m_type :: string
  m_payload :: 'v

datatype SideEffect =
    ResetElectionTimer
  | ResetHeartbeatTimer
  | BroadcastRequestVote RequestVoteArgs
  | BroadcastAppendEntries AppendEntriesArgs
  | SendAppendEntries target_id AppendEntriesArgs
  | ApplyEntry u64 string
  | LogMessage string

subsection \<open>Positions of a log\<close>

text \<open>
  Section 5.4.1 of the paper compares the last entries of two logs, first by term, then by
  index. As a type with a linear order it gives the vote check a specification.
\<close>

datatype log_pos = LogPos (pos_term: u64) (pos_index: u64)

instantiation log_pos :: linorder
begin

definition less_eq_log_pos :: "log_pos \<Rightarrow> log_pos \<Rightarrow> bool" where
  "less_eq_log_pos p q \<longleftrightarrow> pos_term p < pos_term q \<or> pos_term p = pos_term q \<and> pos_index p \<le> pos_index q"

definition less_log_pos :: "log_pos \<Rightarrow> log_pos \<Rightarrow> bool" where
  "less_log_pos p q \<longleftrightarrow> pos_term p < pos_term q \<or> pos_term p = pos_term q \<and> pos_index p < pos_index q"

instance
  by standard (auto simp: less_eq_log_pos_def less_log_pos_def log_pos.expand)

end

definition entry_pos :: "LogEntry \<Rightarrow> log_pos" where
  "entry_pos e = LogPos (le_term e) (le_index e)"

definition request_pos :: "RequestVoteArgs \<Rightarrow> log_pos" where
  "request_pos a = LogPos (rv_last_log_term a) (rv_last_log_index a)"

end
