(* ===== verification/Raft_Node.thy ===== *)
theory Raft_Node
  imports Protocol "HOL-Library.While_Combinator"
begin

section \<open>The state of a node and its private helpers\<close>

text \<open>
  The structure \<^verbatim>\<open>RaftNode\<close> of \<^verbatim>\<open>raft-rust/src/node.rs\<close>, its constructor and the
  private methods that the handlers share: the observability events, stepping down to a
  newer term, the consistency check, the rejection reply, the construction of the
  arguments of \<open>AppendEntries\<close>, and the loop that applies committed entries. A handler
  takes the node and returns the node it leaves behind, so \<open>&mut self\<close> is state passing.
\<close>

record RaftNode =
  self_id :: node_id
  peers :: "node_id list"
  current_term :: u64
  voted_for :: "node_id option"
  leader_id :: "node_id option"
  log :: "LogEntry list"
  state :: NodeState
  committed_index :: u64
  last_applied :: u64

definition sentinel :: LogEntry where
  "sentinel = \<lparr>le_term = 0, le_index = 0, le_command = ''sentinel''\<rparr>"

definition new :: "node_id \<Rightarrow> node_id list \<Rightarrow> RaftNode" where
  "new i ps = \<lparr>self_id = i, peers = ps, current_term = 0, voted_for = None, leader_id = None,
     log = [sentinel], state = Follower, committed_index = 0, last_applied = 0\<rparr>"

definition get_state_str :: "RaftNode \<Rightarrow> string" where
  "get_state_str n = (case state n of
     Follower \<Rightarrow> ''Follower''
   | Candidate _ \<Rightarrow> ''Candidate''
   | Leader _ _ \<Rightarrow> ''Leader'')"

definition build_log_event :: "RaftNode \<Rightarrow> string \<Rightarrow> SideEffect" where
  "build_log_event n message =
     LogMessage (''[T='' @ show_u64 (current_term n) @ ''][Node='' @ self_id n @ ''][''
       @ get_state_str n @ ''] '' @ message)"

definition has_matching_prev_entry :: "RaftNode \<Rightarrow> u64 \<Rightarrow> u64 \<Rightarrow> bool" where
  "has_matching_prev_entry n index t =
     (case vec_get (log n) index of None \<Rightarrow> False | Some entry \<Rightarrow> le_term entry = t)"

definition maybe_step_down ::
    "RaftNode \<Rightarrow> u64 \<Rightarrow> SideEffect list \<Rightarrow> bool \<times> RaftNode \<times> SideEffect list" where
  "maybe_step_down n t side_effects =
     (if current_term n < t then
        let old_term = current_term n;
            old_state_str = get_state_str n;
            n' = n\<lparr>current_term := t, voted_for := None, leader_id := None, state := Follower\<rparr>
        in (True, n', side_effects @ [build_log_event n' (''Term updated ('' @ show_u64 old_term
              @ '' -> '' @ show_u64 t @ '') -> Transition: '' @ old_state_str @ '' -> Follower'')])
      else (False, n, side_effects))"

definition reject_append_entries :: "RaftNode \<Rightarrow> AppendEntriesReply" where
  "reject_append_entries n =
     (let hint_index = (case vec_last (log n) of None \<Rightarrow> 0 | Some e \<Rightarrow> le_index e)
      in \<lparr>ar_term = current_term n, ar_success = False, ar_match_index = hint_index\<rparr>)"

definition build_append_entries_args :: "RaftNode \<Rightarrow> u64 \<Rightarrow> AppendEntriesArgs option" where
  "build_append_entries_args n next_index =
     (if next_index = 0 then None
      else
        let prev_log_index = next_index - 1;
            prev_log_term = (case vec_get (log n) prev_log_index of None \<Rightarrow> 0 | Some e \<Rightarrow> le_term e);
            entries = (if unat next_index < length (log n) then drop (unat next_index) (log n) else [])
        in Some \<lparr>ae_term = current_term n, ae_leader_id = self_id n,
             ae_prev_log_index = prev_log_index, ae_prev_log_term = prev_log_term,
             ae_entries = entries, ae_leader_commit = committed_index n\<rparr>)"

text \<open>
  The loop \<open>while self.committed_index > self.last_applied\<close>, which both the follower and
  the leader run. Its increment cannot overflow, since \<open>last_applied\<close> is below another
  \<open>u64\<close> when it runs, and the distance between the two fields shrinks.
\<close>

definition applied_effects :: "RaftNode \<Rightarrow> SideEffect list" where
  "applied_effects n = (case vec_get (log n) (last_applied n) of
     None \<Rightarrow> []
   | Some applied_entry \<Rightarrow>
       [ApplyEntry (last_applied n) (le_command applied_entry),
        build_log_event n (''Applying command at index '' @ show_u64 (last_applied n))])"

function apply_committed :: "RaftNode \<Rightarrow> SideEffect list \<Rightarrow> RaftNode \<times> SideEffect list" where
  "apply_committed n side_effects =
     (if last_applied n < committed_index n then
        let n' = n\<lparr>last_applied := last_applied n + 1\<rparr>
        in apply_committed n' (side_effects @ applied_effects n')
      else (n, side_effects))"
  by pat_completeness auto
termination
  by (relation "measure (\<lambda>(n, se). unat (committed_index n) - unat (last_applied n))")
    (auto simp: unat_Suc_below word_less_nat_alt)

declare apply_committed.simps [simp del]

subsection \<open>Facts about the helpers\<close>

lemma build_log_event_neq [simp]:
  "build_log_event n s \<noteq> ResetElectionTimer"
  "build_log_event n s \<noteq> ResetHeartbeatTimer"
  "build_log_event n s \<noteq> BroadcastRequestVote a"
  "build_log_event n s \<noteq> BroadcastAppendEntries b"
  "build_log_event n s \<noteq> SendAppendEntries p b"
  "build_log_event n s \<noteq> ApplyEntry i c"
  "ResetElectionTimer \<noteq> build_log_event n s"
  "ResetHeartbeatTimer \<noteq> build_log_event n s"
  "BroadcastRequestVote a \<noteq> build_log_event n s"
  "BroadcastAppendEntries b \<noteq> build_log_event n s"
  "SendAppendEntries p b \<noteq> build_log_event n s"
  "ApplyEntry i c \<noteq> build_log_event n s"
  by (simp_all add: build_log_event_def)

text \<open>The \<open>ApplyEntry\<close> effects among some effects, as index and command.\<close>

fun applies :: "SideEffect list \<Rightarrow> (u64 \<times> string) list" where
  "applies [] = []"
| "applies (ApplyEntry i c # es) = (i, c) # applies es"
| "applies (_ # es) = applies es"

lemma applies_append [simp]: "applies (xs @ ys) = applies xs @ applies ys"
  by (induction xs rule: applies.induct) auto

lemma applies_build_log_event [simp]: "applies (build_log_event n s # es) = applies es"
  by (simp add: build_log_event_def)

text \<open>The effects that leave the node as messages.\<close>

fun is_send :: "SideEffect \<Rightarrow> bool" where
  "is_send (BroadcastRequestVote _) = True"
| "is_send (BroadcastAppendEntries _) = True"
| "is_send (SendAppendEntries _ _) = True"
| "is_send _ = False"

definition sends :: "SideEffect list \<Rightarrow> SideEffect list" where
  "sends es = filter is_send es"

lemma sends_simps [simp]:
  "sends [] = []"
  "sends (xs @ ys) = sends xs @ sends ys"
  "sends (build_log_event n s # es) = sends es"
  "sends (LogMessage m # es) = sends es"
  "sends (ApplyEntry i c # es) = sends es"
  "sends (ResetElectionTimer # es) = sends es"
  "sends (ResetHeartbeatTimer # es) = sends es"
  "sends (BroadcastRequestVote a # es) = BroadcastRequestVote a # sends es"
  "sends (BroadcastAppendEntries b # es) = BroadcastAppendEntries b # sends es"
  "sends (SendAppendEntries p b # es) = SendAppendEntries p b # sends es"
  by (simp_all add: sends_def build_log_event_def)

lemma is_send_applied_effects [simp]: "sends (applied_effects n) = []"
  by (simp add: applied_effects_def split: option.split)

subsection \<open>Stepping down\<close>

text \<open>The node after it has seen a term: \<open>maybe_step_down\<close> without its effects.\<close>

definition observe :: "RaftNode \<Rightarrow> u64 \<Rightarrow> RaftNode" where
  "observe n t = (if current_term n < t
     then n\<lparr>current_term := t, voted_for := None, leader_id := None, state := Follower\<rparr> else n)"

lemma maybe_step_down_observe:
  "\<exists>fx. maybe_step_down n t se = (current_term n < t, observe n t, se @ fx)
    \<and> sends fx = [] \<and> applies fx = []"
  by (auto simp: maybe_step_down_def observe_def Let_def intro: exI [of _ "[]"])

lemma observe_frame [simp, node_frames]:
  "self_id (observe n t) = self_id n"
  "peers (observe n t) = peers n"
  "log (observe n t) = log n"
  "committed_index (observe n t) = committed_index n"
  "last_applied (observe n t) = last_applied n"
  "current_term (observe n t) = max (current_term n) t"
  by (auto simp: observe_def max_def)

lemma observe_same [simp]: "\<not> current_term n < t \<Longrightarrow> observe n t = n"
  by (simp add: observe_def)

subsection \<open>The apply loop\<close>

text \<open>
  The entries that moving \<open>last_applied\<close> from \<open>a\<close> to \<open>b\<close> hands to the state machine:
  those at the positions in between that the log has.
\<close>

definition applied_between :: "LogEntry list \<Rightarrow> nat \<Rightarrow> nat \<Rightarrow> (u64 \<times> string) list" where
  "applied_between l a b =
     map (\<lambda>k. (of_nat k, le_command (l ! k))) (filter (\<lambda>k. k < length l) [Suc a..<Suc b])"

lemma applied_between_empty [simp]: "b \<le> a \<Longrightarrow> applied_between l a b = []"
  by (simp add: applied_between_def)

lemma applied_between_step:
  "a < b \<Longrightarrow> applied_between l a b =
     (if Suc a < length l then [(of_nat (Suc a), le_command (l ! Suc a))] else [])
       @ applied_between l (Suc a) b"
proof -
  assume "a < b"
  then have "[Suc a..<Suc b] = Suc a # [Suc (Suc a)..<Suc b]" by (simp add: upt_rec)
  then show ?thesis by (simp add: applied_between_def del: upt_Suc)
qed

lemma applied_between_append:
  "a \<le> b \<Longrightarrow> b \<le> c \<Longrightarrow> applied_between l a c = applied_between l a b @ applied_between l b c"
proof -
  assume "a \<le> b" "b \<le> c"
  then have "[Suc a..<Suc c] = [Suc a..<Suc b] @ [Suc b..<Suc c]"
    using upt_add_eq_append [of "Suc a" "Suc b" "c - b"] by (simp del: upt_Suc)
  then show ?thesis by (simp add: applied_between_def del: upt_Suc)
qed

lemma applied_between_inside:
  "b < length l \<Longrightarrow> applied_between l a b = map (\<lambda>k. (of_nat k, le_command (l ! k))) [Suc a..<Suc b]"
  unfolding applied_between_def by (subst filter_True) auto

lemma apply_committed_node:
  "fst (apply_committed n se) = n\<lparr>last_applied := max (last_applied n) (committed_index n)\<rparr>"
proof (induction n se rule: apply_committed.induct)
  case (1 n se)
  show ?case
  proof (cases "last_applied n < committed_index n")
    case True
    then have "last_applied n + 1 \<le> committed_index n"
      using unat_Suc_below [OF True] by (simp add: word_le_nat_alt word_less_nat_alt)
    with 1 True show ?thesis
      by (simp add: apply_committed.simps [of n] Let_def max_def)
  next
    case False
    then show ?thesis by (simp add: apply_committed.simps [of n] max_def)
  qed
qed

lemma applies_applied_effects:
  "applies (applied_effects n) =
     (if unat (last_applied n) < length (log n)
      then [(last_applied n, le_command (log n ! unat (last_applied n)))] else [])"
  by (auto simp: applied_effects_def vec_get_def)

lemma apply_committed_effects:
  "\<exists>fx. snd (apply_committed n se) = se @ fx \<and> sends fx = []
     \<and> applies fx = applied_between (log n) (unat (last_applied n)) (unat (committed_index n))"
proof (induction n se rule: apply_committed.induct)
  case (1 n se)
  show ?case
  proof (cases "last_applied n < committed_index n")
    case True
    define n' where "n' = n\<lparr>last_applied := last_applied n + 1\<rparr>"
    have la: "unat (last_applied n') = Suc (unat (last_applied n))"
      using unat_Suc_below [OF True] by (simp add: n'_def)
    from 1 [OF True n'_def] obtain fx
      where fx: "snd (apply_committed n' (se @ applied_effects n')) = (se @ applied_effects n') @ fx"
        "sends fx = []"
        "applies fx = applied_between (log n') (unat (last_applied n')) (unat (committed_index n'))"
      by blast
    have "unat (last_applied n) < unat (committed_index n)"
      using True by (simp add: word_less_nat_alt)
    then have "applied_between (log n) (unat (last_applied n)) (unat (committed_index n))
        = applies (applied_effects n') @ applies fx"
      using la fx(3)
      by (simp add: applied_between_step applies_applied_effects n'_def)
    then show ?thesis
      using True fx(1,2) by (auto simp: apply_committed.simps [of n] Let_def n'_def)
  next
    case False
    then show ?thesis
      by (simp add: apply_committed.simps [of n] word_less_nat_alt not_less)
  qed
qed

subsection \<open>The apply loop as a while loop\<close>

text \<open>The test and the body of the loop as the source has them, and the loop as Isabelle's \<open>while\<close>.\<close>

definition apply_pending :: "RaftNode \<times> SideEffect list \<Rightarrow> bool" where
  "apply_pending = (\<lambda>(n, side_effects). last_applied n < committed_index n)"

definition apply_next :: "RaftNode \<times> SideEffect list \<Rightarrow> RaftNode \<times> SideEffect list" where
  "apply_next = (\<lambda>(n, side_effects).
     let n = n\<lparr>last_applied := last_applied n + 1\<rparr> in (n, side_effects @ applied_effects n))"

lemma apply_committed_while: "while_option apply_pending apply_next (n, se) = Some (apply_committed n se)"
proof (induction n se rule: apply_committed.induct)
  case (1 n se)
  then show ?case
    by (subst while_option_unfold)
      (simp add: apply_committed.simps [of n] apply_pending_def apply_next_def Let_def)
qed

text \<open>C28: The loop that applies committed entries ends, from every state, and when it ends last_applied
  has caught up with the commit index, nothing else of the node has changed, and the effects added are those of the
  entries in between, once each and in order.\<close>

theorem apply_loop_terminates:
  "\<exists>n' fx. while_option apply_pending apply_next (n, se) = Some (n', se @ fx)
    \<and> n' = n\<lparr>last_applied := max (last_applied n) (committed_index n)\<rparr>
    \<and> applies fx = applied_between (log n) (unat (last_applied n)) (unat (committed_index n)) \<and> sends fx = []"
proof -
  obtain fx where "snd (apply_committed n se) = se @ fx" "sends fx = []"
    "applies fx = applied_between (log n) (unat (last_applied n)) (unat (committed_index n))"
    using apply_committed_effects by blast
  then show ?thesis
    using apply_committed_node [of n se] apply_committed_while [of n se]
    by (intro exI [of _ "fst (apply_committed n se)"] exI [of _ fx]) (simp add: prod_eq_iff)
qed

end
