(* ===== verification/Replication.thy ===== *)
theory Replication
  imports Raft_Node
begin

section \<open>The follower's side of log replication\<close>

text \<open>
  \<^verbatim>\<open>RaftNode::handle_append_entries\<close>: the term check, stepping down, the consistency
  check, the loop over the new entries with truncation at a conflict, and the follower's
  commit rule. The loop is compared with a reference merge that looks at positions only.
\<close>

subsection \<open>The handler\<close>

text \<open>The body and the loop \<open>for entry in args.entries\<close>.\<close>

fun append_entries_loop ::
    "RaftNode \<Rightarrow> SideEffect list \<Rightarrow> u64 \<Rightarrow> LogEntry list \<Rightarrow> RaftNode \<times> SideEffect list \<times> u64" where
  "append_entries_loop n side_effects last_new_entry_index [] = (n, side_effects, last_new_entry_index)"
| "append_entries_loop n side_effects last_new_entry_index (entry # entries) =
     (let last_new_entry_index = le_index entry
      in case vec_get (log n) (le_index entry) of
           Some existing \<Rightarrow>
             (if le_term existing \<noteq> le_term entry then
                append_entries_loop
                  (n\<lparr>log := take (unat (le_index entry)) (log n) @ [entry]\<rparr>)
                  (side_effects @ [build_log_event n (''Log conflict at Index ''
                     @ show_u64 (le_index entry) @ '': truncating log'')])
                  last_new_entry_index entries
              else append_entries_loop n side_effects last_new_entry_index entries)
         | None \<Rightarrow>
             append_entries_loop (n\<lparr>log := log n @ [entry]\<rparr>) side_effects last_new_entry_index entries)"

text \<open>Step 5 of the paper's receiver: the commit index follows the leader's.\<close>

definition advance_follower_commit ::
    "RaftNode \<Rightarrow> SideEffect list \<Rightarrow> u64 \<Rightarrow> u64 \<Rightarrow> RaftNode \<times> SideEffect list" where
  "advance_follower_commit n side_effects leader_commit last_new_entry_index =
     (if committed_index n < leader_commit then
        let old_commit = committed_index n;
            n = n\<lparr>committed_index := min leader_commit last_new_entry_index\<rparr>
        in if old_commit < committed_index n then
             apply_committed n (side_effects @
               [build_log_event n (''Updated committed_index to '' @ show_u64 (committed_index n))])
           else (n, side_effects)
      else (n, side_effects))"

definition handle_append_entries ::
    "RaftNode \<Rightarrow> AppendEntriesArgs \<Rightarrow> RaftNode \<times> AppendEntriesReply \<times> SideEffect list" where
  "handle_append_entries n args =
     (if ae_term args < current_term n then
        (n, reject_append_entries n,
         [build_log_event n (''Rejected AppendEntries from Node '' @ ae_leader_id args @ '' (Term ''
            @ show_u64 (ae_term args) @ ''): Term too old'')])
      else
        let (_, n, side_effects) = maybe_step_down n (ae_term args) [];
            n = n\<lparr>leader_id := Some (ae_leader_id args)\<rparr>;
            side_effects = side_effects @
              [build_log_event n (''Received AppendEntries from Node '' @ ae_leader_id args @ '' (Term ''
                 @ show_u64 (ae_term args) @ '') with '' @ dec_nat (length (ae_entries args)) @ '' entries'')];
            side_effects = side_effects @
              (case state n of
                 Candidate _ \<Rightarrow> [build_log_event n ''Recognized Leader -> Stepping down to Follower'']
               | _ \<Rightarrow> []);
            n = n\<lparr>state := Follower\<rparr>;
            side_effects = side_effects @ [ResetElectionTimer]
        in if \<not> has_matching_prev_entry n (ae_prev_log_index args) (ae_prev_log_term args) then
             (n, reject_append_entries n,
              side_effects @ [build_log_event n (''Rejected AppendEntries: Consistency check failed at Index ''
                @ show_u64 (ae_prev_log_index args))])
           else
             let (n, side_effects, last_new_entry_index) =
                   append_entries_loop n side_effects (ae_prev_log_index args) (ae_entries args);
                 (n, side_effects) =
                   advance_follower_commit n side_effects (ae_leader_commit args) last_new_entry_index;
                 reply = \<lparr>ar_term = current_term n, ar_success = True, ar_match_index = last_new_entry_index\<rparr>
             in (n, reply, side_effects @
                   [build_log_event n (''Sent AppendEntriesReply (Success) to Node '' @ ae_leader_id args)]))"

subsection \<open>The merge of two logs, by position\<close>

text \<open>
  The reference: entries are laid over the log from position \<open>p\<close> on; the first one that
  is missing or has another term replaces everything from there.
\<close>

fun merge_at :: "LogEntry list \<Rightarrow> nat \<Rightarrow> LogEntry list \<Rightarrow> LogEntry list" where
  "merge_at l p [] = l"
| "merge_at l p (e # es) =
     (if p < length l \<and> le_term (l ! p) = le_term e then merge_at l (Suc p) es
      else take p l @ e # es)"

text \<open>Entries carry the positions \<open>p\<close>, \<open>p + 1\<close>, \dots\<close>

definition indexed_from :: "nat \<Rightarrow> LogEntry list \<Rightarrow> bool" where
  "indexed_from p es \<longleftrightarrow> (\<forall>k < length es. unat (le_index (es ! k)) = p + k)"

lemma indexed_from_Nil [simp]: "indexed_from p []"
  by (simp add: indexed_from_def)

lemma indexed_from_Cons [simp]:
  "indexed_from p (e # es) \<longleftrightarrow> unat (le_index e) = p \<and> indexed_from (Suc p) es"
  by (auto simp: indexed_from_def nth_Cons split: nat.splits)

lemma merge_at_end: "merge_at l (length l) es = l @ es"
  by (cases es) auto

lemma merge_at_step:
  "p \<le> length l \<Longrightarrow> merge_at (take p l @ [e]) (Suc p) es = take p l @ e # es"
  using merge_at_end [of "take p l @ [e]" es] by (simp add: min_absorb2)

text \<open>The code's loop is the reference merge, for entries with consecutive indices.\<close>

definition last_new_index :: "u64 \<Rightarrow> LogEntry list \<Rightarrow> u64" where
  "last_new_index prev es = (if es = [] then prev else le_index (last es))"

lemma append_entries_loop_merge:
  assumes "indexed_from p es" "p \<le> length (log n)"
  shows "\<exists>fx. append_entries_loop n se prev es
      = (n\<lparr>log := merge_at (log n) p es\<rparr>, se @ fx, last_new_index prev es)
    \<and> sends fx = [] \<and> applies fx = []"
  using assms
proof (induction es arbitrary: n p se prev)
  case Nil
  then show ?case by (auto simp: last_new_index_def intro: exI [of _ "[]"])
next
  case (Cons e es)
  have p: "unat (le_index e) = p" and es: "indexed_from (Suc p) es" using Cons.prems by auto
  have last: "last_new_index (le_index e) es = last_new_index prev (e # es)"
    by (simp add: last_new_index_def)
  consider (same) "p < length (log n)" "le_term (log n ! p) = le_term e"
    | (conflict) "p < length (log n)" "le_term (log n ! p) \<noteq> le_term e"
    | (missing) "p = length (log n)"
    using Cons.prems(2) by linarith
  then show ?case
  proof cases
    case same
    with Cons.IH [OF es, of n se "le_index e"] show ?thesis
      by (auto simp: Let_def vec_get_def p last)
  next
    case conflict
    let ?n = "n\<lparr>log := take p (log n) @ [e]\<rparr>"
    let ?se = "se @ [build_log_event n (''Log conflict at Index '' @ show_u64 (le_index e)
      @ '': truncating log'')]"
    from conflict Cons.IH [OF es, of ?n ?se "le_index e"] obtain fx
      where "append_entries_loop ?n ?se (le_index e) es
          = (?n\<lparr>log := merge_at (log ?n) (Suc p) es\<rparr>, ?se @ fx, last_new_index prev (e # es))"
        "sends fx = []" "applies fx = []"
      by (auto simp: last)
    with conflict show ?thesis by (auto simp: Let_def vec_get_def p merge_at_step)
  next
    case missing
    let ?n = "n\<lparr>log := log n @ [e]\<rparr>"
    from missing Cons.IH [OF es, of ?n se "le_index e"] obtain fx
      where "append_entries_loop ?n se (le_index e) es
          = (?n\<lparr>log := merge_at (log ?n) (Suc p) es\<rparr>, se @ fx, last_new_index prev (e # es))"
        "sends fx = []" "applies fx = []"
      by (auto simp: last)
    with missing show ?thesis
      using merge_at_step [of p "log n" e es] by (auto simp: Let_def vec_get_def p)
  qed
qed

lemma merge_at_prefix:
  assumes "p \<le> length l"
  shows "p \<le> length (merge_at l p es)" "k < p \<Longrightarrow> merge_at l p es ! k = l ! k"
proof -
  have "p \<le> length (merge_at l p es) \<and> (\<forall>k < p. merge_at l p es ! k = l ! k)"
    using assms
  proof (induction es arbitrary: p)
    case (Cons e es)
    then show ?case using Cons.IH [of "Suc p"] by (auto simp: nth_append intro: Suc_leD)
  qed simp
  then show "p \<le> length (merge_at l p es)" "k < p \<Longrightarrow> merge_at l p es ! k = l ! k" by auto
qed

text \<open>Merging the same entries again changes nothing.\<close>

lemma merge_at_same:
  assumes "p \<le> length l" "\<forall>k < length es. p + k < length l \<and> le_term (l ! (p + k)) = le_term (es ! k)"
  shows "merge_at l p es = l"
  using assms
proof (induction es arbitrary: p)
  case (Cons e es)
  have "p < length l" "le_term (l ! p) = le_term e" using Cons.prems(2) by auto
  moreover have "\<forall>k < length es. Suc p + k < length l \<and> le_term (l ! (Suc p + k)) = le_term (es ! k)"
    using Cons.prems(2) by (metis Suc_less_eq add_Suc_shift length_Cons nth_Cons_Suc)
  ultimately show ?case using Cons.IH [of "Suc p"] by simp
qed simp

lemma merge_at_terms:
  assumes "p \<le> length l"
  shows "\<forall>k < length es. p + k < length (merge_at l p es) \<and> le_term (merge_at l p es ! (p + k)) = le_term (es ! k)"
  using assms
proof (induction es arbitrary: p)
  case (Cons e es)
  show ?case
  proof (cases "p < length l \<and> le_term (l ! p) = le_term e")
    case True
    have "p + k < length (merge_at l (Suc p) es) \<and> le_term (merge_at l (Suc p) es ! (p + k)) = le_term ((e # es) ! k)"
      if "k < length (e # es)" for k
    proof (cases k)
      case 0
      then show ?thesis
        using True merge_at_prefix(1) [of "Suc p" l es] merge_at_prefix(2) [of "Suc p" l p es] by (simp add: Suc_le_eq)
    next
      case (Suc j)
      then show ?thesis using True that Cons.IH [of "Suc p"] by auto
    qed
    then show ?thesis using True by simp
  next
    case False
    then show ?thesis using Cons.prems by (auto simp: nth_append)
  qed
qed simp

lemma merge_at_idem: "p \<le> length l \<Longrightarrow> merge_at (merge_at l p es) p es = merge_at l p es"
  using merge_at_prefix(1) merge_at_terms by (intro merge_at_same)

subsection \<open>Merging a segment of another log\<close>

text \<open>
  The situation of the protocol: the entries are a segment of a log \<open>L\<close> that agrees with
  \<open>l\<close> before \<open>p\<close>, and wherever the two logs have equal terms at a position they are equal
  up to it (the log matching property).
\<close>

definition logs_match :: "LogEntry list \<Rightarrow> LogEntry list \<Rightarrow> bool" where
  "logs_match l L \<longleftrightarrow> (\<forall>k. k < length l \<and> k < length L \<and> le_term (l ! k) = le_term (L ! k)
     \<longrightarrow> take (Suc k) l = take (Suc k) L)"

lemma logs_matchD:
  "logs_match l L \<Longrightarrow> k < length l \<Longrightarrow> k < length L \<Longrightarrow> le_term (l ! k) = le_term (L ! k)
    \<Longrightarrow> take (Suc k) l = take (Suc k) L"
  by (simp add: logs_match_def)

lemma segment_Cons:
  assumes "e # es = take (length (e # es)) (drop p L)"
  shows "p < length L" "L ! p = e" "es = take (length es) (drop (Suc p) L)"
proof -
  show p: "p < length L" using assms by (cases "p < length L") auto
  then have "drop p L = L ! p # drop (Suc p) L" by (rule Cons_nth_drop_Suc [symmetric])
  with assms show "L ! p = e" "es = take (length es) (drop (Suc p) L)" by auto
qed

lemma segment_append: "es = take (length es) (drop p L) \<Longrightarrow> take p L @ es = take (p + length es) L"
  by (metis take_add)

lemma merge_at_segment:
  assumes "logs_match l L" "take p l = take p L" "p \<le> length l"
    and "es = take (length es) (drop p L)"
  shows "merge_at l p es = l \<and> take (p + length es) l = take (p + length es) L \<and> p + length es \<le> length l
    \<or> merge_at l p es = take (p + length es) L \<and> p + length es \<le> length L
      \<and> (\<forall>q \<le> length l. take q l = take q L \<longrightarrow> q \<le> p + length es)"
  using assms(2-)
proof (induction es arbitrary: p)
  case Nil
  then show ?case by simp
next
  case (Cons e es)
  note seg = segment_Cons [OF Cons.prems(3)]
  show ?case
  proof (cases "p < length l \<and> le_term (l ! p) = le_term e")
    case True
    with seg have "take (Suc p) l = take (Suc p) L" using assms(1) by (auto intro: logs_matchD)
    from Cons.IH [OF this _ seg(3)] True show ?thesis by simp
  next
    case False
    have "length (e # es) \<le> length (drop p L)"
      by (metis Cons.prems(3) length_take min.cobounded1)
    then have len: "p + length (e # es) \<le> length L" using seg(1) by simp
    have "take p l @ e # es = take (p + length (e # es)) L"
      using segment_append [OF Cons.prems(3)] Cons.prems(1) by simp
    moreover have "q \<le> p + length (e # es)" if q: "q \<le> length l" "take q l = take q L" for q
    proof (rule ccontr)
      assume "\<not> q \<le> p + length (e # es)"
      then have "p < q" by simp
      then have "l ! p = L ! p" by (rule take_agree_nth [OF q(2)])
      with False seg(2) q(1) \<open>p < q\<close> show False by auto
    qed
    ultimately show ?thesis using False len by auto
  qed
qed

text \<open>What the two logs have in common, and the segment itself, are in the result.\<close>

lemma merge_at_keeps:
  assumes "logs_match l L" "take p l = take p L" "p \<le> length l" "es = take (length es) (drop p L)"
    and "take q l = take q L" "q \<le> length l"
  shows "take q (merge_at l p es) = take q L" "q \<le> length (merge_at l p es)"
  using merge_at_segment [OF assms(1-4)] assms(5,6) by (auto simp: min_def)

lemma merge_at_covers:
  assumes "logs_match l L" "take p l = take p L" "p \<le> length l" "es = take (length es) (drop p L)"
  shows "take (p + length es) (merge_at l p es) = take (p + length es) L"
    "p + length es \<le> length (merge_at l p es)"
  using merge_at_segment [OF assms] by (auto simp: min_def)

lemma merge_at_cases:
  assumes "logs_match l L" "take p l = take p L" "p \<le> length l" "es = take (length es) (drop p L)"
  shows "merge_at l p es = l \<or> merge_at l p es = take (p + length es) L"
  using merge_at_segment [OF assms] by blast

subsection \<open>The handler in closed form\<close>

definition follower_commit :: "u64 \<Rightarrow> u64 \<Rightarrow> u64 \<Rightarrow> u64" where
  "follower_commit ci leader_commit last_new = (if ci < leader_commit then min leader_commit last_new else ci)"

lemma advance_follower_commit_eq:
  assumes "advance_follower_commit n se lc ln = (n', se')"
  defines "ci \<equiv> follower_commit (committed_index n) lc ln"
  shows "n' = n\<lparr>committed_index := ci,
      last_applied := (if committed_index n < ci then max (last_applied n) ci else last_applied n)\<rparr>"
    "\<exists>fx. se' = se @ fx \<and> sends fx = []
      \<and> applies fx = (if committed_index n < ci
          then applied_between (log n) (unat (last_applied n)) (unat ci) else [])"
proof -
  let ?m = "n\<lparr>committed_index := ci\<rparr>"
  let ?se = "se @ [build_log_event ?m (''Updated committed_index to '' @ show_u64 ci)]"
  have upd: "(n', se') = (if committed_index n < ci then apply_committed ?m ?se else (?m, se))"
    using assms by (auto simp: advance_follower_commit_def follower_commit_def Let_def)
  show "n' = n\<lparr>committed_index := ci,
      last_applied := (if committed_index n < ci then max (last_applied n) ci else last_applied n)\<rparr>"
    using upd apply_committed_node [of ?m ?se]
    by (cases "committed_index n < ci") (auto simp: prod_eq_iff)
  show "\<exists>fx. se' = se @ fx \<and> sends fx = []
      \<and> applies fx = (if committed_index n < ci
          then applied_between (log n) (unat (last_applied n)) (unat ci) else [])"
    using upd apply_committed_effects [of ?m ?se]
    by (cases "committed_index n < ci") (auto simp: prod_eq_iff)
qed

lemma handle_append_entries_stale:
  "ae_term args < current_term n \<Longrightarrow> \<exists>fx. handle_append_entries n args = (n, reject_append_entries n, fx)
    \<and> sends fx = [] \<and> applies fx = []"
  by (simp add: handle_append_entries_def)

lemma handle_append_entries_mismatch:
  assumes "\<not> ae_term args < current_term n"
    and "\<not> has_matching_prev_entry n (ae_prev_log_index args) (ae_prev_log_term args)"
  defines "n' \<equiv> (observe n (ae_term args))\<lparr>leader_id := Some (ae_leader_id args), state := Follower\<rparr>"
  shows "\<exists>fx. handle_append_entries n args = (n', reject_append_entries n', fx)
    \<and> sends fx = [] \<and> applies fx = []"
proof -
  obtain fx where fx: "maybe_step_down n (ae_term args) [] = (current_term n < ae_term args, observe n (ae_term args), fx)"
    "sends fx = []" "applies fx = []"
    using maybe_step_down_observe [of n "ae_term args" "[]"] by auto
  show ?thesis
    using assms(1,2) fx unfolding n'_def
    by (auto simp: handle_append_entries_def Let_def has_matching_prev_entry_def split: NodeState.splits)
qed

lemma handle_append_entries_accept:
  assumes "\<not> ae_term args < current_term n"
    and "has_matching_prev_entry n (ae_prev_log_index args) (ae_prev_log_term args)"
    and "indexed_from (Suc (unat (ae_prev_log_index args))) (ae_entries args)"
  defines "l \<equiv> merge_at (log n) (Suc (unat (ae_prev_log_index args))) (ae_entries args)"
    and "ln \<equiv> last_new_index (ae_prev_log_index args) (ae_entries args)"
  defines "ci \<equiv> follower_commit (committed_index n) (ae_leader_commit args) ln"
  defines "n' \<equiv> (observe n (ae_term args))\<lparr>leader_id := Some (ae_leader_id args), state := Follower,
      log := l, committed_index := ci,
      last_applied := (if committed_index n < ci then max (last_applied n) ci else last_applied n)\<rparr>"
  shows "\<exists>fx. handle_append_entries n args
      = (n', \<lparr>ar_term = current_term n', ar_success = True, ar_match_index = ln\<rparr>, fx)
    \<and> sends fx = [] \<and> applies fx = (if committed_index n < ci
        then applied_between l (unat (last_applied n)) (unat ci) else [])"
proof -
  obtain fx where fx: "maybe_step_down n (ae_term args) [] = (current_term n < ae_term args, observe n (ae_term args), fx)"
    "sends fx = []" "applies fx = []"
    using maybe_step_down_observe [of n "ae_term args" "[]"] by auto
  let ?m = "(observe n (ae_term args))\<lparr>leader_id := Some (ae_leader_id args), state := Follower\<rparr>"
  have "Suc (unat (ae_prev_log_index args)) \<le> length (log ?m)"
    using assms(2) by (auto simp: has_matching_prev_entry_def vec_get_def split: if_splits)
  note loop = append_entries_loop_merge [OF assms(3) this]
  have m: "log ?m = log n" "committed_index ?m = committed_index n" "last_applied ?m = last_applied n"
    by simp_all
  show ?thesis
  proof -
    define se where "se = fx @ [build_log_event ((observe n (ae_term args))\<lparr>leader_id := Some (ae_leader_id args)\<rparr>)
        (''Received AppendEntries from Node '' @ ae_leader_id args @ '' (Term ''
          @ show_u64 (ae_term args) @ '') with '' @ dec_nat (length (ae_entries args)) @ '' entries'')]
        @ (case state ((observe n (ae_term args))\<lparr>leader_id := Some (ae_leader_id args)\<rparr>) of
             Candidate _ \<Rightarrow> [build_log_event ((observe n (ae_term args))\<lparr>leader_id := Some (ae_leader_id args)\<rparr>)
                 ''Recognized Leader -> Stepping down to Follower'']
           | _ \<Rightarrow> []) @ [ResetElectionTimer]"
    have se: "sends se = []" "applies se = []"
      using fx by (auto simp: se_def split: NodeState.split)
    from loop [of se "ae_prev_log_index args"] obtain gx where gx:
      "append_entries_loop ?m se (ae_prev_log_index args) (ae_entries args) = (?m\<lparr>log := l\<rparr>, se @ gx, ln)"
      "sends gx = []" "applies gx = []"
      by (auto simp: l_def ln_def)
    obtain k sk where k: "advance_follower_commit (?m\<lparr>log := l\<rparr>) (se @ gx) (ae_leader_commit args) ln = (k, sk)"
      by fastforce
    note adv = advance_follower_commit_eq [OF k]
    have kn: "k = n'"
      using adv(1) by (simp add: n'_def ci_def)
    from adv(2) obtain hx where hx: "sk = (se @ gx) @ hx" "sends hx = []"
      "applies hx = (if committed_index n < ci then applied_between l (unat (last_applied n)) (unat ci) else [])"
      by (auto simp: ci_def)
    have "handle_append_entries n args
      = (k, \<lparr>ar_term = current_term k, ar_success = True, ar_match_index = ln\<rparr>,
         sk @ [build_log_event k (''Sent AppendEntriesReply (Success) to Node '' @ ae_leader_id args)])"
      using assms(1,2) fx(1) gx(1) k
      by (simp add: handle_append_entries_def Let_def has_matching_prev_entry_def se_def)
    then show ?thesis using se gx hx kn by simp
  qed
qed

subsection \<open>The properties\<close>

text \<open>C13: What accepting an AppendEntries does. For a message that is not stale, whose previous entry is in the
  log with the right term and whose entries are numbered consecutively from there, the in-place loop of the
  handler computes the positional merge of the two logs; the reply acknowledges the last new index; the commit
  index follows the rule of the paper; exactly the newly committed entries are applied; the sender is recorded
  as the leader, and the node is a follower.\<close>

theorem append_entries_merges:
  assumes "current_term n \<le> ae_term args"
    and "unat (ae_prev_log_index args) < length (log n)"
    and "le_term (log n ! unat (ae_prev_log_index args)) = ae_prev_log_term args"
    and "\<forall>k < length (ae_entries args). unat (le_index (ae_entries args ! k)) = unat (ae_prev_log_index args) + 1 + k"
    and "handle_append_entries n args = (n', r, fx)"
  shows "log n' = merge_at (log n) (unat (ae_prev_log_index args) + 1) (ae_entries args)
    \<and> ar_success r \<and> ar_term r = ae_term args
    \<and> unat (ar_match_index r) = unat (ae_prev_log_index args) + length (ae_entries args)
    \<and> committed_index n' = (if committed_index n < ae_leader_commit args
         then min (ae_leader_commit args) (ar_match_index r) else committed_index n)
    \<and> applies fx = (if committed_index n < committed_index n'
         then applied_between (log n') (unat (last_applied n)) (unat (committed_index n')) else [])
    \<and> current_term n' = ae_term args \<and> leader_id n' = Some (ae_leader_id args) \<and> state n' = Follower"
proof -
  have idx: "indexed_from (Suc (unat (ae_prev_log_index args))) (ae_entries args)"
    using assms(4) by (simp add: indexed_from_def)
  have match: "has_matching_prev_entry n (ae_prev_log_index args) (ae_prev_log_term args)"
    using assms(2,3) by (simp add: has_matching_prev_entry_def vec_get_def)
  have last: "unat (last_new_index (ae_prev_log_index args) (ae_entries args))
      = unat (ae_prev_log_index args) + length (ae_entries args)"
    using idx by (cases "ae_entries args" rule: rev_cases) (auto simp: last_new_index_def indexed_from_def nth_append)
  let ?ln = "last_new_index (ae_prev_log_index args) (ae_entries args)"
  let ?ci = "follower_commit (committed_index n) (ae_leader_commit args) ?ln"
  have new: "\<not> ae_term args < current_term n" using assms(1) by simp
  have f: "log n' = merge_at (log n) (unat (ae_prev_log_index args) + 1) (ae_entries args)" "committed_index n' = ?ci"
    "current_term n' = ae_term args" "leader_id n' = Some (ae_leader_id args)" "state n' = Follower"
    "r = \<lparr>ar_term = ae_term args, ar_success = True, ar_match_index = ?ln\<rparr>"
    "applies fx = (if committed_index n < ?ci
       then applied_between (log n') (unat (last_applied n)) (unat ?ci) else [])"
    using handle_append_entries_accept [OF new match idx] assms(1,5) by (auto simp: max_absorb2)
  have "committed_index n' = (if committed_index n < ae_leader_commit args
      then min (ae_leader_commit args) (ar_match_index r) else committed_index n)"
    by (simp add: f(2,6) follower_commit_def)
  moreover have "applies fx = (if committed_index n < committed_index n'
      then applied_between (log n') (unat (last_applied n)) (unat (committed_index n')) else [])"
    using f(7) by (simp add: f(2))
  ultimately show ?thesis using f(1,3-6) last by simp
qed

theorem append_entries_merges_witness:
  "let n = (new ''A'' [''B''])\<lparr>current_term := 1, log := [sentinel, \<lparr>le_term = 1, le_index = 1, le_command = ''x''\<rparr>]\<rparr>;
       args = \<lparr>ae_term = 2, ae_leader_id = ''B'', ae_prev_log_index = 0, ae_prev_log_term = 0,
         ae_entries = [\<lparr>le_term = 2, le_index = 1, le_command = ''y''\<rparr>], ae_leader_commit = 1\<rparr>
   in log (fst (handle_append_entries n args)) = [sentinel, \<lparr>le_term = 2, le_index = 1, le_command = ''y''\<rparr>]
     \<and> applies (snd (snd (handle_append_entries n args))) = [(1, ''y'')]"
proof -
  let ?n = "(new ''A'' [''B''])\<lparr>current_term := 1, log := [sentinel, \<lparr>le_term = 1, le_index = 1, le_command = ''x''\<rparr>]\<rparr>"
  let ?a = "\<lparr>ae_term = 2, ae_leader_id = ''B'', ae_prev_log_index = 0, ae_prev_log_term = 0,
         ae_entries = [\<lparr>le_term = 2, le_index = 1, le_command = ''y''\<rparr>], ae_leader_commit = 1\<rparr> :: AppendEntriesArgs"
  obtain n' r fx where h: "handle_append_entries ?n ?a = (n', r, fx)" by (cases "handle_append_entries ?n ?a")
  have "unat (ar_match_index r) = 1" "ar_match_index r = 1 \<Longrightarrow> log n' = [sentinel, \<lparr>le_term = 2, le_index = 1, le_command = ''y''\<rparr>]
     \<and> applies fx = [(1, ''y'')]"
    using append_entries_merges [OF _ _ _ _ h] by (simp_all add: new_def sentinel_def applied_between_def)
  then show ?thesis using h by (simp add: u64_eq_iff)
qed

text \<open>C26: What rejecting an AppendEntries does. A stale message changes nothing; one whose previous entry is
  missing or has another term leaves log, commit index and applied index alone, and the node is a follower of the
  message's term. Both are answered negatively with the term and the last index of the node, and nothing is applied.\<close>

theorem append_entries_rejects:
  assumes "ae_term args < current_term n \<or> \<not> has_matching_prev_entry n (ae_prev_log_index args) (ae_prev_log_term args)"
    and "log n \<noteq> []" and "handle_append_entries n args = (n', r, fx)"
  shows "r = \<lparr>ar_term = current_term n', ar_success = False, ar_match_index = le_index (last (log n))\<rparr>
    \<and> log n' = log n \<and> committed_index n' = committed_index n \<and> last_applied n' = last_applied n
    \<and> applies fx = [] \<and> sends fx = []
    \<and> (if ae_term args < current_term n then n' = n else current_term n' = ae_term args \<and> state n' = Follower)"
  using handle_append_entries_stale [of args n] handle_append_entries_mismatch [of args n] assms
  by (cases "ae_term args < current_term n") (auto simp: reject_append_entries_def Let_def max_def)

theorem append_entries_rejects_witness:
  "let n = new ''A'' [''B'']; args = \<lparr>ae_term = 1, ae_leader_id = ''B'', ae_prev_log_index = 5, ae_prev_log_term = 1,
         ae_entries = [], ae_leader_commit = 0\<rparr>
   in fst (snd (handle_append_entries n args)) = \<lparr>ar_term = 1, ar_success = False, ar_match_index = 0\<rparr>"
proof -
  let ?n = "new ''A'' [''B'']"
  let ?a = "\<lparr>ae_term = 1, ae_leader_id = ''B'', ae_prev_log_index = 5, ae_prev_log_term = 1,
         ae_entries = [], ae_leader_commit = 0\<rparr> :: AppendEntriesArgs"
  obtain n' r fx where h: "handle_append_entries ?n ?a = (n', r, fx)" by (cases "handle_append_entries ?n ?a")
  then show ?thesis
    using append_entries_rejects [OF _ _ h]
    by (simp add: new_def sentinel_def has_matching_prev_entry_def vec_get_def)
qed

text \<open>C27: A duplicate of an accepted AppendEntries changes nothing: the node, its log and its commit index stay as
  the first delivery left them, the reply is the same, and nothing is applied a second time.\<close>

theorem append_entries_idempotent:
  assumes "current_term n \<le> ae_term args"
    and "has_matching_prev_entry n (ae_prev_log_index args) (ae_prev_log_term args)"
    and "indexed_from (Suc (unat (ae_prev_log_index args))) (ae_entries args)"
    and "handle_append_entries n args = (n', r, fx)" and "handle_append_entries n' args = (n'', r', fx')"
  shows "n'' = n' \<and> r' = r \<and> applies fx' = []"
proof -
  let ?p = "Suc (unat (ae_prev_log_index args))" and ?es = "ae_entries args"
  define l where "l = merge_at (log n) ?p ?es"
  define ln where "ln = last_new_index (ae_prev_log_index args) ?es"
  define ci where "ci = follower_commit (committed_index n) (ae_leader_commit args) ln"
  have p: "?p \<le> length (log n)" and pt: "le_term (log n ! unat (ae_prev_log_index args)) = ae_prev_log_term args"
    using assms(2) by (auto simp: has_matching_prev_entry_def vec_get_def split: if_splits)
  have le: "\<not> ae_term args < current_term n" using assms(1) by simp
  have n': "n' = (observe n (ae_term args))\<lparr>leader_id := Some (ae_leader_id args), state := Follower, log := l,
      committed_index := ci, last_applied := (if committed_index n < ci then max (last_applied n) ci else last_applied n)\<rparr>"
    and r: "r = \<lparr>ar_term = current_term n', ar_success = True, ar_match_index = ln\<rparr>"
    using handle_append_entries_accept [OF le assms(2,3)] assms(4) by (auto simp: l_def ln_def ci_def)
  have term': "current_term n' = ae_term args" using assms(1) by (simp add: n' max_def)
  have match': "has_matching_prev_entry n' (ae_prev_log_index args) (ae_prev_log_term args)"
    using merge_at_prefix(1) [OF p, of ?es] merge_at_prefix(2) [OF p, of "unat (ae_prev_log_index args)" ?es] pt by (auto simp: has_matching_prev_entry_def vec_get_def n' l_def)
  have l: "merge_at l ?p ?es = l" unfolding l_def by (rule merge_at_idem [OF p])
  have ci: "follower_commit ci (ae_leader_commit args) ln = ci"
    by (auto simp: ci_def follower_commit_def)
  have "\<not> ae_term args < current_term n'" using term' by simp
  from handle_append_entries_accept [OF this match' assms(3)] show ?thesis
    using assms(5) l ci term' by (auto simp: n' r simp flip: ln_def)
qed

theorem append_entries_idempotent_witness:
  "let args = \<lparr>ae_term = 1, ae_leader_id = ''B'', ae_prev_log_index = 0, ae_prev_log_term = 0,
         ae_entries = [\<lparr>le_term = 1, le_index = 1, le_command = ''y''\<rparr>], ae_leader_commit = 1\<rparr>;
       n = fst (handle_append_entries (new ''A'' [''B'']) args)
   in fst (handle_append_entries n args) = n"
proof -
  let ?a = "\<lparr>ae_term = 1, ae_leader_id = ''B'', ae_prev_log_index = 0, ae_prev_log_term = 0,
         ae_entries = [\<lparr>le_term = 1, le_index = 1, le_command = ''y''\<rparr>], ae_leader_commit = 1\<rparr> :: AppendEntriesArgs"
  obtain n r fx where h: "handle_append_entries (new ''A'' [''B'']) ?a = (n, r, fx)"
    by (cases "handle_append_entries (new ''A'' [''B'']) ?a")
  obtain n' r' fx' where h': "handle_append_entries n ?a = (n', r', fx')" by (cases "handle_append_entries n ?a")
  show ?thesis
    using append_entries_idempotent [OF _ _ _ h h'] h h'
    by (simp add: new_def sentinel_def has_matching_prev_entry_def vec_get_def)
qed

text \<open>When the follower's commit index moves back. The handler assigns the smaller of the leader's commit
  index and the last new index without comparing it with what is committed already, so on an accepted message
  the commit index decreases exactly when the leader's is larger and the last new index is smaller. (In the
  cluster no such message is sent: see the property on commit indices of runs.)\<close>

lemma follower_commit_moves:
  assumes "current_term n \<le> ae_term args"
    and "has_matching_prev_entry n (ae_prev_log_index args) (ae_prev_log_term args)"
    and "indexed_from (Suc (unat (ae_prev_log_index args))) (ae_entries args)"
    and "handle_append_entries n args = (n', r, fx)"
  shows "committed_index n' < committed_index n \<longleftrightarrow>
    committed_index n < ae_leader_commit args \<and> ar_match_index r < committed_index n"
  using handle_append_entries_accept [OF _ assms(2,3)] assms(1,4)
  by (auto simp: follower_commit_def min_def not_less)

end
