(* ===== verification/Election.thy ===== *)
theory Election
  imports Raft_Node
begin

section \<open>Leader election\<close>

text \<open>
  \<^verbatim>\<open>RaftNode::handle_request_vote\<close>, \<^verbatim>\<open>handle_election_timeout\<close> and
  \<^verbatim>\<open>handle_request_vote_reply\<close>. The handlers that unwrap the last log entry or add to a
  \<open>u64\<close> return a result; the lemmas give each of them in closed form.
\<close>

definition handle_request_vote ::
    "RaftNode \<Rightarrow> RequestVoteArgs \<Rightarrow> (RaftNode \<times> RequestVoteReply \<times> SideEffect list) res" where
  "handle_request_vote n candidate_args =
     (if rv_term candidate_args < current_term n then
        Inr (n, \<lparr>rr_term = current_term n, rr_vote_granted = False\<rparr>,
          [build_log_event n (''Rejected RequestVote from Node '' @ rv_candidate_id candidate_args
             @ '' (Term '' @ show_u64 (rv_term candidate_args) @ ''): Term too old'')])
      else
        let (_, n, side_effects) = maybe_step_down n (rv_term candidate_args) []
        in case vec_last (log n) of
             None \<Rightarrow> Inl Unwrap_None
           | Some voter_last_log \<Rightarrow>
               let is_candidate_at_least_as_up_to_date =
                     le_term voter_last_log < rv_last_log_term candidate_args
                     \<or> rv_last_log_term candidate_args = le_term voter_last_log
                       \<and> le_index voter_last_log \<le> rv_last_log_index candidate_args;
                   voter_can_vote_for_candidate =
                     (case voted_for n of None \<Rightarrow> True | Some i \<Rightarrow> i = rv_candidate_id candidate_args)
               in if voter_can_vote_for_candidate \<and> is_candidate_at_least_as_up_to_date then
                    let n = n\<lparr>voted_for := Some (rv_candidate_id candidate_args)\<rparr>
                    in Inr (n, \<lparr>rr_term = current_term n, rr_vote_granted = True\<rparr>,
                         side_effects @ [ResetElectionTimer,
                           build_log_event n (''Voted for Node '' @ rv_candidate_id candidate_args)])
                  else
                    let reason = (if \<not> voter_can_vote_for_candidate then ''Already voted''
                          else ''Log not up-to-date'')
                    in Inr (n, \<lparr>rr_term = current_term n, rr_vote_granted = False\<rparr>,
                         side_effects @ [build_log_event n (''Rejected RequestVote from Node ''
                           @ rv_candidate_id candidate_args @ '': '' @ reason)]))"

definition handle_election_timeout :: "RaftNode \<Rightarrow> (RaftNode \<times> SideEffect list) res" where
  "handle_election_timeout n =
     (case state n of
        Leader _ _ \<Rightarrow> Inr (n, [])
      | _ \<Rightarrow>
        let old_state_str = get_state_str n;
            n = n\<lparr>state := Candidate {self_id n}\<rparr>
        in res_bind (add_u64 (current_term n) 1) (\<lambda>t.
             let n = n\<lparr>current_term := t, voted_for := Some (self_id n), leader_id := None\<rparr>;
                 side_effects =
                   [build_log_event n (''Election Timeout -> Transition: '' @ old_state_str
                      @ '' -> Candidate (Term '' @ show_u64 (current_term n) @ '')''),
                    ResetElectionTimer]
             in case vec_last (log n) of
                  None \<Rightarrow> Inl Unwrap_None
                | Some candidate_last_log \<Rightarrow>
                    let request_vote_args = \<lparr>rv_term = current_term n, rv_candidate_id = self_id n,
                          rv_last_log_index = le_index candidate_last_log,
                          rv_last_log_term = le_term candidate_last_log\<rparr>
                    in Inr (n, side_effects @ [build_log_event n ''Broadcasting RequestVote'',
                         BroadcastRequestVote request_vote_args])))"

text \<open>The loop over the peers that gives the new leader its two maps.\<close>

definition init_peer_indices ::
    "node_id list \<Rightarrow> u64 \<Rightarrow> ((node_id, u64) hash_map \<times> (node_id, u64) hash_map) res" where
  "init_peer_indices ps last_log_index =
     fold (\<lambda>peer acc. res_bind acc (\<lambda>(next_indices, match_indices).
        res_bind (add_u64 last_log_index 1) (\<lambda>next.
          Inr (hm_insert peer next next_indices, hm_insert peer 0 match_indices))))
       ps (Inr ([], []))"

text \<open>The part of \<open>handle_request_vote_reply\<close> that runs when the election is won.\<close>

definition become_leader ::
    "RaftNode \<Rightarrow> SideEffect list \<Rightarrow> (RaftNode \<times> SideEffect list) res" where
  "become_leader n side_effects =
     (let old_state_str = get_state_str n
      in case vec_last (log n) of
           None \<Rightarrow> Inl Unwrap_None
         | Some last_log \<Rightarrow>
             let last_log_index = le_index last_log;
                 last_log_term = le_term last_log
             in res_bind (init_peer_indices (peers n) last_log_index)
                  (\<lambda>(next_indices, match_indices).
                     let n = n\<lparr>state := Leader next_indices match_indices, leader_id := Some (self_id n)\<rparr>;
                         heartbeat_args = \<lparr>ae_term = current_term n, ae_leader_id = self_id n,
                           ae_prev_log_index = last_log_index, ae_prev_log_term = last_log_term,
                           ae_entries = [], ae_leader_commit = committed_index n\<rparr>
                     in Inr (n, side_effects @
                          [build_log_event n (''Won election -> Transition: '' @ old_state_str @ '' -> Leader''),
                           BroadcastAppendEntries heartbeat_args, ResetHeartbeatTimer])))"

definition handle_request_vote_reply ::
    "RaftNode \<Rightarrow> node_id \<Rightarrow> RequestVoteReply \<Rightarrow> (RaftNode \<times> SideEffect list) res" where
  "handle_request_vote_reply n from reply =
     (let (stepped_down, n, side_effects) = maybe_step_down n (rr_term reply) []
      in if stepped_down then Inr (n, side_effects)
         else case state n of
             Candidate votes \<Rightarrow>
               (if rr_term reply = current_term n \<and> rr_vote_granted reply then
                  let votes = insert from votes;
                      n = n\<lparr>state := Candidate votes\<rparr>;
                      votes_count = card votes;
                      side_effects = side_effects @ [build_log_event n (''Received vote from Node ''
                        @ from @ '' (Total votes: '' @ dec_nat votes_count @ '')'')];
                      total_nodes = length (peers n) + 1
                  in if total_nodes div 2 < votes_count then become_leader n side_effects
                     else Inr (n, side_effects)
                else if \<not> rr_vote_granted reply then
                  Inr (n, side_effects @ [build_log_event n (''Vote denied by Node '' @ from
                    @ '' (Term '' @ show_u64 (rr_term reply) @ '')'')])
                else Inr (n, side_effects))
           | _ \<Rightarrow> Inr (n, side_effects))"

subsection \<open>The vote rule\<close>

definition grants_vote :: "RaftNode \<Rightarrow> RequestVoteArgs \<Rightarrow> bool" where
  "grants_vote n a \<longleftrightarrow> \<not> rv_term a < current_term n
     \<and> voted_for (observe n (rv_term a)) \<in> {None, Some (rv_candidate_id a)}
     \<and> entry_pos (last (log n)) \<le> request_pos a"

text \<open>With a non-empty log the handler never panics, and it votes by \<open>grants_vote\<close>.\<close>

lemma handle_request_vote_eq:
  assumes "log n \<noteq> []"
  shows "\<exists>fx. handle_request_vote n a = Inr
      (if grants_vote n a then (observe n (rv_term a))\<lparr>voted_for := Some (rv_candidate_id a)\<rparr>
       else observe n (rv_term a),
       \<lparr>rr_term = max (current_term n) (rv_term a), rr_vote_granted = grants_vote n a\<rparr>, fx)
    \<and> sends fx = [] \<and> applies fx = []"
proof (cases "rv_term a < current_term n")
  case True
  then show ?thesis
    by (auto simp: handle_request_vote_def grants_vote_def max_def)
next
  case False
  obtain fx where fx: "maybe_step_down n (rv_term a) [] = (current_term n < rv_term a, observe n (rv_term a), fx)"
    "sends fx = []" "applies fx = []"
    using maybe_step_down_observe [of n "rv_term a" "[]"] by auto
  have up: "entry_pos (last (log n)) \<le> request_pos a \<longleftrightarrow>
      le_term (last (log n)) < rv_last_log_term a
      \<or> rv_last_log_term a = le_term (last (log n)) \<and> le_index (last (log n)) \<le> rv_last_log_index a"
    by (auto simp: entry_pos_def request_pos_def less_eq_log_pos_def)
  have can: "(case voted_for (observe n (rv_term a)) of None \<Rightarrow> True | Some i \<Rightarrow> i = rv_candidate_id a)
      \<longleftrightarrow> voted_for (observe n (rv_term a)) \<in> {None, Some (rv_candidate_id a)}"
    by (auto split: option.split)
  show ?thesis
    using False fx assms
    by (auto simp: handle_request_vote_def Let_def grants_vote_def up can)
qed

text \<open>The effects of a handler without its log messages.\<close>

definition beyond_logging :: "SideEffect list \<Rightarrow> SideEffect list" where
  "beyond_logging fx = filter (\<lambda>e. case e of LogMessage _ \<Rightarrow> False | _ \<Rightarrow> True) fx"

lemma beyond_logging_simps [simp]:
  "beyond_logging [] = []" "beyond_logging (fx @ gx) = beyond_logging fx @ beyond_logging gx"
  "beyond_logging (build_log_event n m # fx) = beyond_logging fx"
  "beyond_logging (ResetElectionTimer # fx) = ResetElectionTimer # beyond_logging fx"
  by (simp_all add: beyond_logging_def build_log_event_def)

lemma handle_request_vote_effects:
  "log n \<noteq> [] \<Longrightarrow> handle_request_vote n a = Inr (n', r, fx)
    \<Longrightarrow> beyond_logging fx = (if rr_vote_granted r then [ResetElectionTimer] else [])"
  by (auto simp: handle_request_vote_def maybe_step_down_def Let_def split: if_splits option.splits)

subsection \<open>Starting an election\<close>

definition is_Leader :: "NodeState \<Rightarrow> bool" where
  "is_Leader s \<longleftrightarrow> (case s of Leader _ _ \<Rightarrow> True | _ \<Rightarrow> False)"

lemma is_Leader_simps [simp]:
  "is_Leader Follower = False" "is_Leader (Candidate vs) = False" "is_Leader (Leader ni mi) = True"
  by (simp_all add: is_Leader_def)

definition vote_request :: "RaftNode \<Rightarrow> RequestVoteArgs" where
  "vote_request n = \<lparr>rv_term = current_term n, rv_candidate_id = self_id n,
     rv_last_log_index = le_index (last (log n)), rv_last_log_term = le_term (last (log n))\<rparr>"

definition candidacy :: "RaftNode \<Rightarrow> RaftNode" where
  "candidacy n = n\<lparr>state := Candidate {self_id n}, current_term := current_term n + 1,
     voted_for := Some (self_id n), leader_id := None\<rparr>"

lemma handle_election_timeout_leader:
  "is_Leader (state n) \<Longrightarrow> handle_election_timeout n = Inr (n, [])"
  by (simp add: handle_election_timeout_def is_Leader_def split: NodeState.splits)

lemma handle_election_timeout_eq:
  assumes "log n \<noteq> []" "\<not> is_Leader (state n)"
  shows "handle_election_timeout n = Inl Overflow \<and> unat (current_term n) = 2 ^ 64 - 1
    \<or> unat (current_term n + 1) = Suc (unat (current_term n))
      \<and> (\<exists>fx. handle_election_timeout n = Inr (candidacy n, fx) \<and> ResetElectionTimer \<in> set fx
          \<and> sends fx = [BroadcastRequestVote (vote_request (candidacy n))] \<and> applies fx = [])"
proof (cases "current_term n" "1 :: u64" rule: add_u64_cases)
  case 1
  moreover have "unat (current_term n) < 2 ^ LENGTH(64)" by (rule unsigned_less)
  ultimately show ?thesis
    using assms by (auto simp: handle_election_timeout_def is_Leader_def Let_def split: NodeState.splits)
next
  case 2
  then show ?thesis
    using assms
    by (cases "state n")
      (auto simp: handle_election_timeout_def Let_def candidacy_def vote_request_def)
qed

subsection \<open>Winning an election\<close>

definition fill :: "node_id list \<Rightarrow> u64 \<Rightarrow> (node_id, u64) hash_map \<Rightarrow> (node_id, u64) hash_map" where
  "fill ps v m = fold (\<lambda>p. hm_insert p v) ps m"

lemma fill_get: "hm_inv m \<Longrightarrow> hm_inv (fill ps v m)
    \<and> hm_get (fill ps v m) p = (if p \<in> set ps then Some v else hm_get m p)"
proof (induction ps arbitrary: m)
  case Nil
  then show ?case by (simp add: fill_def)
next
  case (Cons a ps)
  then have "hm_inv (hm_insert a v m)" by (rule_tac hm.inv_insert)
  from Cons.IH [OF this] Cons.prems show ?case
    by (auto simp: fill_def hm.lookup_insert)
qed

lemma hm_inv_Nil [simp]: "hm_inv []"
  by (rule hm.inv_empty)

lemma hm_get_Nil [simp]: "hm_get [] p = None"
  by (rule hm.lookup_empty)

lemma init_peer_indices_ok:
  assumes "add_u64 i 1 = Inr v"
  shows "init_peer_indices ps i = Inr (fill ps v [], fill ps 0 [])"
proof -
  have "fold (\<lambda>peer acc. res_bind acc (\<lambda>(ni, mi). res_bind (add_u64 i 1) (\<lambda>next.
      Inr (hm_insert peer next ni, hm_insert peer 0 mi)))) ps (Inr (ni, mi))
    = Inr (fill ps v ni, fill ps 0 mi)" for ni mi
    using assms by (induction ps arbitrary: ni mi) (auto simp: fill_def)
  then show ?thesis by (simp add: init_peer_indices_def)
qed

lemma init_peer_indices_panic:
  assumes "add_u64 i 1 = Inl e"
  shows "init_peer_indices ps i = (if ps = [] then Inr ([], []) else Inl e)"
proof -
  have "fold (\<lambda>peer acc. res_bind acc (\<lambda>(ni, mi). res_bind (add_u64 i 1) (\<lambda>next.
      Inr (hm_insert peer next ni, hm_insert peer 0 mi)))) ps a
    = (if ps = [] then a else case a of Inl p \<Rightarrow> Inl p | Inr _ \<Rightarrow> Inl e)"
    for a :: "((node_id, u64) hash_map \<times> (node_id, u64) hash_map) res"
    using assms by (induction ps arbitrary: a) (auto simp: res_bind_def split: sum.splits)
  then show ?thesis by (simp add: init_peer_indices_def)
qed

definition leadership :: "RaftNode \<Rightarrow> RaftNode" where
  "leadership n = n\<lparr>state := Leader (fill (peers n) (le_index (last (log n)) + 1) []) (fill (peers n) 0 []),
     leader_id := Some (self_id n)\<rparr>"

definition first_heartbeat :: "RaftNode \<Rightarrow> AppendEntriesArgs" where
  "first_heartbeat n = \<lparr>ae_term = current_term n, ae_leader_id = self_id n,
     ae_prev_log_index = le_index (last (log n)), ae_prev_log_term = le_term (last (log n)),
     ae_entries = [], ae_leader_commit = committed_index n\<rparr>"

lemma become_leader_eq:
  assumes "log n \<noteq> []"
  shows "become_leader n se = Inl Overflow \<and> unat (le_index (last (log n))) = 2 ^ 64 - 1 \<and> peers n \<noteq> []
    \<or> (peers n \<noteq> [] \<longrightarrow> unat (le_index (last (log n)) + 1) = Suc (unat (le_index (last (log n)))))
      \<and> (\<exists>fx. become_leader n se = Inr (leadership n, se @ fx) \<and> ResetHeartbeatTimer \<in> set fx
          \<and> sends fx = [BroadcastAppendEntries (first_heartbeat n)] \<and> applies fx = [])"
proof (cases "le_index (last (log n))" "1 :: u64" rule: add_u64_cases)
  case 1
  moreover have "unat (le_index (last (log n))) < 2 ^ LENGTH(64)" by (rule unsigned_less)
  ultimately show ?thesis
    using assms
    by (auto simp: become_leader_def Let_def init_peer_indices_panic leadership_def fill_def first_heartbeat_def)
next
  case 2
  then show ?thesis
    using assms
    by (auto simp: become_leader_def Let_def init_peer_indices_ok leadership_def first_heartbeat_def)
qed

lemma handle_request_vote_reply_newer:
  "current_term n < rr_term r \<Longrightarrow>
    \<exists>fx. handle_request_vote_reply n from r = Inr (observe n (rr_term r), fx) \<and> sends fx = [] \<and> applies fx = []"
  using maybe_step_down_observe [of n "rr_term r" "[]"]
  by (auto simp: handle_request_vote_reply_def Let_def)

text \<open>The vote is counted, and more than half of the cluster elects.\<close>

definition counts_vote :: "RaftNode \<Rightarrow> RequestVoteReply \<Rightarrow> bool" where
  "counts_vote n r \<longleftrightarrow> rr_term r = current_term n \<and> rr_vote_granted r
     \<and> (case state n of Candidate _ \<Rightarrow> True | _ \<Rightarrow> False)"

definition with_vote :: "RaftNode \<Rightarrow> node_id \<Rightarrow> RaftNode" where
  "with_vote n from = n\<lparr>state := Candidate (insert from (votes_received (state n)))\<rparr>"

lemma handle_request_vote_reply_ignored:
  "\<not> current_term n < rr_term r \<Longrightarrow> \<not> counts_vote n r \<Longrightarrow>
    \<exists>fx. handle_request_vote_reply n from r = Inr (n, fx) \<and> sends fx = [] \<and> applies fx = []"
  by (auto simp: handle_request_vote_reply_def Let_def maybe_step_down_def counts_vote_def
      split: NodeState.splits)

lemma handle_request_vote_reply_counted:
  assumes "counts_vote n r"
  shows "\<exists>se. sends se = [] \<and> applies se = [] \<and> handle_request_vote_reply n from r =
    (if (length (peers n) + 1) div 2 < card (insert from (votes_received (state n)))
     then become_leader (with_vote n from) se else Inr (with_vote n from, se))"
proof -
  obtain vs where st: "state n = Candidate vs"
    using assms by (auto simp: counts_vote_def split: NodeState.splits)
  let ?se = "[build_log_event (with_vote n from) (''Received vote from Node ''
    @ from @ '' (Total votes: '' @ dec_nat (card (insert from vs)) @ '')'')]"
  show ?thesis
    by (rule exI [of _ ?se])
      (use assms st in \<open>simp add: handle_request_vote_reply_def Let_def maybe_step_down_def
        counts_vote_def with_vote_def\<close>)
qed

subsection \<open>The properties\<close>

text \<open>C16: The vote rule. A node grants its vote exactly when the candidate's term is not old, the node has not given
  its vote of that term to somebody else, and the candidate's last log position is at least its own in the order
  of section 5.4.1 (term first, then index). The reply carries the larger of the two terms. The full resulting state:
  the term of the reply; a newer term clears vote and leader hint and makes a follower of a candidate or leader; a
  granted vote is recorded; nothing else changes. The only effect beyond log messages is the reset of the
  election timer, once, when the vote is granted.\<close>

theorem vote_rule:
  assumes "log n \<noteq> []" and "handle_request_vote n a = Inr (n', r, fx)"
  shows "(rr_vote_granted r \<longleftrightarrow> current_term n \<le> rv_term a
      \<and> (current_term n < rv_term a \<or> voted_for n = None \<or> voted_for n = Some (rv_candidate_id a))
      \<and> entry_pos (last (log n)) \<le> request_pos a)
    \<and> rr_term r = max (current_term n) (rv_term a)
    \<and> n' = n\<lparr>current_term := rr_term r,
        voted_for := (if rr_vote_granted r then Some (rv_candidate_id a)
          else if current_term n < rv_term a then None else voted_for n),
        leader_id := (if current_term n < rv_term a then None else leader_id n),
        state := (if current_term n < rv_term a then Follower else state n)\<rparr>
    \<and> filter (\<lambda>e. case e of LogMessage _ \<Rightarrow> False | _ \<Rightarrow> True) fx
        = (if rr_vote_granted r then [ResetElectionTimer] else [])"
  using handle_request_vote_eq [OF assms(1), of a] handle_request_vote_effects [OF assms] assms(2)
  by (auto simp: grants_vote_def observe_def beyond_logging_def)

theorem vote_rule_witness:
  "case handle_request_vote (new ''B'' [''A'', ''C''])
      \<lparr>rv_term = 1, rv_candidate_id = ''A'', rv_last_log_index = 0, rv_last_log_term = 0\<rparr> of
     Inl _ \<Rightarrow> False
   | Inr (n, r, fx) \<Rightarrow> rr_vote_granted r \<and> n = (new ''B'' [''A'', ''C''])\<lparr>current_term := 1, voted_for := Some ''A''\<rparr>
       \<and> ResetElectionTimer \<in> set fx"
proof -
  let ?n = "new ''B'' [''A'', ''C'']"
  let ?a = "\<lparr>rv_term = 1, rv_candidate_id = ''A'', rv_last_log_index = 0, rv_last_log_term = 0\<rparr> :: RequestVoteArgs"
  have ne: "log ?n \<noteq> []" by (simp add: new_def)
  obtain n r fx where h: "handle_request_vote ?n ?a = Inr (n, r, fx)" using handle_request_vote_eq [OF ne, of ?a] by auto
  note rule = vote_rule [OF ne h]
  then have g: "rr_vote_granted r"
    by (simp add: new_def sentinel_def entry_pos_def request_pos_def less_eq_log_pos_def)
  then have "ResetElectionTimer \<in> set (filter (\<lambda>e. case e of LogMessage _ \<Rightarrow> False | _ \<Rightarrow> True) fx)" using rule by simp
  then have "ResetElectionTimer \<in> set fx" by simp
  then show ?thesis using rule h g by (simp add: new_def)
qed

text \<open>C29: Starting an election. A node that is not leader, with a non-empty log and a term below the largest,
  moves to the next term as a candidate that has voted for itself, resets its election timer and broadcasts one
  vote request with the position of its last entry; log and commit index stay. At the largest term the addition
  panics. A leader does nothing.\<close>

theorem election_timeout_rule:
  assumes "log n \<noteq> []"
  shows "(if is_Leader (state n) then handle_election_timeout n = Inr (n, [])
     else if unat (current_term n) = 2 ^ 64 - 1 then handle_election_timeout n = Inl Overflow
     else \<exists>n' fx. handle_election_timeout n = Inr (n', fx)
       \<and> unat (current_term n') = unat (current_term n) + 1 \<and> state n' = Candidate {self_id n}
       \<and> voted_for n' = Some (self_id n) \<and> leader_id n' = None \<and> log n' = log n
       \<and> committed_index n' = committed_index n \<and> ResetElectionTimer \<in> set fx \<and> applies fx = []
       \<and> sends fx = [BroadcastRequestVote \<lparr>rv_term = current_term n', rv_candidate_id = self_id n,
           rv_last_log_index = le_index (last (log n)), rv_last_log_term = le_term (last (log n))\<rparr>])"
proof (cases "is_Leader (state n)")
  case True
  then show ?thesis by (simp add: handle_election_timeout_leader)
next
  case False
  have "unat (current_term n + 1) < 2 ^ LENGTH(64)" by (rule unsigned_less)
  then have "unat (current_term n + 1) \<noteq> 2 ^ 64" by simp
  then show ?thesis
    using handle_election_timeout_eq [OF assms False] False
    by (auto simp: candidacy_def vote_request_def)
qed

theorem election_timeout_rule_witness:
  "\<exists>n' fx. handle_election_timeout (new ''A'' [''B'']) = Inr (n', fx)
    \<and> sends fx = [BroadcastRequestVote \<lparr>rv_term = 1, rv_candidate_id = ''A'', rv_last_log_index = 0, rv_last_log_term = 0\<rparr>]"
  using election_timeout_rule [of "new ''A'' [''B'']"]
  by (auto simp: new_def sentinel_def u64_eq_iff)

text \<open>C17: Counting votes. For a reply that is not of a newer term, a candidate whose vote set (with the sender added,
  if the reply grants a vote of the current term) has more than half of the cluster becomes leader: next index one
  past its last entry and match index 0 for every peer, and nothing for anybody else, one heartbeat
  broadcast with its last position, and the heartbeat timer reset. With fewer votes it stays a candidate with
  the larger vote set; any other reply changes nothing and sends nothing.\<close>

theorem vote_reply_rule:
  assumes "log n \<noteq> []" "rr_term r \<le> current_term n" and "handle_request_vote_reply n j r = Inr (n', fx)"
  defines "votes \<equiv> insert j (votes_received (state n))"
  shows "if counts_vote n r then
      (if length (peers n) + 1 < 2 * card votes then
         \<exists>ni mi. n' = n\<lparr>state := Leader ni mi, leader_id := Some (self_id n)\<rparr>
         \<and> (\<forall>p. hm_get ni p = (if p \<in> set (peers n) then Some (le_index (last (log n)) + 1) else None))
         \<and> (\<forall>p. hm_get mi p = (if p \<in> set (peers n) then Some 0 else None))
         \<and> ResetHeartbeatTimer \<in> set fx
         \<and> sends fx = [BroadcastAppendEntries \<lparr>ae_term = current_term n, ae_leader_id = self_id n,
             ae_prev_log_index = le_index (last (log n)), ae_prev_log_term = le_term (last (log n)),
             ae_entries = [], ae_leader_commit = committed_index n\<rparr>]
       else n' = n\<lparr>state := Candidate votes\<rparr> \<and> sends fx = [])
    else n' = n \<and> sends fx = []"
proof (cases "counts_vote n r")
  case False
  then show ?thesis
    using handle_request_vote_reply_ignored [of n r j] assms(2,3) by (auto simp: not_less)
next
  case True
  obtain se where se: "sends se = []" "handle_request_vote_reply n j r =
      (if (length (peers n) + 1) div 2 < card votes then become_leader (with_vote n j) se else Inr (with_vote n j, se))"
    using handle_request_vote_reply_counted [OF True, of j] votes_def by blast
  have half: "(length (peers n) + 1) div 2 < card votes \<longleftrightarrow> length (peers n) + 1 < 2 * card votes" by auto
  show ?thesis
  proof (cases "length (peers n) + 1 < 2 * card votes")
    case won: True
    have ne: "log (with_vote n j) \<noteq> []" using assms(1) by (simp add: with_vote_def)
    obtain gx where g: "become_leader (with_vote n j) se = Inr (leadership (with_vote n j), se @ gx)"
      "ResetHeartbeatTimer \<in> set gx" "sends gx = [BroadcastAppendEntries (first_heartbeat (with_vote n j))]"
      using become_leader_eq [OF ne, of se] se(2) assms(3) won half by auto
    have "n' = leadership (with_vote n j)" "fx = se @ gx" using g(1) se(2) assms(3) won half by auto
    moreover have maps: "hm_get (fill ps v []) p = (if p \<in> set ps then Some v else None)" for ps v p
      using fill_get [OF hm_inv_Nil, of ps v p] by simp
    ultimately show ?thesis
      unfolding if_P [OF True] if_P [OF won]
      using g(2,3) se(1)
      by (rule_tac exI [of _ "fill (peers n) (le_index (last (log n)) + 1) []"], rule_tac exI [of _ "fill (peers n) 0 []"])
        (simp add: leadership_def with_vote_def first_heartbeat_def)
  next
    case lost: False
    then show ?thesis using True se assms(3) half by (simp add: with_vote_def votes_def)
  qed
qed

theorem vote_reply_rule_witness:
  "let n = (new ''A'' [''B'', ''C''])\<lparr>current_term := 1, state := Candidate {''A''}\<rparr>
   in \<exists>ni mi fx. handle_request_vote_reply n ''B'' \<lparr>rr_term = 1, rr_vote_granted = True\<rparr>
      = Inr (n\<lparr>state := Leader ni mi, leader_id := Some ''A''\<rparr>, fx) \<and> hm_get ni ''C'' = Some 1 \<and> hm_get mi ''C'' = Some 0"
proof -
  let ?n = "(new ''A'' [''B'', ''C''])\<lparr>current_term := 1, state := Candidate {''A''}\<rparr>"
  let ?r = "\<lparr>rr_term = 1, rr_vote_granted = True\<rparr> :: RequestVoteReply"
  have "\<exists>x. handle_request_vote_reply ?n ''B'' ?r = Inr x" by (rule exI) code_simp
  then obtain n' fx where h: "handle_request_vote_reply ?n ''B'' ?r = Inr (n', fx)" by auto
  then show ?thesis
    using vote_reply_rule [OF _ _ h] by (auto simp: new_def counts_vote_def sentinel_def)
qed

text \<open>The sender of a vote reply is not compared with the peers. In a cluster of three, a candidate is elected by
  its own vote and the reply of a node that does not belong to the cluster.\<close>

lemma vote_of_outsider:
  "case handle_request_vote_reply ((new ''A'' [''B'', ''C''])\<lparr>current_term := 1, state := Candidate {''A''}\<rparr>) ''stranger''
      \<lparr>rr_term = 1, rr_vote_granted = True\<rparr> of
     Inl _ \<Rightarrow> False | Inr (n, _) \<Rightarrow> is_Leader (state n) \<and> ''stranger'' \<notin> set (peers n)"
  by code_simp

end
