(* ===== verification/Leadership.thy ===== *)
theory Leadership
  imports Election
begin

section \<open>The leader's side\<close>

text \<open>
  \<^verbatim>\<open>propose_command\<close>, \<^verbatim>\<open>handle_client_request\<close>, \<^verbatim>\<open>handle_heartbeat_timeout\<close> and
  \<^verbatim>\<open>handle_append_entries_reply\<close>. The last one keeps the leader's view of its followers,
  retries after a rejection, and commits at the median of the match indices; the lemmas
  say which set of nodes stands behind that median.
\<close>

definition propose_command ::
    "RaftNode \<Rightarrow> string \<Rightarrow> (RaftNode \<times> (u64 \<times> u64) option \<times> SideEffect list) res" where
  "propose_command n command =
     (case state n of
        Leader _ _ \<Rightarrow>
          let last_index = (case vec_last (log n) of None \<Rightarrow> 0 | Some e \<Rightarrow> le_index e)
          in res_bind (add_u64 last_index 1) (\<lambda>new_index.
               let t = current_term n;
                   entry = \<lparr>le_term = t, le_index = new_index, le_command = command\<rparr>;
                   n = n\<lparr>log := log n @ [entry]\<rparr>;
                   side_effects = [build_log_event n (''Proposed command '' @ [CHR 0x27] @ command
                     @ [CHR 0x27] @ '' at index '' @ show_u64 new_index)];
                   side_effects = side_effects @ (case build_append_entries_args n new_index of
                        None \<Rightarrow> [] | Some args \<Rightarrow> [BroadcastAppendEntries args])
               in Inr (n, Some (new_index, t), side_effects))
      | _ \<Rightarrow> Inr (n, None, [build_log_event n ''Rejected command proposal: Not the leader'']))"

definition handle_client_request ::
    "RaftNode \<Rightarrow> ClientRequestArgs \<Rightarrow> (RaftNode \<times> ClientRequestReply \<times> SideEffect list) res" where
  "handle_client_request n args =
     res_bind (propose_command n (cr_command args)) (\<lambda>(n, proposed_info, side_effects).
       case proposed_info of
         Some (index, _) \<Rightarrow>
           Inr (n, \<lparr>cp_success = True, cp_leader_id = Some (self_id n),
             cp_response = ''Command accepted and appended at index '' @ show_u64 index\<rparr>, side_effects)
       | None \<Rightarrow>
           Inr (n, \<lparr>cp_success = False, cp_leader_id = leader_id n,
             cp_response = ''Not the leader. Please redirect to the current leader.''\<rparr>, side_effects))"

definition next_index_of :: "(node_id, u64) hash_map \<Rightarrow> node_id \<Rightarrow> u64" where
  "next_index_of next_idx p = (case hm_get next_idx p of None \<Rightarrow> 1 | Some i \<Rightarrow> i)"

definition handle_heartbeat_timeout :: "RaftNode \<Rightarrow> RaftNode \<times> SideEffect list" where
  "handle_heartbeat_timeout n =
     (case state n of
        Leader next_idx _ \<Rightarrow>
          (n, [build_log_event n ''Heartbeat Timeout -> Broadcasting heartbeats'']
             @ concat (map (\<lambda>peer.
                 case build_append_entries_args n (next_index_of next_idx peer) of
                   None \<Rightarrow> [] | Some args \<Rightarrow> [SendAppendEntries peer args]) (peers n))
             @ [ResetHeartbeatTimer])
      | _ \<Rightarrow> (n, []))"

text \<open>
  The commit rule: the median of the match indices and the leader's own last index, and
  only for an entry of the current term. \<open>values()\<close> of a \<open>HashMap\<close> comes in any order;
  the sort makes the order irrelevant.
\<close>

definition median_index :: "nat \<Rightarrow> nat \<Rightarrow> nat" where
  "median_index len cluster_size = len - (cluster_size div 2 + 1)"

definition advance_leader_commit ::
    "RaftNode \<Rightarrow> SideEffect list \<Rightarrow> (RaftNode \<times> SideEffect list) res" where
  "advance_leader_commit n side_effects =
     (let match_array = (case state n of Leader _ match_idx \<Rightarrow> hm_values match_idx | _ \<Rightarrow> [])
      in if match_array = [] then Inr (n, side_effects)
         else case vec_last (log n) of
             None \<Rightarrow> Inl Unwrap_None
           | Some leader_last \<Rightarrow>
               let match_array = sort (match_array @ [le_index leader_last]);
                   median = median_index (length match_array) (length (peers n) + 1)
               in if length match_array \<le> median then Inl Index_Out_Of_Bounds
                  else
                    let potential_commit_index = match_array ! median
                    in if committed_index n < potential_commit_index then
                         case vec_get (log n) potential_commit_index of
                           Some entry \<Rightarrow>
                             (if le_term entry = current_term n then
                                let n = n\<lparr>committed_index := potential_commit_index\<rparr>;
                                    side_effects = side_effects @ [build_log_event n
                                      (''Leader committed up to index '' @ show_u64 (committed_index n)
                                        @ '' (Majority Consensus)'')]
                                in Inr (apply_committed n side_effects)
                              else Inr (n, side_effects))
                         | None \<Rightarrow> Inr (n, side_effects)
                       else Inr (n, side_effects))"

definition handle_append_entries_reply ::
    "RaftNode \<Rightarrow> node_id \<Rightarrow> AppendEntriesReply \<Rightarrow> (RaftNode \<times> SideEffect list) res" where
  "handle_append_entries_reply n from follower_reply =
     (let (stepped_down, n, side_effects) = maybe_step_down n (ar_term follower_reply) []
      in if stepped_down then Inr (n, side_effects)
         else if ar_term follower_reply \<noteq> current_term n then Inr (n, side_effects)
         else
           let side_effects = side_effects @
                 [if ar_success follower_reply then
                    build_log_event n (''Received AppendEntriesReply (Success) from Node '' @ from
                      @ '' (match_index: '' @ show_u64 (ar_match_index follower_reply) @ '')'')
                  else build_log_event n (''Received AppendEntriesReply (Failure) from Node '' @ from)]
           in case state n of
               Leader next_idx match_idx \<Rightarrow>
                 let current_next = next_index_of next_idx from
                 in if ar_success follower_reply then
                      let new_match_index = ar_match_index follower_reply;
                          match_idx = hm_insert from new_match_index match_idx
                      in res_bind (add_u64 new_match_index 1) (\<lambda>after_match.
                           let next_idx = (if current_next < after_match
                                 then hm_insert from after_match next_idx else next_idx);
                               n = n\<lparr>state := Leader next_idx match_idx\<rparr>
                           in advance_leader_commit n (side_effects @
                                [build_log_event n (''Updated match_index for peer '' @ from @ '' to ''
                                   @ show_u64 new_match_index)]))
                    else
                      res_bind
                        (if ar_match_index follower_reply < current_next
                         then add_u64 (ar_match_index follower_reply) 1
                         else Inr (max (saturating_sub_u64 current_next 1) 1))
                        (\<lambda>retry_next_index.
                           let n = n\<lparr>state := Leader (hm_insert from retry_next_index next_idx) match_idx\<rparr>;
                               side_effects = side_effects @ [build_log_event n (''Node '' @ from
                                 @ '' rejected AppendEntries, retrying with next_index ''
                                 @ show_u64 retry_next_index)]
                           in Inr (n, side_effects @
                                (case build_append_entries_args n retry_next_index of
                                   None \<Rightarrow> [] | Some args \<Rightarrow> [SendAppendEntries from args])))
             | _ \<Rightarrow> Inr (n, side_effects))"

subsection \<open>The nodes behind the median\<close>

lemma median_majority:
  assumes "hm_inv mi" "dom (hm_get mi) = set ps" "distinct ps" "i \<notin> set ps"
    and arr: "arr = sort (hm_values mi @ [x])"
    and v: "v = arr ! median_index (length arr) (length ps + 1)" "v \<le> x"
  shows "majority (insert i (set ps)) (insert i {p \<in> set ps. v \<le> the (hm_get mi p)})"
proof -
  let ?n = "length ps + 1" and ?Q = "{p \<in> set ps. v \<le> the (hm_get mi p)}"
  have len: "length arr = ?n"
    using assms(1-3) hm.length_vals [of mi] by (simp add: arr distinct_card)
  have md: "median_index (length arr) ?n < length arr" "length arr - median_index (length arr) ?n = ?n div 2 + 1"
    using len by (auto simp: median_index_def)
  have "?n div 2 + 1 \<le> length (filter (\<lambda>y. v \<le> y) arr)"
    using sorted_nth_rank [OF _ md(1)] md(2) by (simp add: arr v(1))
  also have "\<dots> = length (filter (\<lambda>y. v \<le> y) (hm_values mi @ [x]))"
    by (rule filter_length_mset) (simp add: arr)
  also have "\<dots> = card ?Q + 1"
    using hm.count_vals [OF assms(1), of "\<lambda>y. v \<le> y"] assms(2) v(2) by simp
  finally have "?n div 2 + 1 \<le> card (insert i ?Q)"
    using assms(4) by (simp add: card_insert_if)
  moreover have "card (insert i (set ps)) = ?n"
    using assms(3,4) by (simp add: distinct_card card_insert_if)
  ultimately show ?thesis unfolding majority_def by auto
qed

subsection \<open>The handlers in closed form\<close>

definition append_args :: "RaftNode \<Rightarrow> u64 \<Rightarrow> AppendEntriesArgs" where
  "append_args n next =
     \<lparr>ae_term = current_term n, ae_leader_id = self_id n, ae_prev_log_index = next - 1,
      ae_prev_log_term = (case vec_get (log n) (next - 1) of None \<Rightarrow> 0 | Some e \<Rightarrow> le_term e),
      ae_entries = drop (unat next) (log n), ae_leader_commit = committed_index n\<rparr>"

lemma build_append_entries_args_eq:
  "build_append_entries_args n next = (if next = 0 then None else Some (append_args n next))"
  by (simp add: build_append_entries_args_def append_args_def Let_def)

lemma is_LeaderE:
  assumes "is_Leader s"
  obtains ni mi where "s = Leader ni mi"
  using assms by (cases s) auto

definition proposal :: "RaftNode \<Rightarrow> string \<Rightarrow> RaftNode" where
  "proposal n command = n\<lparr>log := log n @
     [\<lparr>le_term = current_term n, le_index = le_index (last (log n)) + 1, le_command = command\<rparr>]\<rparr>"

lemma propose_command_leader:
  assumes "log n \<noteq> []" "is_Leader (state n)"
  defines "i \<equiv> le_index (last (log n)) + 1"
  shows "propose_command n c = Inl Overflow \<and> unat (le_index (last (log n))) = 2 ^ 64 - 1
    \<or> unat i = Suc (unat (le_index (last (log n)))) \<and>
      (\<exists>fx. propose_command n c = Inr (proposal n c, Some (i, current_term n), fx)
         \<and> sends fx = [BroadcastAppendEntries (append_args (proposal n c) i)] \<and> applies fx = [])"
proof (cases "le_index (last (log n))" "1 :: u64" rule: add_u64_cases)
  case 1
  moreover have "unat (le_index (last (log n))) < 2 ^ LENGTH(64)" by (rule unsigned_less)
  ultimately show ?thesis
    using assms by (auto simp: propose_command_def elim!: is_LeaderE)
next
  case 2
  then have "i \<noteq> 0" unfolding i_def by (metis unat_0 add.commute add_is_0 plus_1_eq_Suc nat.distinct(1) unat_1)
  with 2 show ?thesis
    using assms
    by (auto simp: propose_command_def proposal_def build_append_entries_args_eq Let_def elim!: is_LeaderE)
qed

lemma propose_command_other:
  "\<not> is_Leader (state n) \<Longrightarrow> \<exists>fx. propose_command n c = Inr (n, None, fx) \<and> sends fx = [] \<and> applies fx = []"
  by (cases "state n") (auto simp: propose_command_def)

lemma sends_concat: "sends (concat xss) = concat (map sends xss)"
  by (induction xss) auto

lemma applies_concat: "applies (concat xss) = concat (map applies xss)"
  by (induction xss) auto

lemma handle_heartbeat_timeout_leader:
  assumes "state n = Leader ni mi"
  shows "\<exists>fx. handle_heartbeat_timeout n = (n, fx) \<and> ResetHeartbeatTimer \<in> set fx \<and> applies fx = []
    \<and> sends fx = map (\<lambda>p. SendAppendEntries p (append_args n (next_index_of ni p)))
        (filter (\<lambda>p. next_index_of ni p \<noteq> 0) (peers n))"
proof -
  have "concat (map (\<lambda>p. sends (if next_index_of ni p = 0 then []
        else [SendAppendEntries p (append_args n (next_index_of ni p))])) ps)
      = map (\<lambda>p. SendAppendEntries p (append_args n (next_index_of ni p)))
        (filter (\<lambda>p. next_index_of ni p \<noteq> 0) ps)" for ps
    by (induction ps) auto
  moreover have "concat (map (\<lambda>p. applies (if next_index_of ni p = 0 then []
        else [SendAppendEntries p (append_args n (next_index_of ni p))])) ps) = []" for ps
    by (induction ps) auto
  ultimately show ?thesis
    using assms
    by (simp add: handle_heartbeat_timeout_def build_append_entries_args_eq sends_concat applies_concat
        comp_def if_distrib [of "case_option _ _"] cong: if_cong)
qed

lemma handle_heartbeat_timeout_other:
  "\<not> is_Leader (state n) \<Longrightarrow> handle_heartbeat_timeout n = (n, [])"
  by (cases "state n") (auto simp: handle_heartbeat_timeout_def)

text \<open>The index the leader may commit to, and the guard of the commit.\<close>

definition commit_candidate :: "RaftNode \<Rightarrow> u64" where
  "commit_candidate n =
     (let arr = sort (hm_values (match_indices (state n)) @ [le_index (last (log n))])
      in arr ! median_index (length arr) (length (peers n) + 1))"

definition may_commit :: "RaftNode \<Rightarrow> bool" where
  "may_commit n \<longleftrightarrow> hm_values (match_indices (state n)) \<noteq> []
     \<and> committed_index n < commit_candidate n
     \<and> unat (commit_candidate n) < length (log n)
     \<and> le_term (log n ! unat (commit_candidate n)) = current_term n"

definition committed_upto :: "RaftNode \<Rightarrow> u64 \<Rightarrow> RaftNode" where
  "committed_upto n i = n\<lparr>committed_index := i, last_applied := max (last_applied n) i\<rparr>"

lemma advance_leader_commit_eq:
  assumes "log n \<noteq> []" "is_Leader (state n)"
  shows "\<exists>fx. advance_leader_commit n se =
      Inr (if may_commit n then committed_upto n (commit_candidate n) else n, se @ fx)
    \<and> sends fx = [] \<and> applies fx = (if may_commit n
        then applied_between (log n) (unat (last_applied n)) (unat (commit_candidate n)) else [])"
proof -
  obtain ni mi where st: "state n = Leader ni mi" using assms(2) by (rule is_LeaderE)
  let ?n = "n\<lparr>committed_index := commit_candidate n\<rparr>"
  let ?se = "se @ [build_log_event ?n (''Leader committed up to index ''
    @ show_u64 (commit_candidate n) @ '' (Majority Consensus)'')]"
  have adv: "advance_leader_commit n se = Inr (if may_commit n then apply_committed ?n ?se else (n, se))"
  proof (cases "hm_values mi = []")
    case True
    with st show ?thesis by (simp add: advance_leader_commit_def may_commit_def)
  next
    case False
    define arr where "arr = sort (hm_values mi @ [le_index (last (log n))])"
    have "median_index (length arr) k < length arr" for k
      by (simp add: median_index_def arr_def)
    then show ?thesis
      using False st assms(1)
      by (auto simp: advance_leader_commit_def Let_def arr_def [symmetric] may_commit_def
          commit_candidate_def vec_get_def not_le)
  qed
  show ?thesis
  proof (cases "may_commit n")
    case True
    obtain fx where fx: "snd (apply_committed ?n ?se) = ?se @ fx" "sends fx = []"
      "applies fx = applied_between (log n) (unat (last_applied n)) (unat (commit_candidate n))"
      using apply_committed_effects [of ?n ?se] by auto
    have "apply_committed ?n ?se = (committed_upto n (commit_candidate n), ?se @ fx)"
      using fx(1) apply_committed_node [of ?n ?se]
      by (simp add: prod_eq_iff committed_upto_def)
    then show ?thesis using True adv fx by simp
  next
    case False
    then show ?thesis using adv by auto
  qed
qed

subsection \<open>Replies of the followers in closed form\<close>

definition retry_index :: "u64 \<Rightarrow> u64 \<Rightarrow> u64" where
  "retry_index hint current_next =
     (if hint < current_next then hint + 1 else max (saturating_sub_u64 current_next 1) 1)"

definition rejected_by :: "RaftNode \<Rightarrow> node_id \<Rightarrow> u64 \<Rightarrow> RaftNode" where
  "rejected_by n from hint =
     (let ni = next_indices (state n)
      in n\<lparr>state := Leader (hm_insert from (retry_index hint (next_index_of ni from)) ni)
           (match_indices (state n))\<rparr>)"

definition accepted_by :: "RaftNode \<Rightarrow> node_id \<Rightarrow> u64 \<Rightarrow> RaftNode" where
  "accepted_by n from m =
     (let ni = next_indices (state n)
      in n\<lparr>state := Leader (if next_index_of ni from < m + 1 then hm_insert from (m + 1) ni else ni)
           (hm_insert from m (match_indices (state n)))\<rparr>)"

lemma retry_index_pos: "retry_index hint next \<noteq> 0"
  by (auto simp: retry_index_def max_def saturating_sub_u64_def word_le_nat_alt
      dest!: unat_Suc_below split: if_splits)

lemma retry_index_le: "next \<noteq> 0 \<Longrightarrow> retry_index hint next \<le> next"
  by (auto simp: retry_index_def max_def saturating_sub_u64_def word_le_nat_alt word_less_nat_alt
      unat_pred unat_Suc_below unat_gt_0 Suc_le_eq split: if_splits)

lemma handle_append_entries_reply_newer:
  "current_term n < ar_term r \<Longrightarrow> \<exists>fx. handle_append_entries_reply n from r = Inr (observe n (ar_term r), fx)
    \<and> sends fx = [] \<and> applies fx = []"
  using maybe_step_down_observe [of n "ar_term r" "[]"]
  by (auto simp: handle_append_entries_reply_def Let_def)

lemma handle_append_entries_reply_ignored:
  "\<not> current_term n < ar_term r \<Longrightarrow> ar_term r \<noteq> current_term n \<or> \<not> is_Leader (state n) \<Longrightarrow>
    \<exists>fx. handle_append_entries_reply n from r = Inr (n, fx) \<and> sends fx = [] \<and> applies fx = []"
  by (cases "state n") (auto simp: handle_append_entries_reply_def Let_def maybe_step_down_def)

lemma handle_append_entries_reply_failure:
  fixes p :: node_id
  assumes "ar_term r = current_term n" "is_Leader (state n)" "\<not> ar_success r"
  defines "n' \<equiv> rejected_by n p (ar_match_index r)"
  defines "i \<equiv> retry_index (ar_match_index r) (next_index_of (next_indices (state n)) p)"
  shows "\<exists>fx. handle_append_entries_reply n p r = Inr (n', fx)
    \<and> sends fx = [SendAppendEntries p (append_args n' i)] \<and> applies fx = []"
proof -
  obtain ni mi where st: "state n = Leader ni mi" using assms(2) by (rule is_LeaderE)
  have add: "(if ar_match_index r < next_index_of ni p then add_u64 (ar_match_index r) 1
        else Inr (max (saturating_sub_u64 (next_index_of ni p) 1) 1)) = Inr i"
  proof (cases "ar_match_index r < next_index_of ni p")
    case True
    have "unat (next_index_of ni p) < 2 ^ LENGTH(64)" by (rule unsigned_less)
    with True show ?thesis by (simp add: i_def retry_index_def st add_u64_def word_less_nat_alt)
  next
    case False
    then show ?thesis by (simp add: i_def retry_index_def st)
  qed
  show ?thesis
    using assms(1,3) st add retry_index_pos [of "ar_match_index r" "next_index_of ni p"]
    by (simp add: handle_append_entries_reply_def Let_def maybe_step_down_def n'_def rejected_by_def
        build_append_entries_args_eq i_def)
qed

lemma handle_append_entries_reply_success:
  fixes p :: node_id
  assumes "ar_term r = current_term n" "is_Leader (state n)" "ar_success r" "log n \<noteq> []"
  defines "n' \<equiv> accepted_by n p (ar_match_index r)"
  shows "handle_append_entries_reply n p r = Inl Overflow \<and> unat (ar_match_index r) = 2 ^ 64 - 1
    \<or> unat (ar_match_index r + 1) = Suc (unat (ar_match_index r)) \<and>
      (\<exists>fx. handle_append_entries_reply n p r =
         Inr (if may_commit n' then committed_upto n' (commit_candidate n') else n', fx)
       \<and> sends fx = [] \<and> applies fx = (if may_commit n'
           then applied_between (log n) (unat (last_applied n)) (unat (commit_candidate n')) else []))"
proof -
  obtain ni mi where st: "state n = Leader ni mi" using assms(2) by (rule is_LeaderE)
  show ?thesis
  proof (cases "ar_match_index r" "1 :: u64" rule: add_u64_cases)
    case 1
    moreover have "unat (ar_match_index r) < 2 ^ LENGTH(64)" by (rule unsigned_less)
    ultimately show ?thesis
      using assms(1,3) st by (simp add: handle_append_entries_reply_def Let_def maybe_step_down_def)
  next
    case 2
    have n': "is_Leader (state n')" "log n' = log n" "last_applied n' = last_applied n"
      by (simp_all add: n'_def accepted_by_def Let_def)
    obtain se where "handle_append_entries_reply n p r = advance_leader_commit n' se"
      and "sends se = []" "applies se = []"
      using 2 assms(1,3) st
      by (auto simp: handle_append_entries_reply_def Let_def maybe_step_down_def n'_def accepted_by_def)
    then show ?thesis
      using advance_leader_commit_eq [of n' se] 2 n' assms(4) by auto
  qed
qed

subsection \<open>The median rule commits all it can\<close>

lemma sorted_nth_rank_upper:
  assumes "sorted xs" "i < length xs" "length xs - i \<le> length (filter (\<lambda>x. v \<le> x) xs)"
  shows "v \<le> xs ! i"
proof (rule ccontr)
  assume "\<not> v \<le> xs ! i"
  moreover have "x \<le> xs ! i" if x: "x \<in> set (take (Suc i) xs)" for x
  proof -
    obtain k where "k < Suc i" "x = xs ! k" using x assms(2) by (auto simp: in_set_conv_nth)
    then show ?thesis using sorted_nth_mono [OF assms(1), of k i] assms(2) by simp
  qed
  ultimately have "\<forall>x \<in> set (take (Suc i) xs). \<not> v \<le> x" using order_trans by blast
  then have none: "filter (\<lambda>x. v \<le> x) (take (Suc i) xs) = []" by (simp add: filter_empty_conv)
  have "filter (\<lambda>x. v \<le> x) xs = filter (\<lambda>x. v \<le> x) (take (Suc i) xs) @ filter (\<lambda>x. v \<le> x) (drop (Suc i) xs)"
    by (metis append_take_drop_id filter_append)
  with none have "length (filter (\<lambda>x. v \<le> x) xs) \<le> length (drop (Suc i) xs)"
    using length_filter_le [of "\<lambda>x. v \<le> x" "drop (Suc i) xs"] by simp
  then show False using assms(2,3) by simp
qed

text \<open>The converse of \<open>median_majority\<close>: what a majority has reached, the median has reached.\<close>

lemma majority_median:
  assumes "hm_inv mi" "dom (hm_get mi) = set ps" "distinct ps" "i \<notin> set ps"
    and arr: "arr = sort (hm_values mi @ [x])"
    and v: "v \<le> x" "length ps + 1 < 2 * card (insert i {p \<in> set ps. v \<le> the (hm_get mi p)})"
  shows "v \<le> arr ! median_index (length arr) (length ps + 1)"
proof -
  let ?n = "length ps + 1" and ?Q = "{p \<in> set ps. v \<le> the (hm_get mi p)}"
  have len: "length arr = ?n"
    using assms(1-3) hm.length_vals [of mi] by (simp add: arr distinct_card)
  have md: "median_index (length arr) ?n < length arr" "length arr - median_index (length arr) ?n = ?n div 2 + 1"
    using len by (auto simp: median_index_def)
  have "length (filter (\<lambda>y. v \<le> y) arr) = length (filter (\<lambda>y. v \<le> y) (hm_values mi @ [x]))"
    by (rule filter_length_mset) (simp add: arr)
  also have "\<dots> = card ?Q + 1"
    using hm.count_vals [OF assms(1), of "\<lambda>y. v \<le> y"] assms(2) v(1) by simp
  also have "\<dots> = card (insert i ?Q)" using assms(4) by (simp add: card_insert_if)
  finally have "?n div 2 + 1 \<le> length (filter (\<lambda>y. v \<le> y) arr)" using v(2) by linarith
  then show ?thesis using sorted_nth_rank_upper [OF _ md(1)] md(2) by (simp add: arr)
qed

text \<open>The nodes that have reached an index, as the leader sees it.\<close>

definition reached :: "RaftNode \<Rightarrow> (node_id, u64) hash_map \<Rightarrow> u64 \<Rightarrow> node_id set" where
  "reached n mi k = insert (self_id n) {p \<in> set (peers n). k \<le> the (hm_get mi p)}"

text \<open>A leader's view of its followers: distinct peers, a match index in the log for each.\<close>

definition leader_view_ok :: "RaftNode \<Rightarrow> (node_id, u64) hash_map \<Rightarrow> bool" where
  "leader_view_ok n mi \<longleftrightarrow> hm_inv mi \<and> dom (hm_get mi) = set (peers n) \<and> distinct (peers n)
     \<and> self_id n \<notin> set (peers n) \<and> peers n \<noteq> []
     \<and> (\<forall>p w. hm_get mi p = Some w \<longrightarrow> unat w < length (log n))"

lemma commit_candidate_bounds:
  assumes "state n = Leader ni mi" "leader_view_ok n mi" "log n \<noteq> []"
    and "unat (le_index (last (log n))) = length (log n) - 1"
  shows "hm_values mi \<noteq> []" "unat (commit_candidate n) < length (log n)"
    "commit_candidate n \<le> le_index (last (log n))"
    "length (peers n) + 1 < 2 * card (reached n mi (commit_candidate n))"
    "k \<le> le_index (last (log n)) \<Longrightarrow> length (peers n) + 1 < 2 * card (reached n mi k) \<Longrightarrow> k \<le> commit_candidate n"
proof -
  let ?x = "le_index (last (log n))" and ?v = "commit_candidate n"
  define arr where "arr = sort (hm_values mi @ [?x])"
  have ok: "hm_inv mi" "dom (hm_get mi) = set (peers n)" "distinct (peers n)" "self_id n \<notin> set (peers n)" "peers n \<noteq> []"
    "\<And>p w. hm_get mi p = Some w \<Longrightarrow> unat w < length (log n)"
    using assms(2) by (auto simp: leader_view_ok_def)
  have len: "length (hm_values mi) = length (peers n)" using hm.length_vals [OF ok(1)] ok(2,3) by (simp add: distinct_card)
  then show "hm_values mi \<noteq> []" using ok(5) by auto
  have v: "?v = arr ! median_index (length arr) (length (peers n) + 1)"
    using assms(1) by (simp add: commit_candidate_def arr_def Let_def)
  have vals: "set (hm_values mi) = {w. \<exists>p. hm_get mi p = Some w}"
  proof -
    have "set (hm_values mi) = (\<lambda>k. the (hm_get mi k)) ` dom (hm_get mi)"
      using hm.vals_mset [OF ok(1)] hm.finite_keys [OF ok(1)] by (metis finite_set_mset_mset_set set_image_mset set_mset_mset)
    then show ?thesis by force
  qed
  have "median_index (length arr) (length (peers n) + 1) < length arr" by (simp add: arr_def median_index_def)
  then have "?v \<in> set arr" unfolding v by (rule nth_mem)
  then have "?v = ?x \<or> (\<exists>p. hm_get mi p = Some ?v)" using vals by (auto simp: arr_def)
  then show b: "unat ?v < length (log n)" using ok(6) assms(3,4) by fastforce
  then show le: "?v \<le> ?x" using assms(4) by (simp add: word_le_nat_alt)
  have "majority (insert (self_id n) (set (peers n))) (reached n mi ?v)"
    unfolding reached_def using median_majority [OF ok(1-4) arr_def v le] .
  then show "length (peers n) + 1 < 2 * card (reached n mi ?v)"
    using ok(3,4) by (simp add: majority_def distinct_card)
  show "k \<le> ?v" if "k \<le> ?x" "length (peers n) + 1 < 2 * card (reached n mi k)"
    using majority_median [OF ok(1-4) arr_def that(1)] that(2) v by (simp add: reached_def)
qed

lemma retry_index_same:
  assumes "next \<noteq> 0"
  shows "retry_index hint next = next \<longleftrightarrow> next = 1 \<or> hint = next - 1"
proof (cases "hint < next")
  case True
  then have "hint + 1 = next \<longleftrightarrow> hint = next - 1" by (metis add_diff_cancel diff_add_cancel)
  moreover have "hint = 0" if "next = 1" using True that by simp
  ultimately show ?thesis using True by (auto simp: retry_index_def)
next
  case False
  have p: "unat (next - 1) = unat next - 1" "0 < unat next" using assms by (auto simp: unat_pred unat_gt_0)
  then have "next - 1 < next" by (simp add: word_less_nat_alt)
  then have "hint \<noteq> next - 1" "next - 1 \<noteq> next" using False by auto
  moreover have "saturating_sub_u64 next 1 = next - 1"
    using p by (auto simp: saturating_sub_u64_def word_less_nat_alt)
  ultimately show ?thesis using False \<open>next - 1 < next\<close>
    by (auto simp: retry_index_def max_def)
qed

subsection \<open>The properties\<close>

text \<open>C12: The leader's commit rule. After a positive reply of a peer, the leader commits the largest index that more
  than half of the cluster (itself included) has reached and whose entry is of its current term, if it is above
  its commit index; every index that has both is committed, and an entry of an older term is never committed by
  counting its replicas (the paper's Figure 8). The newly committed entries are applied in order.\<close>

theorem commit_rule:
  assumes "state n = Leader ni mi" "leader_view_ok n (hm_insert j (ar_match_index r) mi)"
    and "log n \<noteq> []" "unat (le_index (last (log n))) = length (log n) - 1"
    and "sorted (map le_term (log n))" "le_term (last (log n)) \<le> current_term n"
    and "ar_term r = current_term n" "ar_success r"
    and "handle_append_entries_reply n j r = Inr (n', fx)"
  defines "quorum \<equiv> \<lambda>k. length (peers n) + 1 < 2 * card (reached n (hm_insert j (ar_match_index r) mi) k)"
  shows "(committed_index n' \<noteq> committed_index n \<longrightarrow> committed_index n < committed_index n'
       \<and> quorum (committed_index n') \<and> le_term (log n ! unat (committed_index n')) = current_term n)
    \<and> (\<forall>k. unat k < length (log n) \<and> le_term (log n ! unat k) = current_term n \<and> quorum k
         \<longrightarrow> k \<le> committed_index n')
    \<and> applies fx = applied_between (log n) (unat (last_applied n))
         (if committed_index n < committed_index n' then unat (committed_index n') else 0)
    \<and> log n' = log n \<and> current_term n' = current_term n"
proof -
  let ?mi = "hm_insert j (ar_match_index r) mi" and ?n = "accepted_by n j (ar_match_index r)"
  obtain ni' where m: "state ?n = Leader ni' ?mi" "log ?n = log n" "peers ?n = peers n" "self_id ?n = self_id n"
    "committed_index ?n = committed_index n" "last_applied ?n = last_applied n" "current_term ?n = current_term n"
    using assms(1) by (simp add: accepted_by_def Let_def)
  have view: "leader_view_ok ?n ?mi" and ne: "log ?n \<noteq> []" and idx: "unat (le_index (last (log ?n))) = length (log ?n) - 1"
    using assms(2-4) m by (simp_all add: leader_view_ok_def)
  note b = commit_candidate_bounds [OF m(1) view ne idx]
  let ?v = "commit_candidate ?n"
  have reached: "reached ?n = reached n" by (simp add: reached_def fun_eq_iff m(3,4))
  have res: "n' = (if may_commit ?n then committed_upto ?n ?v else ?n)"
    "applies fx = (if may_commit ?n then applied_between (log n) (unat (last_applied n)) (unat ?v) else [])"
    using handle_append_entries_reply_success [OF assms(7) _ assms(8,3), of j] assms(1,9) by auto
  have may: "may_commit ?n \<longleftrightarrow> committed_index n < ?v \<and> le_term (log n ! unat ?v) = current_term n"
    using b(1,2) m by (simp add: may_commit_def)
  have ci: "committed_index n' = (if may_commit ?n then ?v else committed_index n)"
    "log n' = log n" "current_term n' = current_term n"
    using res(1) m by (simp_all add: committed_upto_def)
  have upper: "k \<le> committed_index n'"
    if k: "unat k < length (log n)" "le_term (log n ! unat k) = current_term n" "quorum k" for k
  proof -
    have kx: "k \<le> le_index (last (log ?n))" using k(1) idx m(2) by (simp add: word_le_nat_alt)
    have kv: "k \<le> ?v"
      by (rule b(5) [OF kx]) (use k(3) in \<open>simp add: quorum_def reached m(3)\<close>)
    have v: "unat ?v < length (log n)" using b(2) m(2) by simp
    have "le_term (log n ! unat k) \<le> le_term (log n ! unat ?v)"
      using sorted_nth_mono [OF assms(5), of "unat k" "unat ?v"] kv v by (simp add: word_le_nat_alt)
    moreover have "le_term (log n ! unat ?v) \<le> le_term (last (log n))"
      using sorted_nth_mono [OF assms(5), of "unat ?v" "length (log n) - 1"] v assms(3)
      by (simp add: last_conv_nth)
    ultimately have "le_term (log n ! unat ?v) = current_term n" using k(2) assms(6) by simp
    then show ?thesis using may kv ci(1) by (auto simp: not_less)
  qed
  have "committed_index n' \<noteq> committed_index n \<longrightarrow> committed_index n < committed_index n'
       \<and> quorum (committed_index n') \<and> le_term (log n ! unat (committed_index n')) = current_term n"
    using ci(1) may b(4) by (auto simp: quorum_def reached m(3))
  then show ?thesis using upper ci res(2) may by (auto simp: not_less)
qed

theorem commit_rule_witness:
  "let n = (new ''A'' [''B'', ''C''])\<lparr>current_term := 1, log := [sentinel, \<lparr>le_term = 1, le_index = 1, le_command = ''x''\<rparr>],
         state := Leader [(''B'', 1), (''C'', 1)] [(''B'', 0), (''C'', 0)]\<rparr>
   in \<exists>n' fx. handle_append_entries_reply n ''B'' \<lparr>ar_term = 1, ar_success = True, ar_match_index = 1\<rparr> = Inr (n', fx)
      \<and> 1 \<le> committed_index n'"
proof -
  let ?n = "(new ''A'' [''B'', ''C''])\<lparr>current_term := 1, log := [sentinel, \<lparr>le_term = 1, le_index = 1, le_command = ''x''\<rparr>],
         state := Leader [(''B'', 1), (''C'', 1)] [(''B'', 0), (''C'', 0)]\<rparr>"
  let ?r = "\<lparr>ar_term = 1, ar_success = True, ar_match_index = 1\<rparr> :: AppendEntriesReply"
  have "\<exists>x. handle_append_entries_reply ?n ''B'' ?r = Inr x" by (rule exI) code_simp
  then obtain n' fx where h: "handle_append_entries_reply ?n ''B'' ?r = Inr (n', fx)" by auto
  have m: "hm_insert ''B'' (1 :: u64) [(''B'', 0), (''C'', 0)] = [(''B'', 1), (''C'', 0)]" by (simp add: hm_insert_def)
  have view: "leader_view_ok ?n [(''B'', 1), (''C'', 0)]"
    by (auto simp: leader_view_ok_def new_def hm_inv_def hm_get_map_of split: if_splits)
  have reached: "reached ?n [(''B'', 1), (''C'', 0)] 1 = {''A'', ''B''}"
    by (auto simp: reached_def new_def hm_get_def)
  have "1 \<le> committed_index n'"
    using commit_rule [OF _ _ _ _ _ _ _ _ h] view reached by (simp add: m sentinel_def new_def)
  then show ?thesis using h by auto
qed

text \<open>The leader's view after a positive reply of its term: the sender's match index is the acknowledged
  one, its next index is at least one past it and does not move back, nothing changes for the other peers, and
  nothing is sent. (The addition can only panic at the largest index.)\<close>

lemma accepted_reply_updates_view:
  assumes "state n = Leader ni mi" "hm_inv ni" "hm_inv mi" "log n \<noteq> []" "ar_term r = current_term n" "ar_success r"
    and "unat (ar_match_index r) < 2 ^ 64 - 1"
  shows "\<exists>n' fx ni' mi'. handle_append_entries_reply n j r = Inr (n', fx) \<and> state n' = Leader ni' mi' \<and> sends fx = []
    \<and> (\<forall>p. hm_get mi' p = (if p = j then Some (ar_match_index r) else hm_get mi p))
    \<and> next_index_of ni' j = max (next_index_of ni j) (ar_match_index r + 1)
    \<and> (\<forall>p. p \<noteq> j \<longrightarrow> hm_get ni' p = hm_get ni p)"
proof -
  let ?m = "ar_match_index r" and ?n = "accepted_by n j (ar_match_index r)"
  have ldr: "is_Leader (state n)" using assms(1) by simp
  obtain fx where h: "handle_append_entries_reply n j r
      = Inr (if may_commit ?n then committed_upto ?n (commit_candidate ?n) else ?n, fx)" "sends fx = []"
    using handle_append_entries_reply_success [OF assms(5) ldr assms(6,4), of j] assms(7) by auto
  define ni' where "ni' = (if next_index_of ni j < ?m + 1 then hm_insert j (?m + 1) ni else ni)"
  have st: "state (if may_commit ?n then committed_upto ?n (commit_candidate ?n) else ?n) = Leader ni' (hm_insert j ?m mi)"
    using assms(1) by (simp add: accepted_by_def committed_upto_def Let_def ni'_def)
  have "next_index_of ni' j = max (next_index_of ni j) (?m + 1)"
    by (simp add: ni'_def next_index_of_def hm.lookup_insert [OF assms(2)] max_def less_imp_le)
  moreover have "\<forall>p. p \<noteq> j \<longrightarrow> hm_get ni' p = hm_get ni p"
    by (simp add: ni'_def hm.lookup_insert [OF assms(2)])
  moreover have "\<forall>p. hm_get (hm_insert j ?m mi) p = (if p = j then Some ?m else hm_get mi p)"
    by (simp add: hm.lookup_insert [OF assms(3)])
  ultimately show ?thesis using h st by blast
qed

text \<open>What a negative reply of the current term makes the leader do: it sends one message, to the sender of
  the reply, that starts at the new next index. That index is at least 1 and at most the old one, and it is the old
  one again exactly when that was 1 or the follower's hint is the position just before it; nothing else changes.\<close>

lemma rejected_reply_retries:
  assumes "state n = Leader ni mi" "hm_inv ni" "ar_term r = current_term n" "\<not> ar_success r" "next_index_of ni j \<noteq> 0"
  shows "\<exists>n' fx ni'. handle_append_entries_reply n j r = Inr (n', fx) \<and> n' = n\<lparr>state := Leader ni' mi\<rparr>
    \<and> (\<forall>p. p \<noteq> j \<longrightarrow> hm_get ni' p = hm_get ni p)
    \<and> 1 \<le> next_index_of ni' j \<and> next_index_of ni' j \<le> next_index_of ni j
    \<and> (next_index_of ni' j = next_index_of ni j \<longleftrightarrow>
         next_index_of ni j = 1 \<or> ar_match_index r = next_index_of ni j - 1)
    \<and> sends fx = [SendAppendEntries j (append_args n (next_index_of ni' j))] \<and> applies fx = []"
proof -
  let ?h = "ar_match_index r" and ?x = "next_index_of ni j"
  let ?w = "retry_index ?h ?x"
  obtain fx where h: "handle_append_entries_reply n j r = Inr (rejected_by n j ?h, fx)"
    "sends fx = [SendAppendEntries j (append_args (rejected_by n j ?h) ?w)]" "applies fx = []"
    using handle_append_entries_reply_failure [OF assms(3) _ assms(4), of j] assms(1) by auto
  have n': "rejected_by n j ?h = n\<lparr>state := Leader (hm_insert j ?w ni) mi\<rparr>"
    using assms(1) by (simp add: rejected_by_def Let_def)
  have w: "next_index_of (hm_insert j ?w ni) j = ?w" by (simp add: next_index_of_def hm.lookup_insert [OF assms(2)])
  have "append_args (n\<lparr>state := Leader (hm_insert j ?w ni) mi\<rparr>) ?w = append_args n ?w" by (simp add: append_args_def)
  moreover have "1 \<le> ?w" using retry_index_pos [of ?h ?x] by (simp add: word_le_nat_alt unat_gt_0 Suc_le_eq)
  moreover have "?w \<le> ?x" by (rule retry_index_le [OF assms(5)])
  moreover have "?w = ?x \<longleftrightarrow> ?x = 1 \<or> ?h = ?x - 1" by (rule retry_index_same [OF assms(5)])
  moreover have "\<forall>p. p \<noteq> j \<longrightarrow> hm_get (hm_insert j ?w ni) p = hm_get ni p" by (simp add: hm.lookup_insert [OF assms(2)])
  ultimately show ?thesis
    using h by (intro exI [of _ "rejected_by n j ?h"] exI [of _ fx] exI [of _ "hm_insert j ?w ni"]) (simp add: n' w)
qed

text \<open>C30: Proposing a command. A leader appends one entry of its term at the next index, keeps everything else, and
  broadcasts it with the position before it; at the largest index the addition panics. A node that is not leader
  changes nothing, sends nothing and reports no index.\<close>

theorem propose_rule:
  assumes "log n \<noteq> []"
  defines "i \<equiv> le_index (last (log n)) + 1"
  shows "if \<not> is_Leader (state n) then \<exists>fx. propose_command n x = Inr (n, None, fx) \<and> sends fx = []
    else if unat (le_index (last (log n))) = 2 ^ 64 - 1 then propose_command n x = Inl Overflow
    else \<exists>n' fx. propose_command n x = Inr (n', Some (i, current_term n), fx)
      \<and> n' = n\<lparr>log := log n @ [\<lparr>le_term = current_term n, le_index = i, le_command = x\<rparr>]\<rparr>
      \<and> sends fx = [BroadcastAppendEntries (append_args n' i)] \<and> applies fx = []"
proof (cases "is_Leader (state n)")
  case False
  then show ?thesis using propose_command_other [OF False, of x] by auto
next
  case True
  have "unat (le_index (last (log n)) + 1) < 2 ^ LENGTH(64)" by (rule unsigned_less)
  then show ?thesis
    using propose_command_leader [OF assms(1) True, of x] True by (auto simp: proposal_def i_def)
qed

theorem propose_rule_witness:
  "\<exists>n fx. propose_command ((new ''A'' [''B''])\<lparr>state := Leader [] []\<rparr>) ''x'' = Inr (n, Some (1, 0), fx)
    \<and> log n = [sentinel, \<lparr>le_term = 0, le_index = 1, le_command = ''x''\<rparr>]"
  using propose_rule [of "(new ''A'' [''B''])\<lparr>state := Leader [] []\<rparr>" "''x''"]
  by (auto simp: new_def sentinel_def)

text \<open>What a client is told. A leader answers success with its own id and the index at which the command now is
  in its log; any other node answers failure with the leader it knows of, if it knows one, and leaves its
  state as it was.\<close>

lemma client_reply_rule:
  assumes "log n \<noteq> []" "handle_client_request n a = Inr (n', r, fx)"
  shows "if is_Leader (state n) then
      cp_success r \<and> cp_leader_id r = Some (self_id n)
      \<and> cp_response r = ''Command accepted and appended at index '' @ show_u64 (le_index (last (log n')))
      \<and> le_command (last (log n')) = cr_command a \<and> butlast (log n') = log n
    else \<not> cp_success r \<and> cp_leader_id r = leader_id n \<and> n' = n \<and> sends fx = []"
proof (cases "is_Leader (state n)")
  case True
  then show ?thesis
    using propose_command_leader [OF assms(1) True, of "cr_command a"] assms(2)
    by (auto simp: handle_client_request_def proposal_def)
next
  case False
  then show ?thesis
    using propose_command_other [OF False, of "cr_command a"] assms(2) by (auto simp: handle_client_request_def)
qed

text \<open>A leader's heartbeat is one message to every peer, in the order of the peers, each starting at that
  peer's next index (1 when there is none) and carrying the rest of the log and the commit index; the heartbeat
  timer is reset and the leader's state does not change. Any other node does nothing.\<close>

lemma heartbeat_reaches_every_peer:
  assumes "\<forall>ni mi. state n = Leader ni mi \<longrightarrow> (\<forall>p \<in> set (peers n). next_index_of ni p \<noteq> 0)"
  shows "\<exists>fx. handle_heartbeat_timeout n = (n, fx) \<and> applies fx = [] \<and>
    (case state n of
       Leader ni mi \<Rightarrow> ResetHeartbeatTimer \<in> set fx \<and>
         sends fx = map (\<lambda>p. let w = next_index_of ni p in SendAppendEntries p
           \<lparr>ae_term = current_term n, ae_leader_id = self_id n, ae_prev_log_index = w - 1,
            ae_prev_log_term = (if unat (w - 1) < length (log n) then le_term (log n ! unat (w - 1)) else 0),
            ae_entries = drop (unat w) (log n), ae_leader_commit = committed_index n\<rparr>) (peers n)
     | _ \<Rightarrow> fx = [])"
proof (cases "is_Leader (state n)")
  case True
  then obtain ni mi where st: "state n = Leader ni mi" by (rule is_LeaderE)
  have "filter (\<lambda>p. next_index_of ni p \<noteq> 0) (peers n) = peers n" using assms st by (auto intro: filter_True)
  then show ?thesis
    using handle_heartbeat_timeout_leader [OF st] st
    by (auto simp: append_args_def Let_def vec_get_def split: option.split)
next
  case False
  then show ?thesis using handle_heartbeat_timeout_other [OF False] by (cases "state n") auto
qed

end
