(* ===== verification/Engine.thy ===== *)
theory Engine
  imports Replication Leadership
begin

section \<open>The engine around a node\<close>

text \<open>
  \<^verbatim>\<open>raft-rust/src/main.rs\<close>: the timers, the tick loop, the dispatch of incoming messages
  and the execution of side effects. A process is the pair behind the two mutexes together
  with what leaves it: the channel to the relay, standard output and standard error.
  The node and the engine are always locked together, in this order, so a handler is one
  step. A panic while the locks are held poisons them and leaves the node and the channel as they
  are at that point; every later \<open>lock().unwrap()\<close> panics too, so a poisoned process does
  nothing more. A panic inside an operation of the node leaves the node as it was before the
  call (the fields the operation has already set are behind the poisoned lock, where nothing
  reads them). \<open>stderr\<close> holds what \<open>eprintln!\<close> prints, not the report of the panic hook.

  JSON encoding (\<^verbatim>\<open>serde_json\<close>) and the random generator (\<^verbatim>\<open>rand\<close>) are not part of the
  source tree: they are the parameters \<open>c\<close> and \<open>gen\<close>. The threads and
  the listener are in \<open>Listener\<close>; sleeping is not modelled.
\<close>

subsection \<open>What serde provides\<close>

record 'v codec =
  to_value_append_entries :: "AppendEntriesArgs \<Rightarrow> 'v"
  to_value_append_reply :: "AppendEntriesReply \<Rightarrow> 'v"
  to_value_request_vote :: "RequestVoteArgs \<Rightarrow> 'v"
  to_value_vote_reply :: "RequestVoteReply \<Rightarrow> 'v"
  to_value_client_reply :: "ClientRequestReply \<Rightarrow> 'v"
  from_slice_append_entries :: "'v \<Rightarrow> AppendEntriesArgs option"
  from_slice_append_reply :: "'v \<Rightarrow> AppendEntriesReply option"
  from_slice_request_vote :: "'v \<Rightarrow> RequestVoteArgs option"
  from_slice_vote_reply :: "'v \<Rightarrow> RequestVoteReply option"
  from_slice_client_request :: "'v \<Rightarrow> ClientRequestArgs option"

text \<open>The documented law: a value of a derived type survives \<open>to_value\<close> and \<open>from_slice\<close>.\<close>

locale serde_codec =
  fixes c :: "'v codec"
  assumes rt_append_entries: "from_slice_append_entries c (to_value_append_entries c a) = Some a"
    and rt_append_reply: "from_slice_append_reply c (to_value_append_reply c ar) = Some ar"
    and rt_request_vote: "from_slice_request_vote c (to_value_request_vote c rv) = Some rv"
    and rt_vote_reply: "from_slice_vote_reply c (to_value_vote_reply c rr) = Some rr"

subsection \<open>Timers\<close>

record EngineState =
  election_tick_count :: u64
  heartbeat_tick_count :: u64
  election_timeout_limit :: u64

definition engine_new :: "('g \<Rightarrow> u64 \<times> 'g) \<Rightarrow> 'g \<Rightarrow> EngineState \<times> 'g" where
  "engine_new gen g = (let (limit, g) = gen g
     in (\<lparr>election_tick_count = 0, heartbeat_tick_count = 0, election_timeout_limit = limit\<rparr>, g))"

definition reset_election_timer :: "('g \<Rightarrow> u64 \<times> 'g) \<Rightarrow> EngineState \<times> 'g \<Rightarrow> EngineState \<times> 'g" where
  "reset_election_timer gen = (\<lambda>(e, g).
     let e = e\<lparr>election_tick_count := 0\<rparr>; (limit, g) = gen g
     in (e\<lparr>election_timeout_limit := limit\<rparr>, g))"

definition reset_heartbeat_timer :: "EngineState \<Rightarrow> EngineState" where
  "reset_heartbeat_timer e = e\<lparr>heartbeat_tick_count := 0\<rparr>"

text \<open>\<open>rng.gen_range(30..150)\<close> stays in its range.\<close>

definition gen_range_30_150 :: "('g \<Rightarrow> u64 \<times> 'g) \<Rightarrow> bool" where
  "gen_range_30_150 gen \<longleftrightarrow> (\<forall>g. 30 \<le> fst (gen g) \<and> fst (gen g) < 150)"

subsection \<open>A process\<close>

text \<open>
  \<open>tx\<close> holds every message the process has put on its channel, in order; \<open>applied\<close>
  records the entries its \<open>ApplyEntry\<close> arm has executed, which is where a real state
  machine would be called.
\<close>

record ('v, 'g) Process =
  node :: RaftNode
  engine :: EngineState
  rng :: 'g
  tx :: "'v Message list"
  stdout :: "string list"
  stderr :: "string list"
  applied :: "(u64 \<times> string) list"
  poisoned :: bool

definition start_process ::
    "('g \<Rightarrow> u64 \<times> 'g) \<Rightarrow> 'g \<Rightarrow> node_id \<Rightarrow> node_id list \<Rightarrow> ('v, 'g) Process" where
  "start_process gen g i ps = (let (e, g) = engine_new gen g
     in \<lparr>node = new i ps, engine = e, rng = g, tx = [], stdout = [], stderr = [], applied = [],
         poisoned = False\<rparr>)"

subsection \<open>Executing side effects\<close>

definition envelope :: "RaftNode \<Rightarrow> node_id \<Rightarrow> string \<Rightarrow> 'v \<Rightarrow> 'v Message" where
  "envelope n target t payload = \<lparr>m_from = self_id n, m_to = target, m_type = t, m_payload = payload\<rparr>"

fun execute_effect ::
    "'v codec \<Rightarrow> ('g \<Rightarrow> u64 \<times> 'g) \<Rightarrow> SideEffect \<Rightarrow> ('v, 'g) Process \<Rightarrow> ('v, 'g) Process" where
  "execute_effect c gen (LogMessage m) p = p\<lparr>stdout := stdout p @ [m]\<rparr>"
| "execute_effect c gen (ApplyEntry index command) p =
     p\<lparr>stdout := stdout p @ [''[Node='' @ self_id (node p) @ ''] *** STATE MACHINE APPLY *** Index: ''
          @ show_u64 index @ '', Command: '' @ [CHR 0x27] @ command @ [CHR 0x27]],
       applied := applied p @ [(index, command)]\<rparr>"
| "execute_effect c gen (SendAppendEntries target args) p =
     p\<lparr>tx := tx p @ [envelope (node p) target ''AppendEntries'' (to_value_append_entries c args)]\<rparr>"
| "execute_effect c gen (BroadcastAppendEntries args) p =
     (let payload = to_value_append_entries c args
      in p\<lparr>tx := tx p @ map (\<lambda>peer. envelope (node p) peer ''AppendEntries'' payload) (peers (node p))\<rparr>)"
| "execute_effect c gen (BroadcastRequestVote args) p =
     (let payload = to_value_request_vote c args
      in p\<lparr>tx := tx p @ map (\<lambda>peer. envelope (node p) peer ''RequestVote'' payload) (peers (node p))\<rparr>)"
| "execute_effect c gen ResetElectionTimer p =
     (let (e, g) = reset_election_timer gen (engine p, rng p) in p\<lparr>engine := e, rng := g\<rparr>)"
| "execute_effect c gen ResetHeartbeatTimer p =
     p\<lparr>engine := reset_heartbeat_timer (engine p)\<rparr>"

definition execute_effects ::
    "'v codec \<Rightarrow> ('g \<Rightarrow> u64 \<times> 'g) \<Rightarrow> SideEffect list \<Rightarrow> ('v, 'g) Process \<Rightarrow> ('v, 'g) Process" where
  "execute_effects c gen effects p = fold (execute_effect c gen) effects p"

subsection \<open>Incoming messages\<close>

definition send :: "('v, 'g) Process \<Rightarrow> 'v Message \<Rightarrow> ('v, 'g) Process" where
  "send p m = p\<lparr>tx := tx p @ [m]\<rparr>"

definition decode :: "string \<Rightarrow> 'a option \<Rightarrow> 'a res" where
  "decode what r = (case r of None \<Rightarrow> Inl (Payload_Mismatch what) | Some x \<Rightarrow> Inr x)"

definition handle_message ::
    "'v codec \<Rightarrow> ('g \<Rightarrow> u64 \<times> 'g) \<Rightarrow> ('v, 'g) Process \<Rightarrow> 'v Message
      \<Rightarrow> (panic \<times> ('v, 'g) Process) + ('v, 'g) Process" where
  "handle_message c gen p msg =
     (if m_type msg = ''AppendEntries'' then
        res_bind (halting p (decode ''AppendEntries'' (from_slice_append_entries c (m_payload msg)))) (\<lambda>args.
          let (n, reply, effects) = handle_append_entries (node p) args;
              p = send (p\<lparr>node := n\<rparr>) (envelope n (m_from msg) ''AppendReply'' (to_value_append_reply c reply))
          in Inr (execute_effects c gen effects p))
      else if m_type msg = ''RequestVote'' then
        res_bind (halting p (decode ''RequestVote'' (from_slice_request_vote c (m_payload msg)))) (\<lambda>args.
        res_bind (halting p (handle_request_vote (node p) args)) (\<lambda>(n, reply, effects).
          let p = send (p\<lparr>node := n\<rparr>) (envelope n (m_from msg) ''VoteReply'' (to_value_vote_reply c reply))
          in Inr (execute_effects c gen effects p)))
      else if m_type msg = ''AppendReply'' then
        res_bind (halting p (decode ''AppendReply'' (from_slice_append_reply c (m_payload msg)))) (\<lambda>reply.
        res_bind (halting p (handle_append_entries_reply (node p) (m_from msg) reply)) (\<lambda>(n, effects).
          Inr (execute_effects c gen effects (p\<lparr>node := n\<rparr>))))
      else if m_type msg = ''VoteReply'' then
        res_bind (halting p (decode ''VoteReply'' (from_slice_vote_reply c (m_payload msg)))) (\<lambda>reply.
        res_bind (halting p (handle_request_vote_reply (node p) (m_from msg) reply)) (\<lambda>(n, effects).
          Inr (execute_effects c gen effects (p\<lparr>node := n\<rparr>))))
      else if m_type msg = ''ClientRequest'' then
        res_bind (halting p (decode ''ClientRequest'' (from_slice_client_request c (m_payload msg)))) (\<lambda>args.
        res_bind (halting p (handle_client_request (node p) args)) (\<lambda>(n, reply, effects).
          let p = send (p\<lparr>node := n\<rparr>) (envelope n (m_from msg) ''ClientReply'' (to_value_client_reply c reply))
          in Inr (execute_effects c gen effects p)))
      else Inr p)"

text \<open>One step under the locks: a panic inside poisons them and leaves the process as it was at the panic.\<close>

definition under_lock ::
    "(('v, 'g) Process \<Rightarrow> (panic \<times> ('v, 'g) Process) + ('v, 'g) Process) \<Rightarrow> ('v, 'g) Process \<Rightarrow> ('v, 'g) Process" where
  "under_lock f p = (if poisoned p then p
     else case f p of Inl (_, q) \<Rightarrow> q\<lparr>poisoned := True\<rparr> | Inr q \<Rightarrow> q)"

definition deliver ::
    "'v codec \<Rightarrow> ('g \<Rightarrow> u64 \<times> 'g) \<Rightarrow> 'v Message \<Rightarrow> ('v, 'g) Process \<Rightarrow> ('v, 'g) Process" where
  "deliver c gen msg = under_lock (\<lambda>p. handle_message c gen p msg)"

text \<open>
  The loop of a connection over its lines. A line that cannot be read (an I/O error, or bytes
  that are not UTF-8) is skipped; a line that does not parse is reported and skipped; both
  before the locks are taken. A panic ends the thread.
\<close>

fun handle_connection ::
    "'v codec \<Rightarrow> ('g \<Rightarrow> u64 \<times> 'g) \<Rightarrow> (string \<Rightarrow> string + 'v Message) \<Rightarrow> string option list
      \<Rightarrow> ('v, 'g) Process \<Rightarrow> ('v, 'g) Process" where
  "handle_connection c gen from_str [] p = p"
| "handle_connection c gen from_str (None # lines) p = handle_connection c gen from_str lines p"
| "handle_connection c gen from_str (Some line # lines) p =
     (case from_str line of
        Inl e \<Rightarrow> handle_connection c gen from_str lines (p\<lparr>stderr := stderr p @ [''JSON Parse Error: '' @ e]\<rparr>)
      | Inr msg \<Rightarrow>
          let p' = deliver c gen msg p
          in if poisoned p' then p' else handle_connection c gen from_str lines p')"

subsection \<open>The tick loop\<close>

definition heartbeat_interval :: u64 where
  "heartbeat_interval = 6"

definition tick_body ::
    "'v codec \<Rightarrow> ('g \<Rightarrow> u64 \<times> 'g) \<Rightarrow> ('v, 'g) Process \<Rightarrow> ('v, 'g) Process res" where
  "tick_body c gen p =
     (if is_Leader (state (node p)) then
        res_bind (add_u64 (heartbeat_tick_count (engine p)) 1) (\<lambda>h.
          let p = p\<lparr>engine := (engine p)\<lparr>heartbeat_tick_count := h\<rparr>\<rparr>;
              p = (if heartbeat_interval \<le> h then
                     let (n, effects) = handle_heartbeat_timeout (node p)
                     in execute_effects c gen effects (p\<lparr>node := n\<rparr>)
                   else p)
          in Inr (p\<lparr>engine := (engine p)\<lparr>election_tick_count := 0\<rparr>\<rparr>))
      else
        res_bind (add_u64 (election_tick_count (engine p)) 1) (\<lambda>k.
          let p = p\<lparr>engine := (engine p)\<lparr>election_tick_count := k\<rparr>\<rparr>
          in if election_timeout_limit (engine p) \<le> k then
               res_bind (handle_election_timeout (node p)) (\<lambda>(n, effects).
                 Inr (execute_effects c gen effects (p\<lparr>node := n\<rparr>)))
             else Inr p))"

text \<open>
  A tick can only panic at an addition or at an empty log, before it has sent anything. It leaves the process as it was before the
  tick: the fields that were already set are behind the poisoned locks, where nothing reads them.
\<close>

definition tick :: "'v codec \<Rightarrow> ('g \<Rightarrow> u64 \<times> 'g) \<Rightarrow> ('v, 'g) Process \<Rightarrow> ('v, 'g) Process" where
  "tick c gen = under_lock (\<lambda>p. halting p (tick_body c gen p))"

subsection \<open>What executing effects does\<close>

text \<open>The messages of one effect, and of a list of effects.\<close>

fun effect_messages :: "'v codec \<Rightarrow> RaftNode \<Rightarrow> SideEffect \<Rightarrow> 'v Message list" where
  "effect_messages c n (SendAppendEntries target args) =
     [envelope n target ''AppendEntries'' (to_value_append_entries c args)]"
| "effect_messages c n (BroadcastAppendEntries args) =
     map (\<lambda>peer. envelope n peer ''AppendEntries'' (to_value_append_entries c args)) (peers n)"
| "effect_messages c n (BroadcastRequestVote args) =
     map (\<lambda>peer. envelope n peer ''RequestVote'' (to_value_request_vote c args)) (peers n)"
| "effect_messages c n _ = []"

definition messages_of :: "'v codec \<Rightarrow> RaftNode \<Rightarrow> SideEffect list \<Rightarrow> 'v Message list" where
  "messages_of c n fx = concat (map (effect_messages c n) fx)"

lemma messages_of_simps [simp]:
  "messages_of c n [] = []"
  "messages_of c n (e # fx) = effect_messages c n e @ messages_of c n fx"
  by (simp_all add: messages_of_def)

lemma messages_of_sends: "messages_of c n fx = messages_of c n (sends fx)"
proof (induction fx)
  case (Cons e fx)
  then show ?case by (cases e) simp_all
qed simp

lemma execute_effects_simps [simp]:
  "execute_effects c gen [] p = p"
  "execute_effects c gen (e # fx) p = execute_effects c gen fx (execute_effect c gen e p)"
  by (simp_all add: execute_effects_def)

lemma execute_effect_frame:
  "node (execute_effect c gen e p) = node p"
  "poisoned (execute_effect c gen e p) = poisoned p"
  "stderr (execute_effect c gen e p) = stderr p"
  "tx (execute_effect c gen e p) = tx p @ effect_messages c (node p) e"
  "applied (execute_effect c gen e p) = applied p @ applies [e]"
  by (cases e; simp add: Let_def split: prod.split)+

lemma execute_effects_frame [simp]:
  "node (execute_effects c gen fx p) = node p"
  "poisoned (execute_effects c gen fx p) = poisoned p"
  "stderr (execute_effects c gen fx p) = stderr p"
  by (induction fx arbitrary: p) (simp_all add: execute_effect_frame)

lemma applies_Cons: "applies (e # fx) = applies [e] @ applies fx"
  using applies_append [of "[e]" fx] by simp

lemma execute_effects_out:
  "tx (execute_effects c gen fx p) = tx p @ messages_of c (node p) (sends fx)"
  "applied (execute_effects c gen fx p) = applied p @ applies fx"
proof (induction fx arbitrary: p)
  case (Cons e fx)
  { case 1 show ?case
      using Cons messages_of_sends [of c "node p" "e # fx"] messages_of_sends [of c "node p" fx]
      by (simp add: execute_effect_frame) }
  { case 2 show ?case
      using Cons by (simp add: execute_effect_frame applies_Cons [of e fx]) }
qed simp_all

lemma send_frame [simp]:
  "node (send p m) = node p" "engine (send p m) = engine p" "rng (send p m) = rng p"
  "tx (send p m) = tx p @ [m]" "applied (send p m) = applied p" "poisoned (send p m) = poisoned p"
  by (simp_all add: send_def)

lemma decode_simps [simp, res_simps]:
  "decode w (Some x) = Inr x" "decode w None = Inl (Payload_Mismatch w)"
  "decode w r = Inr x \<longleftrightarrow> r = Some x"
  by (auto simp: decode_def split: option.split)

text \<open>Every panic while a message is handled comes before the process has changed.\<close>

lemma handle_message_panic: "handle_message c gen p m = Inl (e, q) \<Longrightarrow> q = p"
  by (cases "m_type m = ''AppendEntries''")
    (auto simp: handle_message_def Let_def res_simps case_prod_beta split: if_splits)

lemma deliver_cases:
  obtains (dead) "poisoned p" "deliver c gen m p = p"
  | (panic) e where "\<not> poisoned p" "handle_message c gen p m = Inl (e, p)" "deliver c gen m p = p\<lparr>poisoned := True\<rparr>"
  | (run) p' where "\<not> poisoned p" "handle_message c gen p m = Inr p'" "deliver c gen m p = p'"
proof (cases "poisoned p")
  case True
  then show thesis by (intro dead) (simp_all add: deliver_def under_lock_def)
next
  case False
  show thesis
  proof (cases "handle_message c gen p m")
    case (Inl x)
    then obtain e where "handle_message c gen p m = Inl (e, p)" using handle_message_panic by (cases x) blast
    then show thesis using False by (intro panic) (simp_all add: deliver_def under_lock_def)
  next
    case (Inr p')
    then show thesis using False by (intro run) (simp_all add: deliver_def under_lock_def)
  qed
qed

lemma tick_cases:
  obtains (dead) "poisoned p" "tick c gen p = p"
  | (panic) e where "\<not> poisoned p" "tick_body c gen p = Inl e" "tick c gen p = p\<lparr>poisoned := True\<rparr>"
  | (run) p' where "\<not> poisoned p" "tick_body c gen p = Inr p'" "tick c gen p = p'"
  by (cases "poisoned p"; cases "tick_body c gen p") (auto simp: tick_def under_lock_def)

end
