(* ===== verification/Cluster.thy ===== *)
theory Cluster
  imports Engine
begin

section \<open>A cluster of processes behind a relay\<close>

text \<open>
  The relay (\<^verbatim>\<open>pkg/relay\<close>, written in Go) may drop, delay, duplicate and reorder messages,
  and routes by the field \<open>to\<close>. So any message that some process ever put on its channel
  may be delivered to its addressee at any time, any number of times or never. Clients may
  send anything that is not one of the four messages the nodes send each other. The tick
  loops of the processes run at arbitrary relative speeds.
\<close>

definition cluster_config :: "node_id set \<Rightarrow> (node_id \<Rightarrow> node_id list) \<Rightarrow> bool" where
  "cluster_config N peers_of \<longleftrightarrow> finite N \<and> (\<forall>i \<in> N. distinct (peers_of i) \<and> set (peers_of i) = N - {i})"

definition c_initial ::
    "node_id set \<Rightarrow> (node_id \<Rightarrow> node_id list) \<Rightarrow> ('g \<Rightarrow> u64 \<times> 'g) \<Rightarrow> (node_id \<Rightarrow> ('v, 'g) Process) \<Rightarrow> bool" where
  "c_initial N peers_of gen s \<longleftrightarrow> (\<forall>i \<in> N. \<exists>g. s i = start_process gen g i (peers_of i))"

definition node_message_types :: "string set" where
  "node_message_types = {''AppendEntries'', ''RequestVote'', ''AppendReply'', ''VoteReply''}"

inductive cstep ::
    "node_id set \<Rightarrow> 'v codec \<Rightarrow> ('g \<Rightarrow> u64 \<times> 'g)
      \<Rightarrow> (node_id \<Rightarrow> ('v, 'g) Process) \<Rightarrow> (node_id \<Rightarrow> ('v, 'g) Process) \<Rightarrow> bool" for N c gen where
  c_tick: "i \<in> N \<Longrightarrow> cstep N c gen s (s(i := tick c gen (s i)))"
| c_deliver: "i \<in> N \<Longrightarrow> j \<in> N \<Longrightarrow> m \<in> set (tx (s j)) \<Longrightarrow> m_to m = i \<Longrightarrow>
    cstep N c gen s (s(i := deliver c gen m (s i)))"
| c_client: "i \<in> N \<Longrightarrow> m_type m \<notin> node_message_types \<Longrightarrow>
    cstep N c gen s (s(i := deliver c gen m (s i)))"

inductive c_reachable ::
    "node_id set \<Rightarrow> (node_id \<Rightarrow> node_id list) \<Rightarrow> 'v codec \<Rightarrow> ('g \<Rightarrow> u64 \<times> 'g)
      \<Rightarrow> (node_id \<Rightarrow> ('v, 'g) Process) \<Rightarrow> bool" for N peers_of c gen where
  c_start: "c_initial N peers_of gen s \<Longrightarrow> c_reachable N peers_of c gen s"
| c_next: "c_reachable N peers_of c gen s \<Longrightarrow> cstep N c gen s s' \<Longrightarrow> c_reachable N peers_of c gen s'"

inductive_cases cstepE: "cstep N c gen s s'"

text \<open>Properties that every step keeps hold in every reachable state.\<close>

lemma c_reachable_invariant:
  assumes "c_reachable N peers_of c gen s"
    and "\<And>s. c_initial N peers_of gen s \<Longrightarrow> P s"
    and "\<And>s s'. c_reachable N peers_of c gen s \<Longrightarrow> P s \<Longrightarrow> cstep N c gen s s' \<Longrightarrow> P s'"
  shows "P s"
  using assms(1) by (induction rule: c_reachable.induct) (auto intro: assms(2,3))

end
