(* ===== verification/Abstract_Raft.thy ===== *)
theory Abstract_Raft
  imports Replication
begin

section \<open>The protocol as an abstract machine\<close>

text \<open>
  The specification of a cluster: for every node its term, vote, role, log and commit
  position, and the history of what was ever said: vote requests, votes, append messages,
  acknowledgements, and for every term its leader with the longest log that leader had.
  Each transition is one decision of one node, with the guard that makes it safe and no
  timers, encodings or retries. The cluster of processes is shown to refine this machine;
  what holds here of every reachable state is carried over.
\<close>

datatype role = RFollower | RCandidate | RLeader

record astate =
  a_term :: "node_id \<Rightarrow> u64"
  a_vote :: "node_id \<Rightarrow> node_id option"
  a_role :: "node_id \<Rightarrow> role"
  a_log :: "node_id \<Rightarrow> LogEntry list"
  a_commit :: "node_id \<Rightarrow> nat"
  h_req :: "(node_id \<times> u64 \<times> nat \<times> u64) set"
  h_vote :: "(node_id \<times> u64 \<times> node_id) set"
  h_app :: "(node_id \<times> u64 \<times> nat \<times> u64 \<times> LogEntry list \<times> nat) set"
  h_ack :: "(node_id \<times> u64 \<times> nat) set"
  h_ldr :: "u64 \<Rightarrow> (node_id \<times> LogEntry list) option"

definition a_init :: astate where
  "a_init = \<lparr>a_term = (\<lambda>_. 0), a_vote = (\<lambda>_. None), a_role = (\<lambda>_. RFollower),
     a_log = (\<lambda>_. [sentinel]), a_commit = (\<lambda>_. 0), h_req = {}, h_vote = {}, h_app = {},
     h_ack = {}, h_ldr = (\<lambda>_. None)\<rparr>"

inductive astep :: "node_id set \<Rightarrow> node_id \<Rightarrow> astate \<Rightarrow> astate \<Rightarrow> bool" for N i where
  a_timeout: "i \<in> N \<Longrightarrow> a_term a i < t \<Longrightarrow>
    astep N i a (a\<lparr>a_term := (a_term a)(i := t), a_vote := (a_vote a)(i := Some i),
      a_role := (a_role a)(i := RCandidate),
      h_req := insert (i, t, length (a_log a i) - 1, le_term (last (a_log a i))) (h_req a),
      h_vote := insert (i, t, i) (h_vote a)\<rparr>)"
| a_newer_term: "i \<in> N \<Longrightarrow> a_term a i < t \<Longrightarrow>
    astep N i a (a\<lparr>a_term := (a_term a)(i := t), a_vote := (a_vote a)(i := None),
      a_role := (a_role a)(i := RFollower)\<rparr>)"
| a_grant: "i \<in> N \<Longrightarrow> (c, a_term a i, li, lt) \<in> h_req a \<Longrightarrow> a_vote a i \<in> {None, Some c} \<Longrightarrow>
    le_term (last (a_log a i)) < lt \<or> le_term (last (a_log a i)) = lt \<and> length (a_log a i) - 1 \<le> li \<Longrightarrow>
    astep N i a (a\<lparr>a_vote := (a_vote a)(i := Some c), h_vote := insert (i, a_term a i, c) (h_vote a)\<rparr>)"
| a_win: "i \<in> N \<Longrightarrow> a_role a i = RCandidate \<Longrightarrow> majority N Q \<Longrightarrow>
    \<forall>v \<in> Q. (v, a_term a i, i) \<in> h_vote a \<Longrightarrow>
    astep N i a (a\<lparr>a_role := (a_role a)(i := RLeader),
      h_ldr := (h_ldr a)(a_term a i \<mapsto> (i, a_log a i))\<rparr>)"
| a_propose: "i \<in> N \<Longrightarrow> a_role a i = RLeader \<Longrightarrow> le_term e = a_term a i \<Longrightarrow>
    unat (le_index e) = length (a_log a i) \<Longrightarrow>
    astep N i a (a\<lparr>a_log := (a_log a)(i := a_log a i @ [e]),
      h_ldr := (h_ldr a)(a_term a i \<mapsto> (i, a_log a i @ [e]))\<rparr>)"
| a_send: "i \<in> N \<Longrightarrow> a_role a i = RLeader \<Longrightarrow> p < length (a_log a i) \<Longrightarrow>
    astep N i a (a\<lparr>h_app := insert (i, a_term a i, p, le_term (a_log a i ! p),
      drop (Suc p) (a_log a i), a_commit a i) (h_app a)\<rparr>)"
| a_demote: "i \<in> N \<Longrightarrow> (l, a_term a i, p, pt, es, cm) \<in> h_app a \<Longrightarrow> l \<noteq> i \<Longrightarrow>
    astep N i a (a\<lparr>a_role := (a_role a)(i := RFollower)\<rparr>)"
| a_accept: "i \<in> N \<Longrightarrow> (l, a_term a i, p, pt, es, cm) \<in> h_app a \<Longrightarrow> l \<noteq> i \<Longrightarrow>
    p < length (a_log a i) \<Longrightarrow> le_term (a_log a i ! p) = pt \<Longrightarrow>
    astep N i a (a\<lparr>a_role := (a_role a)(i := RFollower),
      a_log := (a_log a)(i := merge_at (a_log a i) (Suc p) es),
      a_commit := (a_commit a)(i := (if a_commit a i < cm then min cm (p + length es) else a_commit a i)),
      h_ack := insert (i, a_term a i, p + length es) (h_ack a)\<rparr>)"
| a_commit: "i \<in> N \<Longrightarrow> a_role a i = RLeader \<Longrightarrow> k < length (a_log a i) \<Longrightarrow>
    le_term (a_log a i ! k) = a_term a i \<Longrightarrow> majority N Q \<Longrightarrow>
    \<forall>v \<in> Q. v = i \<or> (\<exists>m \<ge> k. (v, a_term a i, m) \<in> h_ack a) \<Longrightarrow>
    astep N i a (a\<lparr>a_commit := (a_commit a)(i := k)\<rparr>)"

text \<open>The reachable states of the specification.\<close>

inductive a_reachable :: "node_id set \<Rightarrow> astate \<Rightarrow> bool" for N where
  a_start: "a_reachable N a_init"
| a_next: "a_reachable N a \<Longrightarrow> astep N i a a' \<Longrightarrow> a_reachable N a'"

subsection \<open>What the invariants say\<close>

definition log_ok :: "LogEntry list \<Rightarrow> bool" where
  "log_ok l \<longleftrightarrow> l \<noteq> [] \<and> l ! 0 = sentinel \<and> indexed_from 0 l \<and> sorted (map le_term l)"

text \<open>Every entry of \<open>l\<close> came from the leader of its term, with everything before it.\<close>

definition backed :: "astate \<Rightarrow> LogEntry list \<Rightarrow> bool" where
  "backed a l \<longleftrightarrow> (\<forall>k. 0 < k \<longrightarrow> k < length l \<longrightarrow>
     (\<exists>c L. h_ldr a (le_term (l ! k)) = Some (c, L) \<and> k < length L \<and> take (Suc k) l = take (Suc k) L))"

definition inv_vote :: "node_id set \<Rightarrow> astate \<Rightarrow> bool" where
  "inv_vote N a \<longleftrightarrow>
     (\<forall>v t c. (v, t, c) \<in> h_vote a \<longrightarrow> v \<in> N \<and> t \<le> a_term a v
        \<and> (t = a_term a v \<longrightarrow> a_vote a v = Some c) \<and> (\<exists>li lt. (c, t, li, lt) \<in> h_req a)) \<and>
     (\<forall>v t c c'. (v, t, c) \<in> h_vote a \<longrightarrow> (v, t, c') \<in> h_vote a \<longrightarrow> c = c') \<and>
     (\<forall>i. a_role a i \<noteq> RFollower \<longrightarrow> a_vote a i = Some i)"

definition inv_req :: "node_id set \<Rightarrow> astate \<Rightarrow> bool" where
  "inv_req N a \<longleftrightarrow>
     (\<forall>c t li lt. (c, t, li, lt) \<in> h_req a \<longrightarrow> c \<in> N \<and> 0 < t \<and> t \<le> a_term a c \<and> lt < t
        \<and> (t = a_term a c \<longrightarrow> a_role a c = RCandidate
            \<longrightarrow> li = length (a_log a c) - 1 \<and> lt = le_term (last (a_log a c)))) \<and>
     (\<forall>c t li lt li' lt'. (c, t, li, lt) \<in> h_req a \<longrightarrow> (c, t, li', lt') \<in> h_req a \<longrightarrow> li = li' \<and> lt = lt') \<and>
     (\<forall>c. a_role a c = RCandidate \<longrightarrow> (\<exists>li lt. (c, a_term a c, li, lt) \<in> h_req a))"

definition inv_ldr :: "node_id set \<Rightarrow> astate \<Rightarrow> bool" where
  "inv_ldr N a \<longleftrightarrow>
     (\<forall>t c L. h_ldr a t = Some (c, L) \<longrightarrow> c \<in> N \<and> 0 < t \<and> t \<le> a_term a c
        \<and> (\<exists>Q. majority N Q \<and> (\<forall>v \<in> Q. (v, t, c) \<in> h_vote a))
        \<and> (t = a_term a c \<longrightarrow> a_role a c = RLeader \<and> a_log a c = L)) \<and>
     (\<forall>i. a_role a i = RLeader \<longrightarrow> h_ldr a (a_term a i) = Some (i, a_log a i))"

definition inv_log :: "astate \<Rightarrow> bool" where
  "inv_log a \<longleftrightarrow>
     (\<forall>i. log_ok (a_log a i) \<and> backed a (a_log a i) \<and> le_term (last (a_log a i)) \<le> a_term a i) \<and>
     (\<forall>t c L. h_ldr a t = Some (c, L) \<longrightarrow> log_ok L \<and> backed a L \<and> le_term (last L) \<le> t)"

text \<open>
  \<open>v\<close> has acknowledged position \<open>k\<close> of term \<open>t\<close>, by a reply or by being the leader whose
  log has it. A position can still be chosen when some quorum of nodes each has
  acknowledged it or has not yet moved past the term. It is committed when a quorum has
  acknowledged it and its entry is of that term.
\<close>

definition acked :: "astate \<Rightarrow> node_id \<Rightarrow> u64 \<Rightarrow> nat \<Rightarrow> bool" where
  "acked a v t k \<longleftrightarrow> (\<exists>m \<ge> k. (v, t, m) \<in> h_ack a) \<or> (\<exists>L. h_ldr a t = Some (v, L) \<and> k < length L)"

definition choosable :: "node_id set \<Rightarrow> astate \<Rightarrow> u64 \<Rightarrow> nat \<Rightarrow> bool" where
  "choosable N a t k \<longleftrightarrow> (\<exists>Q. majority N Q \<and> (\<forall>v \<in> Q. acked a v t k \<or> a_term a v \<le> t))"

definition own_entry :: "astate \<Rightarrow> u64 \<Rightarrow> nat \<Rightarrow> LogEntry list \<Rightarrow> bool" where
  "own_entry a t k L \<longleftrightarrow> (\<exists>c. h_ldr a t = Some (c, L)) \<and> k < length L \<and> le_term (L ! k) = t"

definition committed :: "node_id set \<Rightarrow> astate \<Rightarrow> u64 \<Rightarrow> nat \<Rightarrow> LogEntry list \<Rightarrow> bool" where
  "committed N a t k L \<longleftrightarrow> own_entry a t k L \<and> (\<exists>Q. majority N Q \<and> (\<forall>v \<in> Q. acked a v t k))"

definition commit_ok :: "node_id set \<Rightarrow> astate \<Rightarrow> u64 \<Rightarrow> LogEntry list \<Rightarrow> nat \<Rightarrow> bool" where
  "commit_ok N a T l n \<longleftrightarrow> n < length l \<and> (n = 0 \<or>
     (\<exists>t k L. t \<le> T \<and> committed N a t k L \<and> n \<le> k \<and> take (Suc n) l = take (Suc n) L))"

definition inv_app :: "node_id set \<Rightarrow> astate \<Rightarrow> bool" where
  "inv_app N a \<longleftrightarrow> (\<forall>l t p pt es cm. (l, t, p, pt, es, cm) \<in> h_app a \<longrightarrow>
     (\<exists>L. h_ldr a t = Some (l, L) \<and> p < length L \<and> pt = le_term (L ! p)
        \<and> es = take (length es) (drop (Suc p) L) \<and> cm \<le> p + length es \<and> commit_ok N a t L cm))"

definition inv_ack :: "astate \<Rightarrow> bool" where
  "inv_ack a \<longleftrightarrow> (\<forall>v t m. (v, t, m) \<in> h_ack a \<longrightarrow> t \<le> a_term a v
     \<and> (\<exists>c L. h_ldr a t = Some (c, L) \<and> m < length L
        \<and> (t = a_term a v \<longrightarrow> m < length (a_log a v) \<and> take (Suc m) (a_log a v) = take (Suc m) L)))"

definition inv_node :: "node_id set \<Rightarrow> astate \<Rightarrow> bool" where
  "inv_node N a \<longleftrightarrow> (\<forall>t k L v. own_entry a t k L \<longrightarrow> choosable N a t k \<longrightarrow> acked a v t k \<longrightarrow>
     k < length (a_log a v) \<and> take (Suc k) (a_log a v) = take (Suc k) L)"

definition inv_cand :: "node_id set \<Rightarrow> astate \<Rightarrow> bool" where
  "inv_cand N a \<longleftrightarrow> (\<forall>t k L v T cd li lt. own_entry a t k L \<longrightarrow> choosable N a t k \<longrightarrow> acked a v t k \<longrightarrow>
     t < T \<longrightarrow> (v, T, cd) \<in> h_vote a \<longrightarrow> (cd, T, li, lt) \<in> h_req a \<longrightarrow> t < lt \<or> t = lt \<and> k \<le> li)"

definition inv_safe :: "node_id set \<Rightarrow> astate \<Rightarrow> bool" where
  "inv_safe N a \<longleftrightarrow> (\<forall>t k L T c' L'. own_entry a t k L \<longrightarrow> choosable N a t k \<longrightarrow>
     t < T \<longrightarrow> h_ldr a T = Some (c', L') \<longrightarrow> k < length L' \<and> take (Suc k) L' = take (Suc k) L)"

definition inv_commit :: "node_id set \<Rightarrow> astate \<Rightarrow> bool" where
  "inv_commit N a \<longleftrightarrow> (\<forall>i. commit_ok N a (a_term a i) (a_log a i) (a_commit a i))"

definition a_inv :: "node_id set \<Rightarrow> astate \<Rightarrow> bool" where
  "a_inv N a \<longleftrightarrow> inv_vote N a \<and> inv_req N a \<and> inv_ldr N a \<and> inv_log a \<and> inv_app N a \<and> inv_ack a
     \<and> inv_node N a \<and> inv_cand N a \<and> inv_safe N a \<and> inv_commit N a"

end
