(* ===== verification/Abstract_Safety.thy ===== *)
theory Abstract_Safety
  imports Abstract_Raft
begin

section \<open>Safety of the abstract machine\<close>

text \<open>
  Every invariant is kept by every transition. The order follows their dependence: votes
  and requests, leaders (one per term), logs (the log matching property), messages, and
  then the three that carry the agreement argument: acknowledged positions that can still
  be chosen stay in the logs that acknowledged them (\<open>inv_node\<close>), whoever gets a vote is
  at least as up to date (\<open>inv_cand\<close>), and later leaders have them (\<open>inv_safe\<close>).
\<close>

subsection \<open>What a transition cannot change\<close>

lemma astep_frame:
  assumes "astep N i a a'"
  shows "j \<noteq> i \<Longrightarrow> a_term a' j = a_term a j" "j \<noteq> i \<Longrightarrow> a_vote a' j = a_vote a j"
    "j \<noteq> i \<Longrightarrow> a_role a' j = a_role a j" "j \<noteq> i \<Longrightarrow> a_log a' j = a_log a j"
    "j \<noteq> i \<Longrightarrow> a_commit a' j = a_commit a j"
  using assms by (cases; simp)+

lemma astep_member: "astep N i a a' \<Longrightarrow> i \<in> N"
  by (cases rule: astep.cases) auto

lemma astep_mono:
  assumes "astep N i a a'"
  shows "a_term a j \<le> a_term a' j" "h_req a \<subseteq> h_req a'" "h_vote a \<subseteq> h_vote a'"
    "h_app a \<subseteq> h_app a'" "h_ack a \<subseteq> h_ack a'"
  using assms by (cases; auto)+

subsection \<open>Votes\<close>

lemma inv_voteD:
  assumes "inv_vote N a" "(v, t, c) \<in> h_vote a"
  shows "v \<in> N" "t \<le> a_term a v" "t = a_term a v \<Longrightarrow> a_vote a v = Some c"
    "\<exists>li lt. (c, t, li, lt) \<in> h_req a"
  using assms by (auto simp: inv_vote_def)

lemma inv_vote_unique: "inv_vote N a \<Longrightarrow> (v, t, c) \<in> h_vote a \<Longrightarrow> (v, t, c') \<in> h_vote a \<Longrightarrow> c = c'"
  by (auto simp: inv_vote_def)

lemma inv_vote_role: "inv_vote N a \<Longrightarrow> a_role a i \<noteq> RFollower \<Longrightarrow> a_vote a i = Some i"
  by (auto simp: inv_vote_def)

lemma inv_vote_step:
  assumes "astep N i a a'" "inv_vote N a"
  shows "inv_vote N a'"
  using assms(1)
proof cases
  case (a_timeout t)
  have new: "(i, t, c) \<notin> h_vote a" for c
    using inv_voteD(2) [OF assms(2)] a_timeout(3) by fastforce
  show ?thesis
    unfolding inv_vote_def
  proof (intro conjI allI impI)
    fix v t' c assume "(v, t', c) \<in> h_vote a'"
    then consider "v = i" "t' = t" "c = i" | "(v, t', c) \<in> h_vote a" using a_timeout(1) by auto
    then show "v \<in> N" "t' \<le> a_term a' v" "t' = a_term a' v \<Longrightarrow> a_vote a' v = Some c"
      "\<exists>li lt. (c, t', li, lt) \<in> h_req a'"
      using inv_voteD [OF assms(2)] a_timeout new by (cases; fastforce)+
  next
    fix v t' c c' assume "(v, t', c) \<in> h_vote a'" "(v, t', c') \<in> h_vote a'"
    then show "c = c'" using a_timeout(1) new inv_vote_unique [OF assms(2)] by auto
  next
    fix j assume "a_role a' j \<noteq> RFollower"
    then show "a_vote a' j = Some j" using a_timeout(1) inv_vote_role [OF assms(2)] by (cases "j = i") auto
  qed
next
  case (a_newer_term t)
  have old: "(i, t', c) \<in> h_vote a \<Longrightarrow> t' \<le> t \<and> t' \<noteq> t" for t' c
    using inv_voteD(2) [OF assms(2), of i t' c] a_newer_term(3) by auto
  show ?thesis
    using assms(2) a_newer_term(1) old by (auto simp: inv_vote_def)
next
  case (a_grant c li lt)
  have c: "(i, a_term a i, c') \<in> h_vote a \<Longrightarrow> c' = c" for c'
    using inv_voteD(3) [OF assms(2), of i "a_term a i" c'] a_grant(4) by auto
  have role: "a_role a i \<noteq> RFollower \<Longrightarrow> c = i"
    using inv_vote_role [OF assms(2), of i] a_grant(4) by auto
  show ?thesis
    using assms(2) a_grant c role by (auto simp: inv_vote_def)
next
  case (a_win Q)
  then show ?thesis using assms(2) by (auto simp: inv_vote_def)
qed (use assms(2) in \<open>auto simp: inv_vote_def\<close>)

subsection \<open>Vote requests\<close>

lemma inv_reqD:
  assumes "inv_req N a" "(c, t, li, lt) \<in> h_req a"
  shows "c \<in> N" "0 < t" "t \<le> a_term a c" "lt < t"
    "t = a_term a c \<Longrightarrow> a_role a c = RCandidate \<Longrightarrow> li = length (a_log a c) - 1 \<and> lt = le_term (last (a_log a c))"
  using assms unfolding inv_req_def by blast+

lemma inv_req_unique:
  "inv_req N a \<Longrightarrow> (c, t, li, lt) \<in> h_req a \<Longrightarrow> (c, t, li', lt') \<in> h_req a \<Longrightarrow> li = li' \<and> lt = lt'"
  unfolding inv_req_def by blast

lemma inv_logD:
  assumes "inv_log a"
  shows "log_ok (a_log a i)" "backed a (a_log a i)" "le_term (last (a_log a i)) \<le> a_term a i"
  using assms by (auto simp: inv_log_def)

lemma inv_log_ldrD:
  assumes "inv_log a" "h_ldr a t = Some (c, L)"
  shows "log_ok L" "backed a L" "le_term (last L) \<le> t"
  using assms unfolding inv_log_def by blast+

lemma inv_req_step:
  assumes "astep N i a a'" "inv_req N a" "inv_log a"
  shows "inv_req N a'"
  using assms(1)
proof cases
  case (a_timeout t)
  have old: "(i, t', li, lt) \<in> h_req a \<Longrightarrow> t' \<le> t \<and> t' \<noteq> t" for t' li lt
    using inv_reqD(3) [OF assms(2), of i t' li lt] a_timeout(3) by auto
  have "0 < t" "le_term (last (a_log a i)) < t"
    using a_timeout(3) inv_logD(3) [OF assms(3), of i] by (auto intro: le_less_trans)
  then show ?thesis
    using assms(2) a_timeout(1,2) old by (auto simp: inv_req_def)
next
  case (a_newer_term t)
  have old: "(i, t', li, lt) \<in> h_req a \<Longrightarrow> t' \<le> t \<and> t' \<noteq> t" for t' li lt
    using inv_reqD(3) [OF assms(2), of i t' li lt] a_newer_term(3) by auto
  then show ?thesis using assms(2) a_newer_term(1) by (auto simp: inv_req_def)
next
  case (a_propose e)
  then show ?thesis using assms(2) by (auto simp: inv_req_def)
next
  case (a_accept l p pt es cm)
  then show ?thesis using assms(2) by (auto simp: inv_req_def)
qed (use assms(2) in \<open>auto simp: inv_req_def\<close>)

subsection \<open>One leader per term\<close>

lemma inv_ldrD:
  assumes "inv_ldr N a" "h_ldr a t = Some (c, L)"
  shows "c \<in> N" "0 < t" "t \<le> a_term a c" "\<exists>Q. majority N Q \<and> (\<forall>v \<in> Q. (v, t, c) \<in> h_vote a)"
    "t = a_term a c \<Longrightarrow> a_role a c = RLeader \<and> a_log a c = L"
  using assms unfolding inv_ldr_def by blast+

lemma inv_ldrI:
  assumes "\<And>t c L. h_ldr a t = Some (c, L) \<Longrightarrow> c \<in> N \<and> 0 < t \<and> t \<le> a_term a c
      \<and> (\<exists>Q. majority N Q \<and> (\<forall>v \<in> Q. (v, t, c) \<in> h_vote a))
      \<and> (t = a_term a c \<longrightarrow> a_role a c = RLeader \<and> a_log a c = L)"
    and "\<And>i. a_role a i = RLeader \<Longrightarrow> h_ldr a (a_term a i) = Some (i, a_log a i)"
  shows "inv_ldr N a"
  using assms unfolding inv_ldr_def by blast

lemma inv_ldr_role:
  "inv_ldr N a \<Longrightarrow> a_role a i = RLeader \<Longrightarrow> h_ldr a (a_term a i) = Some (i, a_log a i)"
  by (simp add: inv_ldr_def)

text \<open>Two quorums of votes in one term elect the same node.\<close>

lemma elected_unique:
  assumes "inv_vote N a" "majority N Q" "\<forall>v \<in> Q. (v, t, c) \<in> h_vote a"
    and "majority N Q'" "\<forall>v \<in> Q'. (v, t, c') \<in> h_vote a"
  shows "c = c'"
  using maj.unique_choice [of N Q Q' "\<lambda>v c. (v, t, c) \<in> h_vote a" c c'] assms
    inv_vote_unique [OF assms(1)] by blast

lemma leader_not_demoted:
  assumes "inv_ldr N a" "inv_app N a" "(l, a_term a i, p, pt, es, cm) \<in> h_app a" "l \<noteq> i"
  shows "a_role a i \<noteq> RLeader"
proof
  assume "a_role a i = RLeader"
  then have "h_ldr a (a_term a i) = Some (i, a_log a i)" by (rule inv_ldr_role [OF assms(1)])
  moreover obtain L where "h_ldr a (a_term a i) = Some (l, L)"
    using assms(2,3) unfolding inv_app_def by blast
  ultimately show False using assms(4) by simp
qed

lemma win_is_first:
  assumes "inv_vote N a" "inv_ldr N a" "a_role a i = RCandidate"
    and "majority N Q" "\<forall>v \<in> Q. (v, a_term a i, i) \<in> h_vote a"
  shows "h_ldr a (a_term a i) = None"
proof (rule ccontr)
  assume "h_ldr a (a_term a i) \<noteq> None"
  then obtain c L where c: "h_ldr a (a_term a i) = Some (c, L)" by auto
  obtain Q' where "majority N Q'" "\<forall>v \<in> Q'. (v, a_term a i, c) \<in> h_vote a"
    using inv_ldrD(4) [OF assms(2) c] by blast
  then have "i = c" by (rule elected_unique [OF assms(1,4,5)])
  then show False using inv_ldrD(5) [OF assms(2) c] assms(3) by simp
qed

lemma inv_ldr_extend:
  assumes inv: "inv_ldr N a" and role: "a_role a i = RLeader"
  shows "inv_ldr N (a\<lparr>a_log := (a_log a)(i := l), h_ldr := (h_ldr a)(a_term a i \<mapsto> (i, l))\<rparr>)" (is "inv_ldr N ?a")
proof (rule inv_ldrI)
  note ldr = inv_ldr_role [OF inv role]
  fix t c L assume h: "h_ldr ?a t = Some (c, L)"
  show "c \<in> N \<and> 0 < t \<and> t \<le> a_term ?a c \<and> (\<exists>Q. majority N Q \<and> (\<forall>v \<in> Q. (v, t, c) \<in> h_vote ?a))
      \<and> (t = a_term ?a c \<longrightarrow> a_role ?a c = RLeader \<and> a_log ?a c = L)"
  proof (cases "t = a_term a i")
    case True
    then have "c = i" "L = l" using h by auto
    then show ?thesis using inv_ldrD [OF inv ldr] role True by simp
  next
    case False
    then have old: "h_ldr a t = Some (c, L)" using h by simp
    have "t = a_term a c \<Longrightarrow> a_log ?a c = a_log a c" using False by auto
    then show ?thesis using inv_ldrD [OF inv old] by simp
  qed
next
  fix j assume "a_role ?a j = RLeader"
  then have "h_ldr a (a_term a j) = Some (j, a_log a j)" using inv_ldr_role [OF inv] by simp
  then show "h_ldr ?a (a_term ?a j) = Some (j, a_log ?a j)" using inv_ldr_role [OF inv role] by auto
qed

lemma inv_ldr_step:
  assumes step: "astep N i a a'" and "inv_ldr N a" "inv_vote N a" "inv_req N a" "inv_app N a"
  shows "inv_ldr N a'"
  using step
proof cases
  case (a_timeout t)
  have old: "h_ldr a t' = Some (i, L) \<Longrightarrow> t' \<le> t \<and> t' \<noteq> t" for t' L
    using inv_ldrD(3) [OF assms(2), of t' i L] a_timeout(3) by auto
  show ?thesis using assms(2) a_timeout(1) old by (fastforce simp: inv_ldr_def)
next
  case (a_newer_term t)
  have old: "h_ldr a t' = Some (i, L) \<Longrightarrow> t' \<le> t \<and> t' \<noteq> t" for t' L
    using inv_ldrD(3) [OF assms(2), of t' i L] a_newer_term(3) by auto
  show ?thesis using assms(2) a_newer_term(1) old by (fastforce simp: inv_ldr_def)
next
  case (a_grant c li lt)
  then show ?thesis using assms(2) by (fastforce simp: inv_ldr_def)
next
  case (a_win Q)
  note first = win_is_first [OF assms(3,2) a_win(3-5)]
  have "(i, a_term a i, i) \<in> h_vote a \<Longrightarrow> 0 < a_term a i"
    using inv_voteD(4) [OF assms(3)] inv_reqD(2) [OF assms(4)] by blast
  moreover obtain v where "v \<in> Q" using maj.quorum_nonempty [OF a_win(4)] by blast
  ultimately have "0 < a_term a i"
    using a_win(5) inv_voteD(4) [OF assms(3)] inv_reqD(2) [OF assms(4)] by blast
  then show ?thesis using assms(2) a_win first by (auto simp: inv_ldr_def)
next
  case (a_propose e)
  then show ?thesis using inv_ldr_extend [OF assms(2)] by simp
next
  case (a_send p)
  then show ?thesis using assms(2) by (fastforce simp: inv_ldr_def)
next
  case (a_demote l p pt es cm)
  note role = leader_not_demoted [OF assms(2,5) a_demote(3,4)]
  then show ?thesis using assms(2) a_demote(1) by (fastforce simp: inv_ldr_def)
next
  case (a_accept l p pt es cm)
  note role = leader_not_demoted [OF assms(2,5) a_accept(3,4)]
  then show ?thesis using assms(2) a_accept(1) by (fastforce simp: inv_ldr_def)
next
  case (a_commit k Q)
  then show ?thesis using assms(2) by (fastforce simp: inv_ldr_def)
qed

subsection \<open>Logs\<close>

text \<open>The history of leaders only grows: a term keeps its leader, and its log is extended.\<close>

lemma ldr_grows:
  assumes "astep N i a a'" "inv_ldr N a" "inv_vote N a" "h_ldr a t = Some (c, L)"
  shows "\<exists>X. h_ldr a' t = Some (c, L @ X)"
  using assms(1)
proof cases
  case (a_win Q)
  then show ?thesis
    using win_is_first [OF assms(3,2) a_win(3-5)] assms(4) by (cases "t = a_term a i") auto
next
  case (a_propose e)
  then show ?thesis
    using inv_ldr_role [OF assms(2) a_propose(3)] assms(4) by (cases "t = a_term a i") auto
qed (use assms(4) in auto)

lemma take_append_prefix: "n \<le> length L \<Longrightarrow> take n (L @ X) = take n L"
  by simp

lemma backedE:
  assumes "backed a l" "0 < k" "k < length l"
  obtains c L where "h_ldr a (le_term (l ! k)) = Some (c, L)" "k < length L" "take (Suc k) l = take (Suc k) L"
  using assms unfolding backed_def by blast

lemma backed_mono:
  assumes "\<And>t c L. h_ldr a t = Some (c, L) \<Longrightarrow> \<exists>X. h_ldr a' t = Some (c, L @ X)" "backed a l"
  shows "backed a' l"
  unfolding backed_def
proof (intro allI impI)
  fix k assume "0 < k" "k < length l"
  with assms(2) obtain c L where L: "h_ldr a (le_term (l ! k)) = Some (c, L)" "k < length L"
    "take (Suc k) l = take (Suc k) L" by (rule backedE)
  obtain X where "h_ldr a' (le_term (l ! k)) = Some (c, L @ X)" using assms(1) [OF L(1)] by blast
  then show "\<exists>c L. h_ldr a' (le_term (l ! k)) = Some (c, L) \<and> k < length L \<and> take (Suc k) l = take (Suc k) L"
    using L(2,3) by auto
qed

lemma backed_take: "backed a l \<Longrightarrow> backed a (take n l)"
  unfolding backed_def [of a "take n l"]
proof (intro allI impI)
  fix k assume b: "backed a l" and k: "0 < k" "k < length (take n l)"
  then have "k < length l" by simp
  with b k(1) obtain c L where "h_ldr a (le_term (l ! k)) = Some (c, L)" "k < length L"
    "take (Suc k) l = take (Suc k) L" by (rule backedE)
  moreover have "take (Suc k) (take n l) = take (Suc k) l"
    using k(2) by (simp add: min.absorb1 Suc_leI)
  ultimately show "\<exists>c L. h_ldr a (le_term (take n l ! k)) = Some (c, L) \<and> k < length L
      \<and> take (Suc k) (take n l) = take (Suc k) L"
    using k(2) by auto
qed

lemma backed_snoc:
  assumes "backed a l" "h_ldr a (le_term e) = Some (c, l @ [e])"
  shows "backed a (l @ [e])"
  unfolding backed_def
proof (intro allI impI)
  fix k assume k: "0 < k" "k < length (l @ [e])"
  show "\<exists>c L. h_ldr a (le_term ((l @ [e]) ! k)) = Some (c, L) \<and> k < length L
      \<and> take (Suc k) (l @ [e]) = take (Suc k) L"
  proof (cases "k < length l")
    case True
    then show ?thesis using assms(1) k(1) unfolding backed_def by (auto simp: nth_append)
  next
    case False
    then have "k = length l" using k(2) by simp
    then show ?thesis using assms(2) by auto
  qed
qed

lemma log_okD:
  assumes "log_ok l"
  shows "l \<noteq> []" "l ! 0 = sentinel" "indexed_from 0 l" "sorted (map le_term l)"
  using assms by (auto simp: log_ok_def)

lemma indexed_from_take: "indexed_from p l \<Longrightarrow> indexed_from p (take n l)"
  by (auto simp: indexed_from_def)

lemma log_ok_take: "log_ok l \<Longrightarrow> 0 < n \<Longrightarrow> log_ok (take n l)"
  by (auto simp: log_ok_def indexed_from_take take_map [symmetric] sorted_wrt_take)

lemma log_ok_term_le_last: "log_ok l \<Longrightarrow> k < length l \<Longrightarrow> le_term (l ! k) \<le> le_term (last l)"
  using sorted_nth_mono [of "map le_term l" k "length l - 1"] log_okD [of l]
  by (simp add: last_conv_nth)

lemma log_ok_term_mono: "log_ok l \<Longrightarrow> j \<le> k \<Longrightarrow> k < length l \<Longrightarrow> le_term (l ! j) \<le> le_term (l ! k)"
  using sorted_nth_mono [of "map le_term l" j k] log_okD(4) [of l] by simp

lemma last_take_term:
  assumes "log_ok l" "0 < n"
  shows "le_term (last (take n l)) \<le> le_term (last l)"
proof -
  have "take n l \<noteq> []" using assms log_okD(1) by auto
  then have "last (take n l) = l ! (length (take n l) - 1)" "length (take n l) - 1 < length l"
    using log_okD(1) [OF assms(1)] by (auto simp: last_conv_nth min_def)
  then show ?thesis using log_ok_term_le_last [OF assms(1)] by metis
qed

lemma log_ok_snoc:
  assumes "log_ok l" "unat (le_index e) = length l" "le_term (last l) \<le> le_term e"
  shows "log_ok (l @ [e])"
proof -
  have "indexed_from 0 (l @ [e])"
    using log_okD(3) [OF assms(1)] assms(2) by (auto simp: indexed_from_def nth_append less_Suc_eq)
  moreover have "\<forall>x \<in> set l. le_term x \<le> le_term e"
    using log_ok_term_le_last [OF assms(1)] assms(3) by (metis in_set_conv_nth order_trans)
  ultimately show ?thesis
    using log_okD [OF assms(1)] by (auto simp: log_ok_def sorted_append nth_append)
qed

text \<open>Log matching: equal terms at a position mean equal logs up to it.\<close>

lemma backed_logs_match:
  assumes "log_ok l" "backed a l" "log_ok L" "backed a L"
  shows "logs_match l L"
  unfolding logs_match_def
proof (intro allI impI)
  fix k assume k: "k < length l \<and> k < length L \<and> le_term (l ! k) = le_term (L ! k)"
  show "take (Suc k) l = take (Suc k) L"
  proof (cases k)
    case 0
    then show ?thesis
      using log_okD(1,2) [OF assms(1)] log_okD(1,2) [OF assms(3)]
      by (simp add: take_Suc hd_conv_nth)
  next
    case (Suc j)
    then obtain c L0 where "h_ldr a (le_term (l ! k)) = Some (c, L0)" "take (Suc k) l = take (Suc k) L0"
      using assms(2) k unfolding backed_def by blast
    moreover obtain c' L1 where "h_ldr a (le_term (L ! k)) = Some (c', L1)" "take (Suc k) L = take (Suc k) L1"
      using assms(4) k Suc unfolding backed_def by blast
    ultimately show ?thesis using k by simp
  qed
qed

lemma inv_appD:
  assumes "inv_app N a" "(l, t, p, pt, es, cm) \<in> h_app a"
  obtains L where "h_ldr a t = Some (l, L)" "p < length L" "pt = le_term (L ! p)"
    "es = take (length es) (drop (Suc p) L)" "cm \<le> p + length es" "commit_ok N a t L cm"
  using assms unfolding inv_app_def by blast

text \<open>The situation of an accepted message: the merge of a node's log with a leader's.\<close>

lemma accept_merge:
  assumes "inv_log a" "inv_app N a" "(l, t, p, pt, es, cm) \<in> h_app a"
    and "p < length (a_log a i)" "le_term (a_log a i ! p) = pt"
  obtains L where "h_ldr a t = Some (l, L)" "logs_match (a_log a i) L"
    "take (Suc p) (a_log a i) = take (Suc p) L" "Suc p \<le> length (a_log a i)"
    "es = take (length es) (drop (Suc p) L)" "p + length es < length L"
    "cm \<le> p + length es" "commit_ok N a t L cm"
proof -
  obtain L where L: "h_ldr a t = Some (l, L)" "p < length L" "pt = le_term (L ! p)"
    "es = take (length es) (drop (Suc p) L)" "cm \<le> p + length es" "commit_ok N a t L cm"
    using assms(2,3) by (rule inv_appD)
  have match: "logs_match (a_log a i) L"
    using inv_logD(1,2) [OF assms(1)] inv_log_ldrD(1,2) [OF assms(1) L(1)] by (rule backed_logs_match)
  then have "take (Suc p) (a_log a i) = take (Suc p) L"
    using assms(4,5) L(2,3) by (auto intro: logs_matchD)
  moreover have "p + length es < length L"
    using L(2) arg_cong [OF L(4), of length] by simp
  ultimately show ?thesis using that L match assms(4) by auto
qed

lemma inv_logI:
  assumes "\<And>i. log_ok (a_log a i) \<and> backed a (a_log a i) \<and> le_term (last (a_log a i)) \<le> a_term a i"
    and "\<And>t c L. h_ldr a t = Some (c, L) \<Longrightarrow> log_ok L \<and> backed a L \<and> le_term (last L) \<le> t"
  shows "inv_log a"
  using assms unfolding inv_log_def by blast

lemma accepted_log:
  assumes inv: "inv_log a" "inv_app N a"
    and m: "(l, a_term a i, p, pt, es, cm) \<in> h_app a" "p < length (a_log a i)" "le_term (a_log a i ! p) = pt"
  defines "l' \<equiv> merge_at (a_log a i) (Suc p) es"
  shows "log_ok l' \<and> backed a l' \<and> le_term (last l') \<le> a_term a i"
proof -
  obtain L where L: "h_ldr a (a_term a i) = Some (l, L)" "logs_match (a_log a i) L"
    "take (Suc p) (a_log a i) = take (Suc p) L" "Suc p \<le> length (a_log a i)"
    "es = take (length es) (drop (Suc p) L)"
    using accept_merge [OF inv m] by metis
  have "log_ok (take n L) \<and> backed a (take n L) \<and> le_term (last (take n L)) \<le> a_term a i" if "0 < n" for n
    using inv_log_ldrD [OF inv(1) L(1)] log_ok_take last_take_term backed_take that by (meson order_trans)
  from this [of "Suc p + length es"] show ?thesis
    using merge_at_cases [OF L(2-5)] inv_logD [OF inv(1), of i] by (auto simp: l'_def)
qed

lemma inv_log_step:
  assumes step: "astep N i a a'" and inv: "inv_log a" "inv_ldr N a" "inv_vote N a" "inv_app N a"
  shows "inv_log a'"
proof -
  have backed': "backed a l \<Longrightarrow> backed a' l" for l
    using ldr_grows [OF step inv(2,3)] by (rule backed_mono)
  have terms: "le_term e \<le> a_term a j \<Longrightarrow> le_term e \<le> a_term a' j" for e j
    using astep_mono(1) [OF step, of j] by (rule order_trans [rotated])
  have same: "log_ok l \<and> backed a' l \<and> le_term (last l) \<le> t" if "h_ldr a t = Some (c, l)" for t c l
    using inv_log_ldrD [OF inv(1) that] backed' by blast
  have logs: "log_ok (a_log a j) \<and> backed a' (a_log a j) \<and> le_term (last (a_log a j)) \<le> a_term a' j" for j
    using inv_logD [OF inv(1), of j] backed' terms by blast
  have plain: "a_log a' = a_log a \<Longrightarrow> h_ldr a' = h_ldr a \<Longrightarrow> inv_log a'"
    by (rule inv_logI) (use logs same in auto)
  show ?thesis using step
  proof cases
    case (a_win Q)
    show ?thesis
    proof (rule inv_logI)
      fix t c L assume "h_ldr a' t = Some (c, L)"
      then show "log_ok L \<and> backed a' L \<and> le_term (last L) \<le> t"
        using same logs [of i] a_win(1) by (cases "t = a_term a i") auto
    qed (use logs a_win(1) in auto)
  next
    case (a_propose e)
    let ?l = "a_log a i @ [e]"
    have "h_ldr a' (le_term e) = Some (i, ?l)" using a_propose(1,4) by simp
    then have "backed a' ?l" using logs [of i] backed_snoc by blast
    moreover have "log_ok ?l" using logs [of i] a_propose(1,4,5) by (intro log_ok_snoc) auto
    ultimately have new: "log_ok ?l \<and> backed a' ?l \<and> le_term (last ?l) \<le> a_term a i" using a_propose(4) by simp
    show ?thesis
    proof (rule inv_logI)
      fix t c L assume "h_ldr a' t = Some (c, L)"
      then show "log_ok L \<and> backed a' L \<and> le_term (last L) \<le> t"
        using same new a_propose(1) by (cases "t = a_term a i") auto
    next
      fix j show "log_ok (a_log a' j) \<and> backed a' (a_log a' j) \<and> le_term (last (a_log a' j)) \<le> a_term a' j"
        using logs new a_propose(1) by (cases "j = i") auto
    qed
  next
    case (a_accept l p pt es cm)
    have merged: "log_ok (merge_at (a_log a i) (Suc p) es) \<and> backed a' (merge_at (a_log a i) (Suc p) es)
        \<and> le_term (last (merge_at (a_log a i) (Suc p) es)) \<le> a_term a i"
      using accepted_log [OF inv(1,4) a_accept(3,5,6)] backed' by blast
    show ?thesis
    proof (rule inv_logI)
      fix j show "log_ok (a_log a' j) \<and> backed a' (a_log a' j) \<and> le_term (last (a_log a' j)) \<le> a_term a' j"
        using logs merged a_accept(1) by (cases "j = i") auto
    qed (use same a_accept(1) in auto)
  qed (rule plain; simp)+
qed


subsection \<open>Acknowledgements\<close>

lemma inv_ackD:
  assumes "inv_ack a" "(v, t, m) \<in> h_ack a"
  obtains c L where "t \<le> a_term a v" "h_ldr a t = Some (c, L)" "m < length L"
    "t = a_term a v \<longrightarrow> m < length (a_log a v) \<and> take (Suc m) (a_log a v) = take (Suc m) L"
  using assms unfolding inv_ack_def by blast

text \<open>In a term, a node's log keeps what it shares with the log of that term's leader.\<close>

lemma log_keeps_leader_prefix:
  assumes step: "astep N i a a'" and inv: "inv_log a" "inv_app N a"
    and L: "h_ldr a (a_term a v) = Some (c, L)"
    and q: "take q (a_log a v) = take q L" "q \<le> length (a_log a v)"
  shows "take q (a_log a' v) = take q L" "q \<le> length (a_log a' v)"
proof -
  have "take q (a_log a' v) = take q L \<and> q \<le> length (a_log a' v)"
    using step
  proof cases
    case (a_propose e)
    then show ?thesis using q by (cases "v = i") auto
  next
    case (a_accept l p pt es cm)
    show ?thesis
    proof (cases "v = i")
      case True
      obtain L' where L': "h_ldr a (a_term a i) = Some (l, L')" "logs_match (a_log a i) L'"
        "take (Suc p) (a_log a i) = take (Suc p) L'" "Suc p \<le> length (a_log a i)"
        "es = take (length es) (drop (Suc p) L')"
        using accept_merge [OF inv(1,2) a_accept(3,5,6)] by metis
      then have "L' = L" using L True by simp
      then show ?thesis using merge_at_keeps [OF L'(2-5)] q True a_accept(1) by simp
    qed (use q a_accept(1) in simp)
  qed (use q in auto)
  then show "take q (a_log a' v) = take q L" "q \<le> length (a_log a' v)" by auto
qed

lemma astep_new_ack:
  assumes "astep N i a a'" "(v, t, m) \<in> h_ack a'" "(v, t, m) \<notin> h_ack a"
  obtains l p pt es cm where "v = i" "t = a_term a i" "m = p + length es"
    "a_log a' i = merge_at (a_log a i) (Suc p) es" "a_term a' = a_term a" "h_ldr a' = h_ldr a"
    "(l, a_term a i, p, pt, es, cm) \<in> h_app a" "p < length (a_log a i)" "le_term (a_log a i ! p) = pt"
  using assms(1)
proof cases
  case (a_accept l p pt es cm)
  then show ?thesis using assms(2,3) that [of p es l pt cm] by auto
qed (use assms(2,3) in auto)

lemma inv_ack_step:
  assumes step: "astep N i a a'"
    and inv: "inv_ack a" "inv_log a" "inv_ldr N a" "inv_vote N a" "inv_app N a"
  shows "inv_ack a'"
  unfolding inv_ack_def
proof (intro allI impI)
  fix v t m assume m: "(v, t, m) \<in> h_ack a'"
  let ?P = "t \<le> a_term a' v \<and> (\<exists>c L. h_ldr a' t = Some (c, L) \<and> m < length L
     \<and> (t = a_term a' v \<longrightarrow> m < length (a_log a' v) \<and> take (Suc m) (a_log a' v) = take (Suc m) L))"
  show ?P
  proof (cases "(v, t, m) \<in> h_ack a")
    case True
    with inv(1) obtain c L where L: "t \<le> a_term a v" "h_ldr a t = Some (c, L)" "m < length L"
      "t = a_term a v \<longrightarrow> m < length (a_log a v) \<and> take (Suc m) (a_log a v) = take (Suc m) L"
      by (rule inv_ackD)
    obtain X where X: "h_ldr a' t = Some (c, L @ X)" using ldr_grows [OF step inv(3,4) L(2)] by blast
    have le: "a_term a v \<le> a_term a' v" by (rule astep_mono(1) [OF step])
    have "m < length (a_log a' v) \<and> take (Suc m) (a_log a' v) = take (Suc m) (L @ X)"
      if "t = a_term a' v"
    proof -
      have t: "t = a_term a v" using that L(1) le by simp
      show ?thesis
        using log_keeps_leader_prefix [OF step inv(2,5) L(2) [unfolded t], of "Suc m"] L(3,4) t by auto
    qed
    then show ?thesis using X L(1,3) le by fastforce
  next
    case False
    obtain l p pt es cm where new: "v = i" "t = a_term a i" "m = p + length es"
      and acc: "a_log a' i = merge_at (a_log a i) (Suc p) es" "a_term a' = a_term a" "h_ldr a' = h_ldr a"
        "(l, a_term a i, p, pt, es, cm) \<in> h_app a" "p < length (a_log a i)" "le_term (a_log a i ! p) = pt"
      using step m False by (rule astep_new_ack)
    obtain L where L: "h_ldr a (a_term a i) = Some (l, L)" "logs_match (a_log a i) L"
      "take (Suc p) (a_log a i) = take (Suc p) L" "Suc p \<le> length (a_log a i)"
      "es = take (length es) (drop (Suc p) L)" "p + length es < length L"
      using accept_merge [OF inv(2,5) acc(4-6)] by metis
    then show ?thesis
      using merge_at_covers [OF L(2-5)] new acc(1-3) by auto
  qed
qed

subsection \<open>Positions that can still be chosen\<close>

lemma acked_mono:
  assumes "astep N i a a'" "inv_ldr N a" "inv_vote N a" "acked a v t k"
  shows "acked a' v t k"
  using assms(4) unfolding acked_def
proof
  assume "\<exists>m\<ge>k. (v, t, m) \<in> h_ack a"
  then show "(\<exists>m\<ge>k. (v, t, m) \<in> h_ack a') \<or> (\<exists>L. h_ldr a' t = Some (v, L) \<and> k < length L)"
    using astep_mono(5) [OF assms(1)] by blast
next
  assume "\<exists>L. h_ldr a t = Some (v, L) \<and> k < length L"
  then obtain L where L: "h_ldr a t = Some (v, L)" "k < length L" by blast
  obtain X where "h_ldr a' t = Some (v, L @ X)" using ldr_grows [OF assms(1-3) L(1)] by blast
  then show "(\<exists>m\<ge>k. (v, t, m) \<in> h_ack a') \<or> (\<exists>L. h_ldr a' t = Some (v, L) \<and> k < length L)"
    using L(2) by auto
qed

text \<open>A node acknowledges only in its current term.\<close>

lemma acked_back:
  assumes step: "astep N i a a'" and "inv_ldr N a" and "acked a' v t k"
  shows "acked a v t k \<or> a_term a v = t \<and> a_term a' v = t"
  using step
proof cases
  case (a_win Q)
  then show ?thesis using assms(3) by (cases "t = a_term a i") (auto simp: acked_def)
next
  case (a_propose e)
  then show ?thesis using assms(3) by (cases "t = a_term a i") (auto simp: acked_def)
next
  case (a_accept l p pt es cm)
  then show ?thesis using assms(3) by (auto simp: acked_def)
qed (use assms(3) in \<open>auto simp: acked_def\<close>)

lemma choosable_anti:
  assumes step: "astep N i a a'" and ldr: "inv_ldr N a" and ch: "choosable N a' t k"
  shows "choosable N a t k"
proof -
  obtain Q where Q: "majority N Q" "\<forall>v \<in> Q. acked a' v t k \<or> a_term a' v \<le> t"
    using ch unfolding choosable_def by blast
  have "acked a v t k \<or> a_term a v \<le> t" if "v \<in> Q" for v
    using Q(2) that acked_back [OF step ldr] astep_mono(1) [OF step, of v] by (metis order_refl order_trans)
  then show ?thesis using Q(1) unfolding choosable_def by blast
qed

lemma committed_choosable: "committed N a t k L \<Longrightarrow> choosable N a t k"
  unfolding committed_def choosable_def by blast

lemma committed_mono:
  assumes "astep N i a a'" "inv_ldr N a" "inv_vote N a" "committed N a t k L"
  shows "\<exists>X. committed N a' t k (L @ X)"
proof -
  obtain c where c: "h_ldr a t = Some (c, L)" "k < length L" "le_term (L ! k) = t"
    and Q: "\<exists>Q. majority N Q \<and> (\<forall>v \<in> Q. acked a v t k)"
    using assms(4) unfolding committed_def own_entry_def by blast
  obtain X where "h_ldr a' t = Some (c, L @ X)" using ldr_grows [OF assms(1-3) c(1)] by blast
  then show ?thesis
    using c(2,3) Q acked_mono [OF assms(1-3)] unfolding committed_def own_entry_def
    by (intro exI [of _ X]) (auto simp: nth_append)
qed

lemma commit_ok_mono:
  assumes "astep N i a a'" "inv_ldr N a" "inv_vote N a" "commit_ok N a T l n" "T \<le> T'"
  shows "commit_ok N a' T' l n"
proof (cases "n = 0")
  case False
  then obtain t k L where c: "t \<le> T" "committed N a t k L" "n \<le> k" "take (Suc n) l = take (Suc n) L"
    and n: "n < length l"
    using assms(4) unfolding commit_ok_def by blast
  obtain X where "committed N a' t k (L @ X)" using committed_mono [OF assms(1-3) c(2)] by blast
  moreover have "k < length L" using c(2) by (simp add: committed_def own_entry_def)
  ultimately show ?thesis
    using c n assms(5) unfolding commit_ok_def
    by (intro conjI disjI2 exI [of _ t] exI [of _ k] exI [of _ "L @ X"]) auto
qed (use assms(4) in \<open>auto simp: commit_ok_def\<close>)


lemma acked_term_le:
  assumes "inv_ack a" "inv_ldr N a" "acked a v t k"
  shows "t \<le> a_term a v"
  using assms(3) unfolding acked_def
proof
  assume "\<exists>m\<ge>k. (v, t, m) \<in> h_ack a"
  then obtain m where "(v, t, m) \<in> h_ack a" by blast
  then show ?thesis using inv_ackD [OF assms(1)] by blast
next
  assume "\<exists>L. h_ldr a t = Some (v, L) \<and> k < length L"
  then show ?thesis using inv_ldrD(3) [OF assms(2)] by blast
qed

lemma own_entry_term_pos: "inv_ldr N a \<Longrightarrow> own_entry a t k L \<Longrightarrow> 0 < t"
  using inv_ldrD(2) unfolding own_entry_def by blast

lemma own_entry_unique: "own_entry a t k L \<Longrightarrow> h_ldr a t = Some (c, L') \<Longrightarrow> L' = L"
  unfolding own_entry_def by auto

text \<open>An entry of its own term is an old one, or the one that a leader has just proposed.\<close>

lemma own_entry_back:
  assumes step: "astep N i a a'" and inv: "inv_ldr N a" "inv_vote N a" "inv_req N a" "inv_log a"
    and own: "own_entry a' t k L'"
  obtains (old) L where "own_entry a t k L" "take (Suc k) L' = take (Suc k) L" "k < length L"
  | (new) e where "t = a_term a i" "k = length (a_log a i)" "L' = a_log a i @ [e]"
      "h_ldr a t = Some (i, a_log a i)" "a_log a' i = L'" "a_term a' = a_term a" "h_ack a' = h_ack a"
      "h_vote a' = h_vote a" "\<forall>T. T \<noteq> t \<longrightarrow> h_ldr a' T = h_ldr a T" "h_ldr a' t = Some (i, L')"
proof -
  obtain c where c: "h_ldr a' t = Some (c, L')" "k < length L'" "le_term (L' ! k) = t"
    using own unfolding own_entry_def by blast
  have keep: thesis if "h_ldr a t = Some (c, L')"
    using old [of L'] c(2,3) that unfolding own_entry_def by blast
  show thesis using step
  proof cases
    case (a_win Q)
    show thesis
    proof (cases "t = a_term a i")
      case True
      then have "L' = a_log a i" using c(1) a_win(1) by auto
      then have "t \<le> le_term (last (a_log a i))"
        using c(2,3) log_ok_term_le_last [OF inv_logD(1) [OF inv(4)], of k i] by simp
      moreover obtain li lt where r: "(i, a_term a i, li, lt) \<in> h_req a"
        using inv(3) a_win(3) unfolding inv_req_def by blast
      then have "le_term (last (a_log a i)) < t"
        using inv_reqD(4,5) [OF inv(3) r] a_win(3) True by simp
      ultimately show thesis by simp
    qed (use keep c(1) a_win(1) in simp)
  next
    case (a_propose e)
    note ldr = inv_ldr_role [OF inv(1) a_propose(3)]
    show thesis
    proof (cases "t = a_term a i")
      case True
      then have L': "L' = a_log a i @ [e]" using c(1) a_propose(1) by auto
      show thesis
      proof (cases "k < length (a_log a i)")
        case True
        then show thesis
          using old [of "a_log a i"] c(2,3) L' \<open>t = a_term a i\<close> ldr unfolding own_entry_def
          by (auto simp: nth_append)
      next
        case False
        then have "k = length (a_log a i)" using c(2) L' by simp
        then show thesis using new [of e] True L' ldr a_propose(1) by simp
      qed
    qed (use keep c(1) a_propose(1) in simp)
  qed (use keep c(1) in simp_all)
qed

text \<open>Nobody but the leader itself has acknowledged an entry that was just proposed.\<close>

lemma new_entry_acked:
  assumes "inv_ack a" "h_ldr a t = Some (i, l)" "h_ack a' = h_ack a" "h_ldr a' t = Some (i, L')"
    and "acked a' v t (length l)"
  shows "v = i"
  using assms(5) unfolding acked_def
proof
  assume "\<exists>m\<ge>length l. (v, t, m) \<in> h_ack a'"
  then obtain m where m: "length l \<le> m" "(v, t, m) \<in> h_ack a" using assms(3) by auto
  from assms(1) m(2) obtain c L where "h_ldr a t = Some (c, L)" "m < length L" by (rule inv_ackD)
  then show ?thesis using assms(2) m(1) by simp
next
  assume "\<exists>L. h_ldr a' t = Some (v, L) \<and> length l < length L"
  then show ?thesis using assms(4) by auto
qed

subsection \<open>Acknowledged positions stay\<close>

lemma inv_nodeD:
  "inv_node N a \<Longrightarrow> own_entry a t k L \<Longrightarrow> choosable N a t k \<Longrightarrow> acked a v t k \<Longrightarrow>
    k < length (a_log a v) \<and> take (Suc k) (a_log a v) = take (Suc k) L"
  unfolding inv_node_def by blast

lemma inv_safeD:
  "inv_safe N a \<Longrightarrow> own_entry a t k L \<Longrightarrow> choosable N a t k \<Longrightarrow> t < T \<Longrightarrow> h_ldr a T = Some (c, L') \<Longrightarrow>
    k < length L' \<and> take (Suc k) L' = take (Suc k) L"
  unfolding inv_safe_def by blast

text \<open>Any log of a term from \<open>t\<close> on that the leader of that term has extends the choice.\<close>

lemma leader_has_choice:
  assumes "inv_safe N a" "own_entry a t k L" "choosable N a t k" "t \<le> T" "h_ldr a T = Some (c, LT)"
  shows "k < length LT" "take (Suc k) LT = take (Suc k) L"
proof -
  have "k < length LT \<and> take (Suc k) LT = take (Suc k) L"
  proof (cases "t = T")
    case True
    then have "LT = L" using own_entry_unique [OF assms(2)] assms(5) by simp
    then show ?thesis using assms(2) by (simp add: own_entry_def)
  next
    case False
    then show ?thesis using inv_safeD [OF assms(1-3) _ assms(5)] assms(4) by simp
  qed
  then show "k < length LT" "take (Suc k) LT = take (Suc k) L" by auto
qed

text \<open>What a node keeps when it accepts entries, and what it has acknowledged in its present term.\<close>

lemma accept_keeps_choice:
  assumes inv: "inv_safe N a" "inv_ack a" "inv_ldr N a" "inv_log a" "inv_app N a"
    and m: "(l, a_term a i, p, pt, es, cm) \<in> h_app a" "p < length (a_log a i)" "le_term (a_log a i ! p) = pt"
    and own: "own_entry a t k L" "choosable N a t k" and ack: "acked a i t k"
    and pre: "take (Suc k) (a_log a i) = take (Suc k) L" "Suc k \<le> length (a_log a i)"
  shows "k < length (merge_at (a_log a i) (Suc p) es) \<and> take (Suc k) (merge_at (a_log a i) (Suc p) es) = take (Suc k) L"
proof -
  obtain LT where LT: "h_ldr a (a_term a i) = Some (l, LT)" "logs_match (a_log a i) LT"
    "take (Suc p) (a_log a i) = take (Suc p) LT" "Suc p \<le> length (a_log a i)"
    "es = take (length es) (drop (Suc p) LT)"
    using accept_merge [OF inv(4,5) m] by metis
  have eq: "take (Suc k) (a_log a i) = take (Suc k) LT"
    using leader_has_choice [OF inv(1) own _ LT(1)] acked_term_le [OF inv(2,3) ack] pre(1) by simp
  from merge_at_keeps [OF LT(2-5) this pre(2)] pre(1) eq show ?thesis by simp
qed

lemma acked_now:
  assumes inv: "inv_ack a" "inv_ldr N a" and own: "own_entry a t k L" and ack: "acked a v t k" and now: "a_term a v = t"
  shows "k < length (a_log a v) \<and> take (Suc k) (a_log a v) = take (Suc k) L"
proof -
  obtain c where c: "h_ldr a t = Some (c, L)" "k < length L" using own unfolding own_entry_def by blast
  show ?thesis using ack unfolding acked_def
  proof
    assume "\<exists>m\<ge>k. (v, t, m) \<in> h_ack a"
    then obtain m where m: "k \<le> m" "(v, t, m) \<in> h_ack a" by blast
    from inv(1) m(2) obtain c2 L2 where "h_ldr a t = Some (c2, L2)"
      "t = a_term a v \<longrightarrow> m < length (a_log a v) \<and> take (Suc m) (a_log a v) = take (Suc m) L2"
      by (rule inv_ackD)
    then have "m < length (a_log a v)" "take (Suc m) (a_log a v) = take (Suc m) L" using c now by auto
    then show ?thesis using m(1) take_agree_le by fastforce
  next
    assume "\<exists>L. h_ldr a t = Some (v, L) \<and> k < length L"
    then show ?thesis using c inv_ldrD(5) [OF inv(2)] now by fastforce
  qed
qed

lemma inv_node_step:
  assumes step: "astep N i a a'"
    and inv: "inv_node N a" "inv_safe N a" "inv_ack a" "inv_ldr N a" "inv_vote N a" "inv_req N a"
      "inv_log a" "inv_app N a" "inv_ack a'" "inv_ldr N a'"
  shows "inv_node N a'"
  unfolding inv_node_def
proof (intro allI impI)
  fix t k L' v
  assume own: "own_entry a' t k L'" and ch': "choosable N a' t k" and ack': "acked a' v t k"
  have ch: "choosable N a t k" by (rule choosable_anti [OF step inv(4) ch'])
  from step inv(4-7) own show "k < length (a_log a' v) \<and> take (Suc k) (a_log a' v) = take (Suc k) L'"
  proof (cases rule: own_entry_back)
    case (new e)
    have "v = i" using new_entry_acked [OF inv(3) new(4,7,10)] ack' new(2) by simp
    then show ?thesis using new by simp
  next
    case (old L)
    consider (before) "acked a v t k" | (now) "a_term a' v = t"
      using acked_back [OF step inv(4) ack'] by blast
    then show ?thesis
    proof cases
      case before
      have pre: "take (Suc k) (a_log a v) = take (Suc k) L" "Suc k \<le> length (a_log a v)"
        using inv_nodeD [OF inv(1) old(1) ch before] by auto
      show ?thesis using step
      proof cases
        case (a_propose e)
        then show ?thesis using pre old(2) by (cases "v = i") auto
      next
        case (a_accept l p pt es cm)
        show ?thesis
        proof (cases "v = i")
          case True
          then show ?thesis
            using accept_keeps_choice [OF inv(2-4,7,8) a_accept(3,5,6) old(1) ch _ pre [unfolded True]] before a_accept(1) old(2)
            by simp
        qed (use pre old(2) a_accept(1) in auto)
      qed (use pre old(2) in auto)
    next
      case now
      then show ?thesis by (rule acked_now [OF inv(9,10) own ack'])
    qed
  qed
qed


subsection \<open>Candidates that get votes are up to date\<close>

lemma inv_candD:
  "inv_cand N a \<Longrightarrow> own_entry a t k L \<Longrightarrow> choosable N a t k \<Longrightarrow> acked a v t k \<Longrightarrow> t < T \<Longrightarrow>
    (v, T, cd) \<in> h_vote a \<Longrightarrow> (cd, T, li, lt) \<in> h_req a \<Longrightarrow> t < lt \<or> t = lt \<and> k \<le> li"
  unfolding inv_cand_def by blast

text \<open>A log that contains an entry of term \<open>t\<close> at \<open>k\<close> is at least as up to date as it.\<close>

lemma up_to_date_with_entry:
  assumes "log_ok l" "k < length l" "take (Suc k) l = take (Suc k) L" "le_term (L ! k) = t"
  shows "t < le_term (last l) \<or> t = le_term (last l) \<and> k \<le> length l - 1"
proof -
  have "l ! k = L ! k" by (rule take_agree_nth [OF assms(3)]) simp
  then have "t \<le> le_term (last l)" using log_ok_term_le_last [OF assms(1,2)] assms(4) by simp
  then show ?thesis using assms(2) by auto
qed

lemma inv_cand_step:
  assumes step: "astep N i a a'"
    and inv: "inv_cand N a" "inv_node N a" "inv_ack a" "inv_ldr N a" "inv_vote N a" "inv_req N a"
      "inv_log a" "inv_vote N a'" "inv_req N a'"
  shows "inv_cand N a'"
  unfolding inv_cand_def
proof (intro allI impI)
  fix t k L' v T cd li lt
  assume own: "own_entry a' t k L'" and ch': "choosable N a' t k" and ack': "acked a' v t k"
    and T: "t < T" and vote: "(v, T, cd) \<in> h_vote a'" and req: "(cd, T, li, lt) \<in> h_req a'"
  have ch: "choosable N a t k" by (rule choosable_anti [OF step inv(4) ch'])
  have past: "t < a_term a' v" using inv_voteD(2) [OF inv(8) vote] T by (rule order_less_le_trans [rotated])
  from step inv(4-7) own show "t < lt \<or> t = lt \<and> k \<le> li"
  proof (cases rule: own_entry_back)
    case (new e)
    have "v = i" using new_entry_acked [OF inv(3) new(4,7,10)] ack' new(2) by simp
    then show ?thesis using new past by simp
  next
    case (old L)
    have ack: "acked a v t k" using acked_back [OF step inv(4) ack'] past by auto
    show ?thesis
    proof (cases "(v, T, cd) \<in> h_vote a")
      case True
      obtain li' lt' where r: "(cd, T, li', lt') \<in> h_req a" using inv_voteD(4) [OF inv(5) True] by blast
      then have "li' = li \<and> lt' = lt"
        using inv_req_unique [OF inv(9) _ req] astep_mono(2) [OF step] by blast
      then show ?thesis using inv_candD [OF inv(1) old(1) ch ack T True r] by simp
    next
      case False
      have pre: "k < length (a_log a v)" "take (Suc k) (a_log a v) = take (Suc k) L"
        using inv_nodeD [OF inv(2) old(1) ch ack] by auto
      have upd: "t < le_term (last (a_log a v)) \<or> t = le_term (last (a_log a v)) \<and> k \<le> length (a_log a v) - 1"
        by (rule up_to_date_with_entry [OF inv_logD(1) [OF inv(7)] pre])
          (use old(1) in \<open>simp add: own_entry_def\<close>)
      show ?thesis using step
      proof cases
        case (a_timeout T')
        then have "v = i" "T = T'" "cd = i" using False vote by auto
        moreover have "(i, T', length (a_log a i) - 1, le_term (last (a_log a i))) \<in> h_req a'"
          using a_timeout(1) by simp
        ultimately have "li = length (a_log a v) - 1 \<and> lt = le_term (last (a_log a v))"
          using inv_req_unique [OF inv(9)] req by metis
        then show ?thesis using upd by simp
      next
        case (a_grant c li' lt')
        then have vi: "v = i" "T = a_term a i" "cd = c" using False vote by auto
        have "li' = li \<and> lt' = lt"
          using inv_req_unique [OF inv(9)] astep_mono(2) [OF step] a_grant(3) req vi by blast
        then show ?thesis using upd a_grant(5) vi by auto
      qed (use False vote in auto)
    qed
  qed
qed

subsection \<open>Later leaders have what can be chosen\<close>

lemma candidate_log_has_choice:
  assumes inv: "inv_safe N a" "inv_ldr N a" "inv_log a"
    and own: "own_entry a t k L" and ch: "choosable N a t k"
    and upd: "t < le_term (last (a_log a i)) \<or> t = le_term (last (a_log a i)) \<and> k \<le> length (a_log a i) - 1"
  shows "k < length (a_log a i)" "take (Suc k) (a_log a i) = take (Suc k) L"
proof -
  let ?l = "a_log a i" and ?li = "length (a_log a i) - 1" and ?lt = "le_term (last (a_log a i))"
  have ok: "log_ok ?l" "backed a ?l" by (rule inv_logD [OF inv(3)])+
  have last: "last ?l = ?l ! ?li" "?li < length ?l" using log_okD(1) [OF ok(1)] by (auto simp: last_conv_nth)
  have "0 < ?lt" using upd own_entry_term_pos [OF inv(2) own] by (auto intro: order_less_trans)
  then have "0 < ?li" using log_okD(1,2) [OF ok(1)] last(1) by (cases "?li = 0") (auto simp: sentinel_def)
  from ok(2) this last(2) obtain c2 L2 where L2: "h_ldr a (le_term (?l ! ?li)) = Some (c2, L2)" "?li < length L2"
    "take (Suc ?li) ?l = take (Suc ?li) L2" by (rule backedE)
  have "t \<le> ?lt" using upd by auto
  then have LT: "k < length L2" "take (Suc k) L2 = take (Suc k) L"
    using leader_has_choice [OF inv(1) own ch _ L2(1)] last(1) by simp_all
  have k: "k \<le> ?li"
  proof (cases "t = ?lt")
    case True
    then show ?thesis using upd by auto
  next
    case False
    then have "t < ?lt" using upd by auto
    show ?thesis
    proof (rule ccontr)
      assume "\<not> k \<le> ?li"
      then have "le_term (L2 ! ?li) \<le> le_term (L2 ! k)"
        using log_ok_term_mono [OF inv_log_ldrD(1) [OF inv(3) L2(1)], of ?li k] LT(1) by simp
      moreover have "L2 ! k = L ! k" by (rule take_agree_nth [OF LT(2)]) simp
      moreover have "?l ! ?li = L2 ! ?li" by (rule take_agree_nth [OF L2(3)]) simp
      ultimately show False using \<open>t < ?lt\<close> own last(1) by (simp add: own_entry_def)
    qed
  qed
  then show "k < length ?l" using last(2) by simp
  have "take (Suc k) ?l = take (Suc k) L2" by (rule take_agree_le [OF L2(3)]) (use k in simp)
  then show "take (Suc k) ?l = take (Suc k) L" using LT(2) by simp
qed

text \<open>A candidate that a quorum has voted for has every entry that can still be chosen in an older term.\<close>

lemma winner_has_choice:
  assumes inv: "inv_safe N a" "inv_cand N a" "inv_ldr N a" "inv_vote N a" "inv_req N a" "inv_log a"
    and own: "own_entry a t k L" "choosable N a t k" and T: "t < T"
    and win: "a_role a i = RCandidate" "T = a_term a i" and Q': "majority N Q'" "\<forall>v \<in> Q'. (v, T, i) \<in> h_vote a"
  shows "k < length (a_log a i) \<and> take (Suc k) (a_log a i) = take (Suc k) L"
proof -
  obtain Q where Q: "majority N Q" "\<forall>v \<in> Q. acked a v t k \<or> a_term a v \<le> t"
    using own(2) unfolding choosable_def by blast
  obtain v where v: "v \<in> Q" "v \<in> Q'" using maj.common_voter [OF Q(1) Q'(1)] by blast
  have vote: "(v, T, i) \<in> h_vote a" using Q'(2) v(2) by blast
  then have "t < a_term a v" using inv_voteD(2) [OF inv(4)] T by (blast intro: order_less_le_trans)
  then have ack: "acked a v t k" using Q(2) v(1) by auto
  obtain li lt where r: "(i, T, li, lt) \<in> h_req a" using inv(5) win(1,2) unfolding inv_req_def by blast
  then have "li = length (a_log a i) - 1 \<and> lt = le_term (last (a_log a i))"
    using inv_reqD(5) [OF inv(5) r win(2,1)] by simp
  with inv_candD [OF inv(2) own ack T vote r]
  have upd: "t < le_term (last (a_log a i)) \<or> t = le_term (last (a_log a i)) \<and> k \<le> length (a_log a i) - 1"
    by simp
  show ?thesis using candidate_log_has_choice [OF inv(1,3,6) own upd] by simp
qed

lemma inv_safe_step:
  assumes step: "astep N i a a'"
    and inv: "inv_safe N a" "inv_cand N a" "inv_ack a" "inv_ldr N a" "inv_vote N a" "inv_req N a" "inv_log a"
  shows "inv_safe N a'"
  unfolding inv_safe_def
proof (intro allI impI)
  fix t k L' T c' LT'
  assume own: "own_entry a' t k L'" and ch': "choosable N a' t k" and T: "t < T"
    and ldr': "h_ldr a' T = Some (c', LT')"
  have ch: "choosable N a t k" by (rule choosable_anti [OF step inv(4) ch'])
  from step inv(4-7) own show "k < length LT' \<and> take (Suc k) LT' = take (Suc k) L'"
  proof (cases rule: own_entry_back)
    case (new e)
    have "h_ldr a T = Some (c', LT')" using new(9) T ldr' by auto
    then obtain Q' where Q': "majority N Q'" "\<forall>v \<in> Q'. (v, T, c') \<in> h_vote a" using inv_ldrD(4) [OF inv(4)] by blast
    obtain Q where Q: "majority N Q" "\<forall>v \<in> Q. acked a' v t k \<or> a_term a' v \<le> t"
      using ch' unfolding choosable_def by blast
    obtain v where v: "v \<in> Q" "v \<in> Q'" using maj.common_voter [OF Q(1) Q'(1)] by blast
    have "t < a_term a v" using inv_voteD(2) [OF inv(5)] Q'(2) v(2) T by (blast intro: order_less_le_trans)
    then have "acked a' v t k" using Q(2) v(1) new(6) by auto
    then have "v = i" using new_entry_acked [OF inv(3) new(4,7,10)] new(2) by simp
    then show ?thesis using \<open>t < a_term a v\<close> new(1) by simp
  next
    case (old L)
    show ?thesis
    proof (cases "h_ldr a T")
      case (Some x)
      then obtain c LT where LT: "h_ldr a T = Some (c, LT)" by (cases x) auto
      obtain X where "LT' = LT @ X" using ldr_grows [OF step inv(4,5) LT] ldr' by auto
      then show ?thesis using inv_safeD [OF inv(1) old(1) ch T LT] old(2) by auto
    next
      case None
      from step have "\<exists>Q. a_role a i = RCandidate \<and> T = a_term a i \<and> LT' = a_log a i \<and> c' = i
          \<and> majority N Q \<and> (\<forall>v \<in> Q. (v, a_term a i, i) \<in> h_vote a)"
      proof cases
        case (a_win Q)
        then show ?thesis using None ldr' by (cases "T = a_term a i") auto
      next
        case (a_propose e)
        then show ?thesis using None ldr' inv_ldr_role [OF inv(4) a_propose(3)] by (cases "T = a_term a i") auto
      qed (use None ldr' in auto)
      then obtain Q' where win: "a_role a i = RCandidate" "T = a_term a i" "LT' = a_log a i"
        and Q': "majority N Q'" "\<forall>v \<in> Q'. (v, T, i) \<in> h_vote a" by blast
      show ?thesis
        using winner_has_choice [OF inv(1,2,4-7) old(1) ch T win(1,2) Q'] win(3) old(2) by simp
    qed
  qed
qed


subsection \<open>Messages and commit positions\<close>

lemma commit_ok_append: "commit_ok N a T l n \<Longrightarrow> commit_ok N a T (l @ X) n"
  by (auto simp: commit_ok_def)

lemma commit_ok_le: "commit_ok N a T l n \<Longrightarrow> m \<le> n \<Longrightarrow> commit_ok N a T l m"
  unfolding commit_ok_def by (metis Suc_le_mono bot_nat_0.extremum_uniqueI le_trans order_le_less_trans take_agree_le)

lemma commit_ok_agree:
  "commit_ok N a T l n \<Longrightarrow> take (Suc n) l' = take (Suc n) l \<Longrightarrow> n < length l' \<Longrightarrow> commit_ok N a T l' n"
  unfolding commit_ok_def by metis

lemma inv_app_step:
  assumes step: "astep N i a a'" and inv: "inv_app N a" "inv_ldr N a" "inv_vote N a" "inv_commit N a"
  shows "inv_app N a'"
  unfolding inv_app_def
proof (intro allI impI)
  fix l t p pt es cm assume m: "(l, t, p, pt, es, cm) \<in> h_app a'"
  show "\<exists>L. h_ldr a' t = Some (l, L) \<and> p < length L \<and> pt = le_term (L ! p)
      \<and> es = take (length es) (drop (Suc p) L) \<and> cm \<le> p + length es \<and> commit_ok N a' t L cm"
  proof (cases "(l, t, p, pt, es, cm) \<in> h_app a")
    case True
    with inv(1) obtain L where L: "h_ldr a t = Some (l, L)" "p < length L" "pt = le_term (L ! p)"
      "es = take (length es) (drop (Suc p) L)" "cm \<le> p + length es" "commit_ok N a t L cm" by (rule inv_appD)
    obtain X where X: "h_ldr a' t = Some (l, L @ X)" using ldr_grows [OF step inv(2,3) L(1)] by blast
    have "commit_ok N a' t (L @ X) cm"
      using commit_ok_append [OF commit_ok_mono [OF step inv(2,3) L(6)]] by simp
    moreover have "length es \<le> length (drop (Suc p) L)" using arg_cong [OF L(4), of length] by simp
    then have "es = take (length es) (drop (Suc p) (L @ X))" using L(4) by simp
    ultimately show ?thesis using X L(2,3,5) by (intro exI [of _ "L @ X"]) (simp add: nth_append)
  next
    case False
    show ?thesis using step
    proof cases
      case (a_send q)
      then have new: "l = i" "t = a_term a i" "p = q" "pt = le_term (a_log a i ! q)"
        "es = drop (Suc q) (a_log a i)" "cm = a_commit a i" using m False by auto
      have ok: "commit_ok N a t (a_log a i) cm" using inv(4) new by (simp add: inv_commit_def)
      then have "cm < length (a_log a i)" by (simp add: commit_ok_def)
      then show ?thesis
        using commit_ok_mono [OF step inv(2,3) ok] inv_ldr_role [OF inv(2) a_send(3)] new a_send(1,4) by auto
    qed (use m False in auto)
  qed
qed

lemma commit_prefix_of_leader:
  assumes "inv_safe N a" "commit_ok N a T l n" "h_ldr a T = Some (c, LT)" "n \<noteq> 0"
  shows "take (Suc n) l = take (Suc n) LT"
proof -
  obtain t k L where c: "t \<le> T" "committed N a t k L" "n \<le> k" "take (Suc n) l = take (Suc n) L"
    using assms(2,4) unfolding commit_ok_def by blast
  have "own_entry a t k L" using c(2) by (simp add: committed_def)
  from leader_has_choice(2) [OF assms(1) this committed_choosable [OF c(2)] c(1) assms(3)]
  have "take (Suc n) LT = take (Suc n) L" by (rule take_agree_le) (use c(3) in simp)
  then show ?thesis using c(4) by simp
qed

lemma accepted_commit_ok:
  assumes inv: "inv_commit N a" "inv_safe N a" "inv_log a" "inv_app N a"
    and m: "(l, a_term a i, p, pt, es, cm) \<in> h_app a" "p < length (a_log a i)" "le_term (a_log a i ! p) = pt"
  shows "commit_ok N a (a_term a i) (merge_at (a_log a i) (Suc p) es)
    (if a_commit a i < cm then min cm (p + length es) else a_commit a i)"
proof -
  obtain LT where LT: "h_ldr a (a_term a i) = Some (l, LT)" "logs_match (a_log a i) LT"
    "take (Suc p) (a_log a i) = take (Suc p) LT" "Suc p \<le> length (a_log a i)"
    "es = take (length es) (drop (Suc p) LT)" "p + length es < length LT" "cm \<le> p + length es"
    "commit_ok N a (a_term a i) LT cm"
    using accept_merge [OF inv(3,4) m] by metis
  let ?m = "merge_at (a_log a i) (Suc p) es" and ?ci = "a_commit a i"
  have ci: "commit_ok N a (a_term a i) (a_log a i) ?ci" using inv(1) by (simp add: inv_commit_def)
  have "commit_ok N a (a_term a i) ?m ?ci"
  proof (cases "?ci = 0")
    case True
    then show ?thesis using merge_at_covers(2) [OF LT(2-5)] by (auto simp: commit_ok_def)
  next
    case False
    have eq: "take (Suc ?ci) (a_log a i) = take (Suc ?ci) LT"
      by (rule commit_prefix_of_leader [OF inv(2) ci LT(1) False])
    have "Suc ?ci \<le> length (a_log a i)" using ci by (simp add: commit_ok_def)
    from merge_at_keeps [OF LT(2-5) eq this] show ?thesis
      using commit_ok_agree [OF ci] eq by simp
  qed
  moreover have "commit_ok N a (a_term a i) ?m (min cm (p + length es))"
  proof (rule commit_ok_agree)
    show "commit_ok N a (a_term a i) LT (min cm (p + length es))"
      by (rule commit_ok_le [OF LT(8)]) simp
    show "take (Suc (min cm (p + length es))) ?m = take (Suc (min cm (p + length es))) LT"
      by (rule take_agree_le [OF merge_at_covers(1) [OF LT(2-5)]]) simp
    show "min cm (p + length es) < length ?m" using merge_at_covers(2) [OF LT(2-5)] by simp
  qed
  ultimately show ?thesis by simp
qed

lemma inv_commit_step:
  assumes step: "astep N i a a'"
    and inv: "inv_commit N a" "inv_safe N a" "inv_ldr N a" "inv_vote N a" "inv_log a" "inv_app N a"
  shows "inv_commit N a'"
  unfolding inv_commit_def
proof
  fix j
  have old: "commit_ok N a' (a_term a' j) (a_log a j) (a_commit a j)"
    using commit_ok_mono [OF step inv(3,4) _ astep_mono(1) [OF step]] inv(1) by (simp add: inv_commit_def)
  show "commit_ok N a' (a_term a' j) (a_log a' j) (a_commit a' j)"
    using step
  proof cases
    case (a_propose e)
    then show ?thesis using old commit_ok_append [OF old, of "[e]"] by (cases "j = i") auto
  next
    case (a_accept l p pt es cm)
    show ?thesis
    proof (cases "j = i")
      case True
      have "commit_ok N a (a_term a i) (a_log a' i) (a_commit a' i)"
        using accepted_commit_ok [OF inv(1,2,5,6) a_accept(3,5,6)] a_accept(1) by simp
      then show ?thesis using commit_ok_mono [OF step inv(3,4) _ astep_mono(1) [OF step]] True by simp
    qed (use old a_accept(1) in simp)
  next
    case (a_commit k Q)
    show ?thesis
    proof (cases "j = i")
      case True
      note ldr = inv_ldr_role [OF inv(3) a_commit(3)]
      have "acked a v (a_term a i) k" if "v \<in> Q" for v
        using bspec [OF a_commit(7) that] ldr a_commit(4) by (auto simp: acked_def)
      moreover have "own_entry a (a_term a i) k (a_log a i)"
        using ldr a_commit(4,5) by (simp add: own_entry_def)
      ultimately have "committed N a (a_term a i) k (a_log a i)"
        using a_commit(6) unfolding committed_def by blast
      then have "commit_ok N a (a_term a i) (a_log a i) k"
        unfolding commit_ok_def using a_commit(4) by (intro conjI disjI2 exI) auto
      then show ?thesis
        using commit_ok_mono [OF step inv(3,4) _ astep_mono(1) [OF step]] True a_commit(1) by simp
    qed (use old a_commit(1) in simp)
  qed (use old in auto)
qed

subsection \<open>Every reachable state\<close>

lemma a_inv_init: "a_inv N a_init"
  by (auto simp: a_inv_def a_init_def inv_vote_def inv_req_def inv_ldr_def inv_log_def inv_app_def
      inv_ack_def inv_node_def inv_cand_def inv_safe_def inv_commit_def log_ok_def backed_def
      indexed_from_def sentinel_def own_entry_def commit_ok_def)

lemma a_inv_step:
  assumes step: "astep N i a a'" and "a_inv N a"
  shows "a_inv N a'"
proof -
  have inv: "inv_vote N a" "inv_req N a" "inv_ldr N a" "inv_log a" "inv_app N a" "inv_ack a"
    "inv_node N a" "inv_cand N a" "inv_safe N a" "inv_commit N a"
    using assms(2) by (simp_all add: a_inv_def)
  have v: "inv_vote N a'" by (rule inv_vote_step [OF step inv(1)])
  have r: "inv_req N a'" by (rule inv_req_step [OF step inv(2,4)])
  have l: "inv_ldr N a'" by (rule inv_ldr_step [OF step inv(3,1,2,5)])
  have k: "inv_ack a'" by (rule inv_ack_step [OF step inv(6,4,3,1,5)])
  show ?thesis
    unfolding a_inv_def
    using v r l k inv_log_step [OF step inv(4,3,1,5)] inv_app_step [OF step inv(5,3,1,10)]
      inv_node_step [OF step inv(7,9,6,3,1,2,4,5) k l] inv_cand_step [OF step inv(8,7,6,3,1,2,4) v r]
      inv_safe_step [OF step inv(9,8,6,3,1,2,4)] inv_commit_step [OF step inv(10,9,3,1,4,5)]
    by blast
qed

lemma a_reachable_inv: "a_reachable N a \<Longrightarrow> a_inv N a"
  by (induction rule: a_reachable.induct) (auto intro: a_inv_init a_inv_step)

text \<open>Committed prefixes of any two nodes agree: state machine safety of the specification.\<close>

lemma committed_prefixes_agree:
  assumes inv: "inv_safe N a" and i: "commit_ok N a T l n" and j: "commit_ok N a T' l' n'"
    and ok: "log_ok l" "log_ok l'"
  shows "take (Suc (min n n')) l = take (Suc (min n n')) l'"
proof -
  have first: "take (Suc 0) l = take (Suc 0) l'"
    using log_okD(1,2) [OF ok(1)] log_okD(1,2) [OF ok(2)] by (simp add: take_Suc hd_conv_nth)
  have main: "take (Suc (min n n')) l = take (Suc (min n n')) l'"
    if c: "committed N a t k L" "n \<le> k" "take (Suc n) l = take (Suc n) L"
      and d: "committed N a t' k' L'" "n' \<le> k'" "take (Suc n') l' = take (Suc n') L'" and le: "t \<le> t'"
    for l l' :: "LogEntry list" and n n' t t' k k' L L'
  proof -
    have "own_entry a t k L" "choosable N a t k"
      using c(1) committed_choosable [OF c(1)] by (simp_all add: committed_def)
    moreover obtain c' where "h_ldr a t' = Some (c', L')" using d(1) by (auto simp: committed_def own_entry_def)
    ultimately have LL: "take (Suc k) L' = take (Suc k) L" using leader_has_choice(2) [OF inv] le by blast
    have "take (Suc (min n n')) l = take (Suc (min n n')) L" by (rule take_agree_le [OF c(3)]) simp
    also have "\<dots> = take (Suc (min n n')) L'" by (rule take_agree_le [OF LL [symmetric]]) (use c(2) in simp)
    also have "\<dots> = take (Suc (min n n')) l'" by (rule take_agree_le [OF d(3) [symmetric]]) simp
    finally show ?thesis .
  qed
  show ?thesis
  proof (cases "n = 0 \<or> n' = 0")
    case True
    then show ?thesis using first by auto
  next
    case False
    then obtain t k L t' k' L' where
      "committed N a t k L" "n \<le> k" "take (Suc n) l = take (Suc n) L"
      "committed N a t' k' L'" "n' \<le> k'" "take (Suc n') l' = take (Suc n') L'"
      using i j unfolding commit_ok_def by blast
    then show ?thesis
      using main [of t k L n l t' k' L' n' l'] main [of t' k' L' n' l' t k L n l]
      by (cases "t \<le> t'") (auto simp: min.commute)
  qed
qed

end
