(* ===== verification/Handler_Refinement.thy ===== *)
theory Handler_Refinement
  imports Cluster Abstract_Safety
begin

section \<open>The handlers refine the abstract machine\<close>

text \<open>
  The simulation relation between a cluster of processes and a state of the abstract
  machine, and one lemma per handler that finds the abstract transitions it performs.
\<close>

subsection \<open>The relation\<close>

fun role_of :: "NodeState \<Rightarrow> role" where
  "role_of Follower = RFollower"
| "role_of (Candidate _) = RCandidate"
| "role_of (Leader _ _) = RLeader"

fun state_rel :: "node_id set \<Rightarrow> astate \<Rightarrow> node_id \<Rightarrow> RaftNode \<Rightarrow> NodeState \<Rightarrow> bool" where
  "state_rel N a i n Follower = True"
| "state_rel N a i n (Candidate votes) =
     (leader_id n = None \<and> i \<in> votes \<and> votes \<subseteq> N \<and> (\<forall>v \<in> votes. (v, current_term n, i) \<in> h_vote a))"
| "state_rel N a i n (Leader ni mi) =
     (leader_id n = Some i \<and> hm_inv ni \<and> hm_inv mi \<and> dom (hm_get ni) = N - {i} \<and> dom (hm_get mi) = N - {i}
      \<and> (\<forall>p w. hm_get mi p = Some w \<longrightarrow> w = 0 \<or> (p, current_term n, unat w) \<in> h_ack a)
      \<and> (\<forall>p w. hm_get ni p = Some w \<longrightarrow> w \<noteq> 0 \<and> unat w \<le> length (log n)))"

text \<open>A redirection hint names the node itself when it leads, or the sender of a message of the term.\<close>

definition hint_rel :: "astate \<Rightarrow> node_id \<Rightarrow> RaftNode \<Rightarrow> bool" where
  "hint_rel a i n \<longleftrightarrow> (\<forall>l. leader_id n = Some l \<longrightarrow> (if l = i then is_Leader (state n)
     else \<exists>p pt es cm. (l, current_term n, p, pt, es, cm) \<in> h_app a))"

definition node_rel :: "node_id set \<Rightarrow> astate \<Rightarrow> node_id \<Rightarrow> RaftNode \<Rightarrow> bool" where
  "node_rel N a i n \<longleftrightarrow> self_id n = i \<and> distinct (peers n) \<and> set (peers n) = N - {i}
     \<and> a_term a i = current_term n \<and> a_vote a i = voted_for n \<and> a_log a i = log n
     \<and> a_role a i = role_of (state n) \<and> a_commit a i = unat (committed_index n)
     \<and> last_applied n = committed_index n \<and> state_rel N a i n (state n) \<and> hint_rel a i n"

definition app_rel :: "astate \<Rightarrow> node_id \<Rightarrow> AppendEntriesArgs \<Rightarrow> bool" where
  "app_rel a j args \<longleftrightarrow> ae_leader_id args = j \<and> (j, ae_term args, unat (ae_prev_log_index args), ae_prev_log_term args,
     ae_entries args, unat (ae_leader_commit args)) \<in> h_app a"

definition req_rel :: "astate \<Rightarrow> node_id \<Rightarrow> RequestVoteArgs \<Rightarrow> bool" where
  "req_rel a j args \<longleftrightarrow> rv_candidate_id args = j
     \<and> (j, rv_term args, unat (rv_last_log_index args), rv_last_log_term args) \<in> h_req a"

definition ack_rel :: "astate \<Rightarrow> node_id \<Rightarrow> AppendEntriesReply \<Rightarrow> bool" where
  "ack_rel a j r \<longleftrightarrow> (ar_success r \<longrightarrow> (j, ar_term r, unat (ar_match_index r)) \<in> h_ack a)"

definition vote_rel :: "astate \<Rightarrow> node_id \<Rightarrow> node_id \<Rightarrow> RequestVoteReply \<Rightarrow> bool" where
  "vote_rel a j i r \<longleftrightarrow> (rr_vote_granted r \<longrightarrow> (j, rr_term r, i) \<in> h_vote a)"

definition msg_rel :: "'v codec \<Rightarrow> astate \<Rightarrow> node_id \<Rightarrow> 'v Message \<Rightarrow> bool" where
  "msg_rel c a j m \<longleftrightarrow> m_from m = j \<and>
     (m_type m = ''AppendEntries'' \<longrightarrow> m_to m \<noteq> j \<and>
        (\<exists>x. from_slice_append_entries c (m_payload m) = Some x \<and> app_rel a j x)) \<and>
     (m_type m = ''RequestVote'' \<longrightarrow> m_to m \<noteq> j \<and>
        (\<exists>x. from_slice_request_vote c (m_payload m) = Some x \<and> req_rel a j x)) \<and>
     (m_type m = ''AppendReply'' \<longrightarrow> m_to m \<noteq> j \<and>
        (\<exists>x. from_slice_append_reply c (m_payload m) = Some x \<and> ack_rel a j x)) \<and>
     (m_type m = ''VoteReply'' \<longrightarrow> m_to m \<noteq> j \<and>
        (\<exists>x. from_slice_vote_reply c (m_payload m) = Some x \<and> vote_rel a j (m_to m) x))"

definition applied_rel :: "RaftNode \<Rightarrow> (u64 \<times> string) list \<Rightarrow> bool" where
  "applied_rel n ap \<longleftrightarrow> ap = applied_between (log n) 0 (unat (last_applied n))"

definition process_rel :: "node_id set \<Rightarrow> 'v codec \<Rightarrow> astate \<Rightarrow> node_id \<Rightarrow> ('v, 'g) Process \<Rightarrow> bool" where
  "process_rel N c a i p \<longleftrightarrow> node_rel N a i (node p) \<and> applied_rel (node p) (applied p)
     \<and> (\<forall>m \<in> set (tx p). msg_rel c a i m)"

definition cluster_rel :: "node_id set \<Rightarrow> 'v codec \<Rightarrow> (node_id \<Rightarrow> ('v, 'g) Process) \<Rightarrow> astate \<Rightarrow> bool" where
  "cluster_rel N c s a \<longleftrightarrow> a_inv N a \<and> (\<forall>i \<in> N. process_rel N c a i (s i))"

subsection \<open>Transitions of one node\<close>

definition a_grow :: "node_id \<Rightarrow> astate \<Rightarrow> astate \<Rightarrow> bool" where
  "a_grow i a a' \<longleftrightarrow> (\<forall>j. j \<noteq> i \<longrightarrow> a_term a' j = a_term a j \<and> a_vote a' j = a_vote a j
       \<and> a_role a' j = a_role a j \<and> a_log a' j = a_log a j \<and> a_commit a' j = a_commit a j)
     \<and> h_req a \<subseteq> h_req a' \<and> h_vote a \<subseteq> h_vote a' \<and> h_app a \<subseteq> h_app a' \<and> h_ack a \<subseteq> h_ack a'"

lemma a_grow_refl [simp]: "a_grow i a a"
  by (simp add: a_grow_def)

lemma astep_grow: "astep N i a a' \<Longrightarrow> a_grow i a a'"
  using astep_frame [of N i a a'] astep_mono [of N i a a'] by (simp add: a_grow_def)

lemma a_grow_trans: "a_grow i a b \<Longrightarrow> a_grow i b c \<Longrightarrow> a_grow i a c"
  by (auto simp: a_grow_def)

lemma asteps_grow: "(astep N i)\<^sup>*\<^sup>* a a' \<Longrightarrow> a_grow i a a'"
  by (induction rule: rtranclp_induct) (auto intro: astep_grow a_grow_trans)

lemma asteps_inv: "(astep N i)\<^sup>*\<^sup>* a a' \<Longrightarrow> a_inv N a \<Longrightarrow> a_inv N a'"
  by (induction rule: rtranclp_induct) (auto intro: a_inv_step)

lemma two_asteps: "astep N i a b \<Longrightarrow> astep N i b d \<Longrightarrow> (astep N i)\<^sup>*\<^sup>* a d"
  by (rule converse_rtranclp_into_rtranclp [OF _ r_into_rtranclp])

lemma asteps_astep: "(astep N i)\<^sup>*\<^sup>* a b \<Longrightarrow> astep N i b d \<Longrightarrow> (astep N i)\<^sup>*\<^sup>* a d"
  by (rule rtranclp.rtrancl_into_rtrancl)

lemma state_rel_grow:
  "state_rel N a i n st \<Longrightarrow> h_vote a \<subseteq> h_vote a' \<Longrightarrow> h_ack a \<subseteq> h_ack a' \<Longrightarrow> state_rel N a' i n st"
  by (cases st) (auto, blast+)

lemma hint_rel_grow: "hint_rel a i n \<Longrightarrow> h_app a \<subseteq> h_app a' \<Longrightarrow> hint_rel a' i n"
  unfolding hint_rel_def by (meson subsetD)

lemma hint_rel_simps [simp]:
  "leader_id n = None \<Longrightarrow> hint_rel a i n"
  "leader_id n = Some i \<Longrightarrow> is_Leader (state n) \<Longrightarrow> hint_rel a i n"
  by (simp_all add: hint_rel_def)

lemma hint_rel_cong:
  "hint_rel a i n \<Longrightarrow> leader_id n' = leader_id n \<Longrightarrow> current_term n' = current_term n
    \<Longrightarrow> (is_Leader (state n) \<Longrightarrow> is_Leader (state n')) \<Longrightarrow> hint_rel a i n'"
  by (auto simp: hint_rel_def)

lemma hint_rel_sender:
  "l \<noteq> i \<Longrightarrow> (l, current_term n, p, pt, es, cm) \<in> h_app a \<Longrightarrow> leader_id n = Some l \<Longrightarrow> hint_rel a i n"
  by (auto simp: hint_rel_def)

lemma hint_rel_voted: "hint_rel a i n \<Longrightarrow> h_app a' = h_app a \<Longrightarrow> hint_rel a' i (n\<lparr>voted_for := v\<rparr>)"
  by (simp add: hint_rel_def)

lemma node_rel_grow: "a_grow i a a' \<Longrightarrow> j \<noteq> i \<Longrightarrow> node_rel N a j n \<Longrightarrow> node_rel N a' j n"
  by (auto simp: node_rel_def a_grow_def intro: state_rel_grow hint_rel_grow)

lemma msg_rel_grow: "a_grow i a a' \<Longrightarrow> msg_rel c a j m \<Longrightarrow> msg_rel c a' j m"
  unfolding msg_rel_def app_rel_def req_rel_def ack_rel_def vote_rel_def a_grow_def by blast

lemma node_relD:
  assumes "node_rel N a i n"
  shows "self_id n = i" "distinct (peers n)" "set (peers n) = N - {i}" "a_term a i = current_term n"
    "a_vote a i = voted_for n" "a_log a i = log n" "a_role a i = role_of (state n)"
    "a_commit a i = unat (committed_index n)" "last_applied n = committed_index n"
    "state_rel N a i n (state n)" "hint_rel a i n"
  using assms by (simp_all add: node_rel_def)

lemma node_rel_log:
  assumes "node_rel N a i n" "a_inv N a"
  shows "log_ok (log n)" "log n \<noteq> []" "unat (le_index (last (log n))) = length (log n) - 1"
    "unat (committed_index n) < length (log n)"
proof -
  have inv: "inv_log a" "inv_commit N a" using assms(2) by (simp_all add: a_inv_def)
  show ok: "log_ok (log n)" using inv_logD(1) [OF inv(1), of i] node_relD(6) [OF assms(1)] by simp
  then show ne: "log n \<noteq> []" by (rule log_okD)
  show "unat (le_index (last (log n))) = length (log n) - 1"
    using log_okD(3) [OF ok] ne by (simp add: indexed_from_def last_conv_nth)
  show "unat (committed_index n) < length (log n)"
    using spec [OF inv(2) [unfolded inv_commit_def commit_ok_def], of i] node_relD(6,8) [OF assms(1)] by simp
qed


subsection \<open>The outcome of a handler\<close>

text \<open>
  What has to be shown of a handler that takes \<open>n\<close> to \<open>n'\<close> with the effects \<open>fx\<close>: some
  transitions of the node lead to a related state, what it sends is in the history, and
  what it applies continues what was applied before.
\<close>

fun send_ok :: "node_id set \<Rightarrow> astate \<Rightarrow> node_id \<Rightarrow> SideEffect \<Rightarrow> bool" where
  "send_ok N a i (BroadcastRequestVote x) = req_rel a i x"
| "send_ok N a i (BroadcastAppendEntries x) = app_rel a i x"
| "send_ok N a i (SendAppendEntries p x) = (p \<noteq> i \<and> app_rel a i x)"
| "send_ok N a i _ = True"

definition outcome ::
    "node_id set \<Rightarrow> astate \<Rightarrow> node_id \<Rightarrow> (u64 \<times> string) list \<Rightarrow> RaftNode \<Rightarrow> SideEffect list \<Rightarrow> astate \<Rightarrow> bool" where
  "outcome N a i ap n' fx a' \<longleftrightarrow> (astep N i)\<^sup>*\<^sup>* a a' \<and> node_rel N a' i n'
     \<and> (\<forall>e \<in> set (sends fx). send_ok N a' i e) \<and> applied_rel n' (ap @ applies fx)"

lemma outcome_stay:
  "node_rel N a i n \<Longrightarrow> applied_rel n ap \<Longrightarrow> sends fx = [] \<Longrightarrow> applies fx = [] \<Longrightarrow> outcome N a i ap n fx a"
  by (simp add: outcome_def)

lemma sim_observe:
  assumes "node_rel N a i n" "i \<in> N"
  shows "\<exists>a'. (astep N i)\<^sup>*\<^sup>* a a' \<and> node_rel N a' i (observe n t)"
proof (cases "current_term n < t")
  case True
  let ?a = "a\<lparr>a_term := (a_term a)(i := t), a_vote := (a_vote a)(i := None), a_role := (a_role a)(i := RFollower)\<rparr>"
  have "astep N i a ?a" using True assms by (intro astep.a_newer_term) (simp_all add: node_rel_def)
  moreover have "node_rel N ?a i (observe n t)" using True assms(1) by (simp add: node_rel_def observe_def)
  ultimately show ?thesis by blast
qed (use assms(1) in auto)

lemma applied_rel_observe [simp]: "applied_rel (observe n t) ap = applied_rel n ap"
  by (simp add: applied_rel_def)

lemma outcome_observe:
  assumes "node_rel N a i n" "i \<in> N" "applied_rel n ap" "sends fx = []" "applies fx = []"
  shows "\<exists>a'. outcome N a i ap (observe n t) fx a'"
  using sim_observe [OF assms(1,2), of t] assms(3-5) by (auto simp: outcome_def)

lemma applied_between_cong:
  assumes "take (Suc b) l = take (Suc b) l'" "b < length l" "b < length l'"
  shows "applied_between l 0 b = applied_between l' 0 b"
proof -
  have "l ! k = l' ! k" if "k \<le> b" for k using take_agree_nth [OF assms(1)] that by simp
  then show ?thesis using assms(2,3) by (simp add: applied_between_inside del: upt_Suc)
qed

lemma applied_rel_continue:
  assumes "applied_rel n ap" "unat (last_applied n) \<le> unat (last_applied n')"
    and "take (Suc (unat (last_applied n))) (log n') = take (Suc (unat (last_applied n))) (log n)"
    and "unat (last_applied n) < length (log n)" "unat (last_applied n) < length (log n')"
    and "applies fx = applied_between (log n') (unat (last_applied n)) (unat (last_applied n'))"
  shows "applied_rel n' (ap @ applies fx)"
  using assms applied_between_append [of 0 "unat (last_applied n)" "unat (last_applied n')" "log n'"]
    applied_between_cong [OF assms(3,5,4)]
  by (simp add: applied_rel_def)

subsection \<open>Append messages\<close>

lemma segment_indexed:
  assumes "log_ok L" "es = take (length es) (drop (Suc p) L)"
  shows "indexed_from (Suc p) es"
  unfolding indexed_from_def
proof (intro allI impI)
  fix k assume k: "k < length es"
  have "length es \<le> length L - Suc p" using arg_cong [OF assms(2), of length] by simp
  then have b: "Suc p + k < length L" using k by simp
  have "es ! k = take (length es) (drop (Suc p) L) ! k" by (rule arg_cong [OF assms(2)])
  also have "\<dots> = L ! (Suc p + k)" using k b by simp
  finally have "es ! k = L ! (Suc p + k)" .
  then show "unat (le_index (es ! k)) = Suc p + k"
    using log_okD(3) [OF assms(1)] b by (simp add: indexed_from_def)
qed

lemma last_new_index_position:
  "indexed_from (Suc (unat prev)) es \<Longrightarrow> unat (last_new_index prev es) = unat prev + length es"
  by (cases es rule: rev_cases) (auto simp: last_new_index_def indexed_from_def nth_append)

lemma unat_follower_commit:
  "unat (follower_commit ci lc ln) = (if unat ci < unat lc then min (unat lc) (unat ln) else unat ci)"
  by (simp add: follower_commit_def word_less_nat_alt min_def word_le_nat_alt)

text \<open>Accepting a message never changes what was committed before.\<close>

lemma accept_keeps_committed:
  assumes "a_inv N a" "(l, a_term a i, p, pt, es, cm) \<in> h_app a"
    and "p < length (a_log a i)" "le_term (a_log a i ! p) = pt"
  shows "take (Suc (a_commit a i)) (merge_at (a_log a i) (Suc p) es) = take (Suc (a_commit a i)) (a_log a i)"
    "a_commit a i < length (merge_at (a_log a i) (Suc p) es)"
proof -
  have inv: "inv_log a" "inv_app N a" "inv_safe N a" "inv_commit N a" using assms(1) by (simp_all add: a_inv_def)
  obtain L where L: "h_ldr a (a_term a i) = Some (l, L)" "logs_match (a_log a i) L"
    "take (Suc p) (a_log a i) = take (Suc p) L" "Suc p \<le> length (a_log a i)"
    "es = take (length es) (drop (Suc p) L)"
    using accept_merge [OF inv(1,2) assms(2-4)] by metis
  let ?ci = "a_commit a i"
  have ci: "commit_ok N a (a_term a i) (a_log a i) ?ci" using inv(4) by (simp add: inv_commit_def)
  have eq: "take (Suc ?ci) (a_log a i) = take (Suc ?ci) L"
  proof (cases "?ci = 0")
    case True
    then show ?thesis using take_agree_le [OF L(3)] by simp
  next
    case False
    then show ?thesis by (rule commit_prefix_of_leader [OF inv(3) ci L(1)])
  qed
  have "Suc ?ci \<le> length (a_log a i)" using ci by (simp add: commit_ok_def)
  from merge_at_keeps [OF L(2-5) eq this]
  show "take (Suc ?ci) (merge_at (a_log a i) (Suc p) es) = take (Suc ?ci) (a_log a i)"
    "?ci < length (merge_at (a_log a i) (Suc p) es)" using eq by auto
qed

text \<open>
  The two branches of a message that is not stale: \<open>b\<close> is the specification's state after the
  node has taken over the term of the message.
\<close>

lemma sim_append_mismatch:
  assumes rel: "node_rel N b i (observe n (ae_term args))" and iN: "i \<in> N" and li: "l \<noteq> i"
    and steps: "(astep N i)\<^sup>*\<^sup>* a b" and ap: "applied_rel n ap" and new: "\<not> ae_term args < current_term n"
    and msg: "(l, a_term b i, p, pt, es, cm) \<in> h_app b" and lid: "ae_leader_id args = l"
    and mismatch: "\<not> has_matching_prev_entry n (ae_prev_log_index args) (ae_prev_log_term args)"
    and step: "handle_append_entries n args = (n', r, fx)"
  shows "\<exists>a'. outcome N a i ap n' fx a' \<and> ack_rel a' i r"
proof -
  let ?b = "b\<lparr>a_role := (a_role b)(i := RFollower)\<rparr>"
  let ?n = "(observe n (ae_term args))\<lparr>leader_id := Some (ae_leader_id args), state := Follower\<rparr>"
  have st: "astep N i b ?b" by (rule astep.a_demote [OF iN msg li])
  obtain fx' where res: "handle_append_entries n args = (?n, reject_append_entries ?n, fx')"
    "sends fx' = []" "applies fx' = []"
    using handle_append_entries_mismatch [OF new mismatch] by blast
  have "hint_rel ?b i ?n"
    using msg node_relD(4) [OF rel] lid by (intro hint_rel_sender [OF li, of _ p pt es cm]) simp_all
  then have "node_rel N ?b i ?n" using rel by (simp add: node_rel_def)
  then have "outcome N a i ap n' fx ?b"
    using res step steps st ap by (auto simp: outcome_def applied_rel_def)
  moreover have "ack_rel ?b i r" using res step by (simp add: ack_rel_def reject_append_entries_def Let_def)
  ultimately show ?thesis by blast
qed

text \<open>The node after accepting a message, and what the abstract transition makes of it.\<close>

definition accepted_node :: "RaftNode \<Rightarrow> AppendEntriesArgs \<Rightarrow> RaftNode" where
  "accepted_node n args =
     (let ci = follower_commit (committed_index n) (ae_leader_commit args)
                 (last_new_index (ae_prev_log_index args) (ae_entries args))
      in (observe n (ae_term args))\<lparr>leader_id := Some (ae_leader_id args), state := Follower,
           log := merge_at (log n) (Suc (unat (ae_prev_log_index args))) (ae_entries args), committed_index := ci,
           last_applied := (if committed_index n < ci then max (last_applied n) ci else last_applied n)\<rparr>)"

definition accepted_state :: "astate \<Rightarrow> node_id \<Rightarrow> nat \<Rightarrow> LogEntry list \<Rightarrow> nat \<Rightarrow> astate" where
  "accepted_state b i p es cm = b\<lparr>a_role := (a_role b)(i := RFollower),
     a_log := (a_log b)(i := merge_at (a_log b i) (Suc p) es),
     a_commit := (a_commit b)(i := (if a_commit b i < cm then min cm (p + length es) else a_commit b i)),
     h_ack := insert (i, a_term b i, p + length es) (h_ack b)\<rparr>"

lemma accepted_commit:
  assumes "last_applied n = committed_index n" "indexed_from (Suc (unat (ae_prev_log_index args))) (ae_entries args)"
    and "unat (ae_leader_commit args) \<le> unat (ae_prev_log_index args) + length (ae_entries args)"
  shows "unat (committed_index (accepted_node n args)) = (if unat (committed_index n) < unat (ae_leader_commit args)
      then min (unat (ae_leader_commit args)) (unat (ae_prev_log_index args) + length (ae_entries args))
      else unat (committed_index n))"
    "committed_index n \<le> committed_index (accepted_node n args)"
    "last_applied (accepted_node n args) = committed_index (accepted_node n args)"
proof -
  let ?ci = "follower_commit (committed_index n) (ae_leader_commit args)
    (last_new_index (ae_prev_log_index args) (ae_entries args))"
  have ci: "committed_index (accepted_node n args) = ?ci" by (simp add: accepted_node_def Let_def)
  show u: "unat (committed_index (accepted_node n args)) = (if unat (committed_index n) < unat (ae_leader_commit args)
      then min (unat (ae_leader_commit args)) (unat (ae_prev_log_index args) + length (ae_entries args))
      else unat (committed_index n))"
    by (simp add: ci unat_follower_commit last_new_index_position [OF assms(2)])
  then show le: "committed_index n \<le> committed_index (accepted_node n args)"
    using assms(3) by (auto simp: word_le_nat_alt)
  show "last_applied (accepted_node n args) = committed_index (accepted_node n args)"
    using le assms(1) unfolding ci by (auto simp: accepted_node_def Let_def max_def)
qed

lemma sim_append_match:
  assumes inv: "a_inv N b" and rel: "node_rel N b i (observe n (ae_term args))" and iN: "i \<in> N" and li: "l \<noteq> i"
    and steps: "(astep N i)\<^sup>*\<^sup>* a b" and ap: "applied_rel n ap" and new: "\<not> ae_term args < current_term n"
    and msg: "(l, a_term b i, unat (ae_prev_log_index args), ae_prev_log_term args, ae_entries args,
      unat (ae_leader_commit args)) \<in> h_app b" and lid: "ae_leader_id args = l"
    and match: "has_matching_prev_entry n (ae_prev_log_index args) (ae_prev_log_term args)"
    and step: "handle_append_entries n args = (n', r, fx)"
  shows "\<exists>a'. outcome N a i ap n' fx a' \<and> ack_rel a' i r"
proof -
  let ?p = "unat (ae_prev_log_index args)" and ?es = "ae_entries args" and ?lc = "unat (ae_leader_commit args)"
  let ?n = "accepted_node n args" and ?b = "accepted_state b i ?p ?es ?lc"
  have b: "a_term b i = ae_term args" "a_log b i = log n" "a_commit b i = unat (committed_index n)"
    "last_applied n = committed_index n"
    using node_relD(4,6,8,9) [OF rel] new by (simp_all add: max_absorb2)
  have pm: "?p < length (a_log b i)" "le_term (a_log b i ! ?p) = ae_prev_log_term args"
    using match b(2) by (auto simp: has_matching_prev_entry_def vec_get_def split: if_splits)
  have inv': "inv_log b" "inv_app N b" using inv by (simp_all add: a_inv_def)
  obtain L where L: "h_ldr b (a_term b i) = Some (l, L)" "?es = take (length ?es) (drop (Suc ?p) L)"
    "?lc \<le> ?p + length ?es"
    using accept_merge [OF inv' msg pm] by metis
  have idx: "indexed_from (Suc ?p) ?es"
    by (rule segment_indexed [OF inv_log_ldrD(1) [OF inv'(1) L(1)] L(2)])
  note ci = accepted_commit [OF b(4) idx L(3)]
  obtain fx' where res: "handle_append_entries n args = (?n, \<lparr>ar_term = current_term ?n, ar_success = True,
      ar_match_index = last_new_index (ae_prev_log_index args) ?es\<rparr>, fx')"
    "sends fx' = []" "applies fx' = applied_between (log ?n) (unat (last_applied n)) (unat (last_applied ?n))"
    using handle_append_entries_accept [OF new match idx] ci(2,3) b(4)
    by (auto simp: accepted_node_def Let_def)
  have st: "astep N i b ?b" unfolding accepted_state_def by (rule astep.a_accept [OF iN msg li pm])
  have "hint_rel ?b i ?n"
    using msg node_relD(4) [OF rel] lid
    by (intro hint_rel_sender [OF li]) (simp_all add: accepted_state_def accepted_node_def Let_def)
  then have "node_rel N ?b i ?n"
    using rel b ci by (simp add: node_rel_def accepted_state_def) (simp add: accepted_node_def Let_def)
  moreover have "applied_rel ?n (ap @ applies fx')"
  proof (rule applied_rel_continue [OF ap])
    show "unat (last_applied n) \<le> unat (last_applied ?n)" using ci(2,3) b(4) by (simp add: word_le_nat_alt)
    show "take (Suc (unat (last_applied n))) (log ?n) = take (Suc (unat (last_applied n))) (log n)"
      "unat (last_applied n) < length (log ?n)"
      using accept_keeps_committed [OF inv msg pm] b by (simp_all add: accepted_node_def Let_def)
    show "unat (last_applied n) < length (log n)" using node_rel_log(4) [OF rel inv] b(4) by simp
  qed (rule res(3))
  ultimately have "outcome N a i ap n' fx ?b" using res step steps st by (simp add: outcome_def)
  moreover have "ack_rel ?b i r"
    using res(1) step last_new_index_position [OF idx] b(1) new
    by (auto simp: ack_rel_def accepted_state_def accepted_node_def Let_def max_def)
  ultimately show ?thesis by blast
qed

lemma sim_append_entries:
  assumes inv: "a_inv N a" and rel: "node_rel N a i n" and iN: "i \<in> N" and li: "l \<noteq> i"
    and msg: "app_rel a l args" and ap: "applied_rel n ap"
    and step: "handle_append_entries n args = (n', r, fx)"
  shows "\<exists>a'. outcome N a i ap n' fx a' \<and> ack_rel a' i r"
proof (cases "ae_term args < current_term n")
  case True
  then show ?thesis
    using handle_append_entries_stale [OF True] step outcome_stay [OF rel ap]
    by (auto simp: ack_rel_def reject_append_entries_def Let_def)
next
  case False
  obtain b where b: "(astep N i)\<^sup>*\<^sup>* a b" "node_rel N b i (observe n (ae_term args))"
    using sim_observe [OF rel iN] by blast
  have "a_term b i = ae_term args" using node_relD(4) [OF b(2)] False by (simp add: max_absorb2)
  then have msg_b: "(l, a_term b i, unat (ae_prev_log_index args), ae_prev_log_term args, ae_entries args,
      unat (ae_leader_commit args)) \<in> h_app b"
    using msg asteps_grow [OF b(1)] by (auto simp: app_rel_def a_grow_def)
  have lid: "ae_leader_id args = l" using msg by (simp add: app_rel_def)
  show ?thesis
    using sim_append_mismatch [OF b(2) iN li b(1) ap False msg_b lid _ step]
      sim_append_match [OF asteps_inv [OF b(1) inv] b(2) iN li b(1) ap False msg_b lid _ step] by blast
qed


subsection \<open>Elections\<close>

lemma sim_request_vote:
  assumes inv: "a_inv N a" and rel: "node_rel N a i n" and iN: "i \<in> N"
    and msg: "req_rel a cd args" and ap: "applied_rel n ap"
    and step: "handle_request_vote n args = Inr (n', r, fx)"
  shows "\<exists>a'. outcome N a i ap n' fx a' \<and> vote_rel a' i cd r"
proof -
  obtain fx' where res: "handle_request_vote n args = Inr
      (if grants_vote n args then (observe n (rv_term args))\<lparr>voted_for := Some (rv_candidate_id args)\<rparr>
       else observe n (rv_term args),
       \<lparr>rr_term = max (current_term n) (rv_term args), rr_vote_granted = grants_vote n args\<rparr>, fx')"
    "sends fx' = []" "applies fx' = []"
    using handle_request_vote_eq [OF node_rel_log(2) [OF rel inv]] by blast
  obtain b where b: "(astep N i)\<^sup>*\<^sup>* a b" "node_rel N b i (observe n (rv_term args))"
    using sim_observe [OF rel iN] by blast
  show ?thesis
  proof (cases "grants_vote n args")
    case False
    then have "outcome N a i ap n' fx b" using res step b ap by (auto simp: outcome_def)
    moreover have "vote_rel b i cd r" using res step False by (auto simp: vote_rel_def)
    ultimately show ?thesis by blast
  next
    case True
    have cd: "rv_candidate_id args = cd" using msg by (simp add: req_rel_def)
    have term_b: "a_term b i = rv_term args" "a_vote b i = voted_for (observe n (rv_term args))" "a_log b i = log n"
      using node_relD(4,5,6) [OF b(2)] True by (auto simp: max_def grants_vote_def)
    have req: "(cd, a_term b i, unat (rv_last_log_index args), rv_last_log_term args) \<in> h_req b"
      using msg asteps_grow [OF b(1)] term_b(1) by (auto simp: req_rel_def a_grow_def)
    have up: "le_term (last (a_log b i)) < rv_last_log_term args
        \<or> le_term (last (a_log b i)) = rv_last_log_term args \<and> length (a_log b i) - 1 \<le> unat (rv_last_log_index args)"
      using True node_rel_log(3) [OF rel inv] term_b(3)
      by (auto simp: grants_vote_def entry_pos_def request_pos_def less_eq_log_pos_def word_le_nat_alt)
    let ?b = "b\<lparr>a_vote := (a_vote b)(i := Some cd), h_vote := insert (i, a_term b i, cd) (h_vote b)\<rparr>"
    have st: "astep N i b ?b"
      by (rule astep.a_grant [OF iN req _ up]) (use True term_b(2) cd in \<open>simp add: grants_vote_def\<close>)
    have "state_rel N ?b i (observe n (rv_term args)) (state (observe n (rv_term args)))"
      by (rule state_rel_grow [OF node_relD(10) [OF b(2)]]) auto
    then have "state_rel N ?b i ((observe n (rv_term args))\<lparr>voted_for := Some cd\<rparr>) (state (observe n (rv_term args)))"
      by (cases "state (observe n (rv_term args))") auto
    then have "node_rel N ?b i ((observe n (rv_term args))\<lparr>voted_for := Some cd\<rparr>)"
      using b(2) hint_rel_voted [OF node_relD(11) [OF b(2)]] by (simp add: node_rel_def)
    then have "outcome N a i ap n' fx ?b"
      using res step True b(1) st ap cd by (auto simp: outcome_def applied_rel_def)
    moreover have "vote_rel ?b i cd r"
      using res step True term_b(1) by (auto simp: vote_rel_def grants_vote_def max_def)
    ultimately show ?thesis by blast
  qed
qed

lemma sim_election_timeout:
  assumes inv: "a_inv N a" and rel: "node_rel N a i n" and iN: "i \<in> N" and ap: "applied_rel n ap"
    and step: "handle_election_timeout n = Inr (n', fx)"
  shows "\<exists>a'. outcome N a i ap n' fx a'"
proof (cases "is_Leader (state n)")
  case True
  then show ?thesis
    using step outcome_stay [OF rel ap, of "[]"] by (auto simp: handle_election_timeout_leader)
next
  case False
  let ?t = "current_term n + 1"
  obtain fx' where res: "unat ?t = Suc (unat (current_term n))"
    "handle_election_timeout n = Inr (candidacy n, fx')"
    "sends fx' = [BroadcastRequestVote (vote_request (candidacy n))]" "applies fx' = []"
    using handle_election_timeout_eq [OF node_rel_log(2) [OF rel inv] False] step by auto
  let ?a = "a\<lparr>a_term := (a_term a)(i := ?t), a_vote := (a_vote a)(i := Some i), a_role := (a_role a)(i := RCandidate),
      h_req := insert (i, ?t, length (a_log a i) - 1, le_term (last (a_log a i))) (h_req a),
      h_vote := insert (i, ?t, i) (h_vote a)\<rparr>"
  have "a_term a i < ?t" using res(1) node_relD(4) [OF rel] by (simp add: word_less_nat_alt)
  then have st: "astep N i a ?a" by (rule astep.a_timeout [OF iN])
  have "node_rel N ?a i (candidacy n)" using rel iN by (simp add: node_rel_def candidacy_def)
  moreover have "req_rel ?a i (vote_request (candidacy n))"
    using node_rel_log(3) [OF rel inv] node_relD(1,6) [OF rel]
    by (simp add: req_rel_def vote_request_def candidacy_def)
  ultimately have "outcome N a i ap n' fx ?a"
    using res step st ap by (auto simp: outcome_def applied_rel_def candidacy_def)
  then show ?thesis by blast
qed

lemma cluster_size: "node_rel N a i n \<Longrightarrow> i \<in> N \<Longrightarrow> finite N \<Longrightarrow> card N = length (peers n) + 1"
  using node_relD(2,3) [of N a i n] by (metis Suc_eq_plus1 card.remove distinct_card)

text \<open>Winning an election is two transitions: becoming leader and sending the first heartbeat.\<close>

lemma fresh_leader_rel:
  assumes inv: "a_inv N a" and rel: "node_rel N a i n"
    and nx: "peers n \<noteq> [] \<longrightarrow> unat (le_index (last (log n)) + 1) = Suc (unat (le_index (last (log n))))"
  shows "state_rel N b i (leadership n) (state (leadership n))"
proof -
  let ?ni = "fill (peers n) (le_index (last (log n)) + 1) []" and ?mi = "fill (peers n) 0 []"
  have maps: "hm_inv ?ni" "hm_inv ?mi"
    "\<And>q. hm_get ?ni q = (if q \<in> set (peers n) then Some (le_index (last (log n)) + 1) else None)"
    "\<And>q. hm_get ?mi q = (if q \<in> set (peers n) then Some 0 else None)"
    using fill_get [OF hm_inv_Nil] by auto
  have dom: "dom (hm_get ?ni) = N - {i}" "dom (hm_get ?mi) = N - {i}"
    by (auto simp: dom_def maps(3,4) node_relD(3) [OF rel])
  have "le_index (last (log n)) + 1 \<noteq> 0 \<and> unat (le_index (last (log n)) + 1) \<le> length (log n)"
    if "q \<in> set (peers n)" for q
  proof -
    have "unat (le_index (last (log n)) + 1) = length (log n)"
      using nx that node_rel_log(2,3) [OF rel inv] by auto
    then show ?thesis using node_rel_log(2) [OF rel inv] by (metis length_0_conv order_refl unat_0)
  qed
  then show ?thesis using maps dom node_relD(1) [OF rel] by (simp add: leadership_def)
qed

lemma sim_become_leader:
  assumes inv: "a_inv N a" and rel: "node_rel N a i n" and iN: "i \<in> N" and ap: "applied_rel n ap"
    and st: "state n = Candidate vs" and maj: "majority N vs" and votes: "\<forall>v \<in> vs. (v, current_term n, i) \<in> h_vote a"
    and step: "become_leader n se = Inr (n', fx)" and se: "sends se = []" "applies se = []"
  shows "\<exists>a'. outcome N a i ap n' fx a'"
proof -
  note ne = node_rel_log(2) [OF rel inv]
  obtain gx where res: "peers n \<noteq> [] \<longrightarrow> unat (le_index (last (log n)) + 1) = Suc (unat (le_index (last (log n))))"
    "become_leader n se = Inr (leadership n, se @ gx)"
    "sends gx = [BroadcastAppendEntries (first_heartbeat n)]" "applies gx = []"
    using become_leader_eq [OF ne, of se] step by auto
  let ?b = "a\<lparr>a_role := (a_role a)(i := RLeader), h_ldr := (h_ldr a)(a_term a i \<mapsto> (i, a_log a i))\<rparr>"
  let ?p = "length (log n) - 1"
  let ?b' = "?b\<lparr>h_app := insert (i, a_term ?b i, ?p, le_term (a_log ?b i ! ?p), drop (Suc ?p) (a_log ?b i),
    a_commit ?b i) (h_app ?b)\<rparr>"
  have st1: "astep N i a ?b"
    by (rule astep.a_win [OF iN _ maj]) (use node_relD(4,7) [OF rel] st votes in simp_all)
  have p: "?p < length (a_log ?b i)" using ne node_relD(6) [OF rel] by simp
  have st2: "astep N i ?b ?b'" by (rule astep.a_send [OF iN _ p]) simp
  have "node_rel N ?b' i (leadership n)"
    using rel fresh_leader_rel [OF inv rel res(1), of ?b'] by (simp add: node_rel_def leadership_def)
  moreover have "app_rel ?b' i (first_heartbeat n)"
    using node_relD(1,4,6,8) [OF rel] node_rel_log(2,3) [OF rel inv]
    by (simp add: app_rel_def first_heartbeat_def last_conv_nth)
  ultimately have "outcome N a i ap n' fx ?b'"
    using res se step two_asteps [OF st1 st2] ap by (auto simp: outcome_def applied_rel_def leadership_def)
  then show ?thesis by blast
qed

lemma sim_request_vote_reply:
  assumes inv: "a_inv N a" and rel: "node_rel N a i n" and iN: "i \<in> N" and fin: "finite N" and jN: "j \<in> N"
    and msg: "vote_rel a j i r" and ap: "applied_rel n ap"
    and step: "handle_request_vote_reply n j r = Inr (n', fx)"
  shows "\<exists>a'. outcome N a i ap n' fx a'"
proof (cases "current_term n < rr_term r")
  case True
  then obtain gx where "handle_request_vote_reply n j r = Inr (observe n (rr_term r), gx)"
    "sends gx = []" "applies gx = []"
    using handle_request_vote_reply_newer by blast
  then show ?thesis using outcome_observe [OF rel iN ap] step by auto
next
  case le: False
  show ?thesis
  proof (cases "counts_vote n r")
    case False
    then obtain gx where "handle_request_vote_reply n j r = Inr (n, gx)" "sends gx = []" "applies gx = []"
      using handle_request_vote_reply_ignored [OF le] by blast
    then show ?thesis using outcome_stay [OF rel ap] step by auto
  next
    case True
    then obtain vs where vs: "state n = Candidate vs" "rr_term r = current_term n" "rr_vote_granted r"
      by (auto simp: counts_vote_def split: NodeState.splits)
    let ?n = "with_vote n j" and ?vs = "insert j vs"
    have vrel: "?vs \<subseteq> N" "\<forall>v \<in> ?vs. (v, current_term n, i) \<in> h_vote a"
      using node_relD(10) [OF rel] vs msg jN by (auto simp: vote_rel_def)
    have rel': "node_rel N a i ?n" using rel vs vrel by (simp add: node_rel_def with_vote_def)
    obtain se where se: "sends se = []" "applies se = []"
      "handle_request_vote_reply n j r = (if (length (peers n) + 1) div 2 < card ?vs
        then become_leader ?n se else Inr (?n, se))"
      using handle_request_vote_reply_counted [OF True, of j] vs(1) by auto
    have ap': "applied_rel ?n ap" using ap by (simp add: applied_rel_def with_vote_def)
    show ?thesis
    proof (cases "(length (peers n) + 1) div 2 < card ?vs")
      case False
      then show ?thesis using se step outcome_stay [OF rel' ap'] by auto
    next
      case won: True
      have maj: "majority N ?vs"
        using won vrel(1) fin cluster_size [OF rel iN fin] by (simp add: majority_def)
      have st: "state ?n = Candidate ?vs" using vs(1) by (simp add: with_vote_def)
      have ct: "\<forall>v \<in> ?vs. (v, current_term ?n, i) \<in> h_vote a" using vrel(2) by (simp add: with_vote_def)
      show ?thesis by (rule sim_become_leader [OF inv rel' iN ap' st maj ct _ se(1,2)]) (use se(3) step won in simp)
    qed
  qed
qed


subsection \<open>The leader\<close>

text \<open>The message the leader builds for a next index inside its log is in the specification.\<close>

definition sent_app :: "node_id \<Rightarrow> astate \<Rightarrow> nat \<Rightarrow> astate" where
  "sent_app i a p = a\<lparr>h_app := insert (i, a_term a i, p, le_term (a_log a i ! p),
     drop (Suc p) (a_log a i), a_commit a i) (h_app a)\<rparr>"

lemma astep_sent_app:
  "i \<in> N \<Longrightarrow> a_role a i = RLeader \<Longrightarrow> p < length (a_log a i) \<Longrightarrow> astep N i a (sent_app i a p)"
  unfolding sent_app_def by (rule astep.a_send)

lemma node_rel_sent_app:
  assumes "node_rel N a i n"
  shows "node_rel N (sent_app i a p) i n"
proof -
  have "state_rel N (sent_app i a p) i n (state n)" "hint_rel (sent_app i a p) i n"
    by (rule state_rel_grow [OF node_relD(10) [OF assms]] hint_rel_grow [OF node_relD(11) [OF assms]];
        force simp: sent_app_def)+
  then show ?thesis using assms by (simp add: node_rel_def sent_app_def)
qed

lemma append_args_sent:
  assumes "node_rel N a i n" "next \<noteq> 0" "unat next \<le> length (log n)"
  shows "app_rel (sent_app i a (unat next - 1)) i (append_args n next)"
    "unat next - 1 < length (a_log a i)"
proof -
  have u: "unat (next - 1) = unat next - 1" "0 < unat next"
    using assms(2) unat_pred [OF assms(2)] by (auto simp: unat_gt_0)
  then show "unat next - 1 < length (a_log a i)" using assms(3) node_relD(6) [OF assms(1)] by simp
  then show "app_rel (sent_app i a (unat next - 1)) i (append_args n next)"
    using u node_relD(1,4,6,8) [OF assms(1)]
    by (simp add: app_rel_def sent_app_def append_args_def vec_get_def)
qed

lemma app_rel_grow: "a_grow i a a' \<Longrightarrow> app_rel a j x \<Longrightarrow> app_rel a' j x"
  by (auto simp: app_rel_def a_grow_def)

lemma next_index_ok:
  assumes "node_rel N a i n" "state n = Leader ni mi" "log n \<noteq> []"
  shows "next_index_of ni p \<noteq> 0" "unat (next_index_of ni p) \<le> length (log n)"
proof -
  have "next_index_of ni p \<noteq> 0 \<and> unat (next_index_of ni p) \<le> length (log n)"
  proof (cases "hm_get ni p")
    case None
    then show ?thesis using assms(3) by (simp add: next_index_of_def Suc_le_eq)
  next
    case (Some w)
    then show ?thesis using node_relD(10) [OF assms(1)] assms(2) by (simp add: next_index_of_def)
  qed
  then show "next_index_of ni p \<noteq> 0" "unat (next_index_of ni p) \<le> length (log n)" by auto
qed

text \<open>A series of messages to peers, one transition each.\<close>

lemma sim_send_list:
  assumes "node_rel N a i n" "i \<in> N" "a_role a i = RLeader"
    and "\<forall>p \<in> set ps. f p \<noteq> 0 \<and> unat (f p) \<le> length (log n)"
  shows "\<exists>a'. (astep N i)\<^sup>*\<^sup>* a a' \<and> node_rel N a' i n \<and> (\<forall>p \<in> set ps. app_rel a' i (append_args n (f p)))"
  using assms
proof (induction ps arbitrary: a)
  case Nil
  then show ?case by auto
next
  case (Cons p ps)
  let ?b = "sent_app i a (unat (f p) - 1)"
  note sent = append_args_sent [OF Cons.prems(1), of "f p"]
  have st: "astep N i a ?b" using Cons.prems sent by (intro astep_sent_app) auto
  have rel: "node_rel N ?b i n" by (rule node_rel_sent_app [OF Cons.prems(1)])
  obtain a' where a': "(astep N i)\<^sup>*\<^sup>* ?b a'" "node_rel N a' i n" "\<forall>p \<in> set ps. app_rel a' i (append_args n (f p))"
    using Cons.IH [OF rel] Cons.prems by (auto simp: sent_app_def)
  have "app_rel a' i (append_args n (f p))"
    using sent Cons.prems(4) app_rel_grow [OF asteps_grow [OF a'(1)]] by simp
  then show ?case using a' converse_rtranclp_into_rtranclp [of "astep N i", OF st a'(1)] by auto
qed

lemma sim_heartbeat_timeout:
  assumes inv: "a_inv N a" and rel: "node_rel N a i n" and iN: "i \<in> N" and ap: "applied_rel n ap"
    and step: "handle_heartbeat_timeout n = (n', fx)"
  shows "\<exists>a'. outcome N a i ap n' fx a'"
proof (cases "is_Leader (state n)")
  case False
  then show ?thesis
    using step outcome_stay [OF rel ap, of "[]"] by (auto simp: handle_heartbeat_timeout_other)
next
  case True
  then obtain ni mi where st: "state n = Leader ni mi" by (rule is_LeaderE)
  note nx = next_index_ok [OF rel st node_rel_log(2) [OF rel inv]]
  obtain a' where a': "(astep N i)\<^sup>*\<^sup>* a a'" "node_rel N a' i n"
    "\<forall>p \<in> set (peers n). app_rel a' i (append_args n (next_index_of ni p))"
    using sim_send_list [OF rel iN, of "peers n" "next_index_of ni"] node_relD(7) [OF rel] st nx by auto
  then have "outcome N a i ap n' fx a'"
    using handle_heartbeat_timeout_leader [OF st] step ap node_relD(3) [OF rel]
    by (auto simp: outcome_def)
  then show ?thesis by blast
qed

lemma sim_propose_command:
  assumes inv: "a_inv N a" and rel: "node_rel N a i n" and iN: "i \<in> N" and ap: "applied_rel n ap"
    and step: "propose_command n cmd = Inr (n', info, fx)"
  shows "\<exists>a'. outcome N a i ap n' fx a'"
proof (cases "is_Leader (state n)")
  case False
  then show ?thesis
    using propose_command_other [OF False, of cmd] step outcome_stay [OF rel ap] by auto
next
  case True
  then obtain ni mi where st: "state n = Leader ni mi" by (rule is_LeaderE)
  note log = node_rel_log [OF rel inv]
  let ?i = "le_index (last (log n)) + 1"
  let ?e = "\<lparr>le_term = current_term n, le_index = ?i, le_command = cmd\<rparr>"
  obtain fx' where res: "unat ?i = Suc (unat (le_index (last (log n))))"
    "propose_command n cmd = Inr (proposal n cmd, Some (?i, current_term n), fx')"
    "sends fx' = [BroadcastAppendEntries (append_args (proposal n cmd) ?i)]" "applies fx' = []"
    using propose_command_leader [OF log(2) True, of cmd] step by auto
  have ui: "unat ?i = length (log n)" using res(1) log(2,3) by simp
  let ?b = "a\<lparr>a_log := (a_log a)(i := a_log a i @ [?e]), h_ldr := (h_ldr a)(a_term a i \<mapsto> (i, a_log a i @ [?e]))\<rparr>"
  have st1: "astep N i a ?b"
    by (rule astep.a_propose [OF iN]) (use ui node_relD(4,6,7) [OF rel] st in simp_all)
  have rel_b: "node_rel N ?b i (proposal n cmd)"
    using rel st by (fastforce simp: node_rel_def proposal_def)
  have i0: "?i \<noteq> 0" using ui log(2) by (metis length_0_conv unat_0)
  have ulen: "unat ?i \<le> length (log (proposal n cmd))" using ui by (simp add: proposal_def)
  note sent = append_args_sent [OF rel_b i0 ulen]
  have st2: "astep N i ?b (sent_app i ?b (unat ?i - 1))"
    by (rule astep_sent_app [OF iN _ sent(2)]) (use node_relD(7) [OF rel] st in simp)
  have "applied_rel (proposal n cmd) (ap @ applies [])"
    by (rule applied_rel_continue [OF ap])
      (use log(4) node_relD(9) [OF rel] in \<open>simp_all add: proposal_def\<close>)
  then have "outcome N a i ap n' fx (sent_app i ?b (unat ?i - 1))"
    using res step two_asteps [OF st1 st2] node_rel_sent_app [OF rel_b] sent(1) by (simp add: outcome_def)
  then show ?thesis by blast
qed

lemma sim_client_request:
  assumes "a_inv N a" "node_rel N a i n" "i \<in> N" "applied_rel n ap"
    and "handle_client_request n args = Inr (n', r, fx)"
  shows "\<exists>a'. outcome N a i ap n' fx a'"
proof -
  obtain info where "propose_command n (cr_command args) = Inr (n', info, fx)"
    using assms(5) by (auto simp: handle_client_request_def res_simps split: option.splits prod.splits)
  then show ?thesis by (rule sim_propose_command [OF assms(1-4)])
qed

subsection \<open>Replies to append messages\<close>

lemma sim_rejected:
  assumes inv: "a_inv N a" and rel: "node_rel N a i n" and iN: "i \<in> N" and ap: "applied_rel n ap"
    and j: "j \<in> N - {i}" and st: "state n = Leader ni mi"
    and r: "ar_term r = current_term n" "\<not> ar_success r"
    and step: "handle_append_entries_reply n j r = Inr (n', fx)"
  shows "\<exists>a'. outcome N a i ap n' fx a'"
proof -
  let ?w = "retry_index (ar_match_index r) (next_index_of ni j)"
  let ?n = "rejected_by n j (ar_match_index r)"
  obtain fx' where res: "handle_append_entries_reply n j r = Inr (?n, fx')"
    "sends fx' = [SendAppendEntries j (append_args ?n ?w)]" "applies fx' = []"
    using handle_append_entries_reply_failure [OF r(1) _ r(2), of j] st by auto
  note nx = next_index_ok [OF rel st node_rel_log(2) [OF rel inv], of j]
  have w: "?w \<noteq> 0" "unat ?w \<le> length (log n)"
    using retry_index_pos retry_index_le [OF nx(1), of "ar_match_index r"] nx(2) by (auto simp: word_le_nat_alt)
  have n_eq: "state ?n = Leader (hm_insert j ?w ni) mi" "log ?n = log n"
    using st by (simp_all add: rejected_by_def Let_def)
  have "state_rel N a i n (Leader (hm_insert j ?w ni) mi)"
    using node_relD(10) [OF rel] st w j by (auto simp: hm.inv_insert hm.lookup_insert hm.dom_insert)
  then have rel': "node_rel N a i ?n"
    using rel st by (simp add: node_rel_def rejected_by_def Let_def hint_rel_def)
  note sent = append_args_sent [OF rel' w(1), unfolded n_eq(2), OF w(2)]
  have st1: "astep N i a (sent_app i a (unat ?w - 1))"
    by (rule astep_sent_app [OF iN _ sent(2)]) (use node_relD(7) [OF rel] st in simp)
  have "outcome N a i ap n' fx (sent_app i a (unat ?w - 1))"
    using res step st1 node_rel_sent_app [OF rel'] sent(1) ap j
    by (auto simp: outcome_def applied_rel_def rejected_by_def Let_def)
  then show ?thesis by blast
qed

lemma accepted_node_rel:
  assumes inv: "a_inv N a" and rel: "node_rel N a i n" and j: "j \<in> N - {i}" and st: "state n = Leader ni mi"
    and r: "(j, current_term n, unat m) \<in> h_ack a" and m: "unat (m + 1) = Suc (unat m)"
  shows "node_rel N a i (accepted_by n j m)"
proof -
  have inv': "inv_ack a" "inv_ldr N a" using inv by (simp_all add: a_inv_def)
  have ldr: "h_ldr a (current_term n) = Some (i, log n)"
    using inv_ldr_role [OF inv'(2), of i] node_relD(4,6,7) [OF rel] st by simp
  from inv'(1) r obtain c L where "h_ldr a (current_term n) = Some (c, L)" "unat m < length L" by (rule inv_ackD)
  then have ml: "unat (m + 1) \<le> length (log n)" using ldr m by simp
  have "m + 1 \<noteq> 0" using m by (metis nat.distinct(1) unat_0)
  then have "state_rel N a i n (state (accepted_by n j m))"
    using node_relD(10) [OF rel] st ml j r
    by (auto simp: accepted_by_def Let_def hm.inv_insert hm.lookup_insert hm.dom_insert)
  then have "state_rel N a i (accepted_by n j m) (state (accepted_by n j m))"
    by (cases "state (accepted_by n j m)") (auto simp: accepted_by_def Let_def)
  then show ?thesis using rel st by (simp add: node_rel_def accepted_by_def Let_def hint_rel_def)
qed

text \<open>The median rule has a quorum behind it.\<close>

lemma commit_quorum:
  assumes inv: "a_inv N a" and rel: "node_rel N a i n" and iN: "i \<in> N" and fin: "finite N"
    and st: "state n = Leader ni mi" and may: "may_commit n"
  shows "\<exists>Q. majority N Q \<and> (\<forall>v \<in> Q. v = i \<or> (\<exists>m \<ge> unat (commit_candidate n). (v, current_term n, m) \<in> h_ack a))"
proof -
  let ?v = "commit_candidate n" and ?x = "le_index (last (log n))"
  define arr where "arr = sort (hm_values mi @ [?x])"
  have s: "hm_inv mi" "dom (hm_get mi) = set (peers n)"
    "\<And>p w. hm_get mi p = Some w \<Longrightarrow> w = 0 \<or> (p, current_term n, unat w) \<in> h_ack a"
    using node_relD(3,10) [OF rel] st by auto
  have v: "?v = arr ! median_index (length arr) (length (peers n) + 1)"
    using st by (simp add: commit_candidate_def arr_def Let_def)
  have "?v \<le> ?x" using may node_rel_log(2,3) [OF rel inv] by (auto simp: may_commit_def word_le_nat_alt)
  from median_majority [OF s(1,2) node_relD(2) [OF rel] _ arr_def v this, of i]
  have "majority N (insert i {p \<in> set (peers n). ?v \<le> the (hm_get mi p)})"
    using node_relD(3) [OF rel] iN by (simp add: insert_absorb)
  moreover have "\<exists>m \<ge> unat ?v. (p, current_term n, m) \<in> h_ack a"
    if p: "p \<in> set (peers n)" "?v \<le> the (hm_get mi p)" for p
  proof -
    obtain w where w: "hm_get mi p = Some w" using s(2) p(1) by blast
    have "0 < ?v" using may by (auto simp: may_commit_def intro: order_le_less_trans [of 0 "committed_index n"])
    then have "w \<noteq> 0" using p(2) w by auto
    then show ?thesis using s(3) [OF w] p(2) w by (auto simp: word_le_nat_alt)
  qed
  ultimately show ?thesis by (intro exI conjI) auto
qed

lemma sim_accepted:
  assumes inv: "a_inv N a" and rel: "node_rel N a i n" and iN: "i \<in> N" and fin: "finite N"
    and ap: "applied_rel n ap" and st: "state n = Leader ni mi" and may: "may_commit n"
    and fx: "sends fx = []" "applies fx = applied_between (log n) (unat (last_applied n)) (unat (commit_candidate n))"
  shows "\<exists>a'. outcome N a i ap (committed_upto n (commit_candidate n)) fx a'"
proof -
  let ?v = "commit_candidate n" and ?n = "committed_upto n (commit_candidate n)"
  obtain Q where Q: "majority N Q" "\<forall>v \<in> Q. v = i \<or> (\<exists>m \<ge> unat ?v. (v, a_term a i, m) \<in> h_ack a)"
    using commit_quorum [OF inv rel iN fin st may] node_relD(4) [OF rel] by auto
  let ?b = "a\<lparr>a_commit := (a_commit a)(i := unat ?v)\<rparr>"
  have st1: "astep N i a ?b"
    by (rule astep.a_commit [OF iN _ _ _ Q]) (use may node_relD(4,6,7) [OF rel] st in \<open>simp_all add: may_commit_def\<close>)
  have la: "last_applied ?n = ?v" "committed_index n < ?v"
    using may node_relD(9) [OF rel] by (auto simp: committed_upto_def may_commit_def max_def)
  have "state_rel N ?b i ?n (state n)" using node_relD(10) [OF rel] st by (auto simp: committed_upto_def)
  then have "node_rel N ?b i ?n" using rel la by (simp add: node_rel_def committed_upto_def hint_rel_def)
  moreover have "applied_rel ?n (ap @ applies fx)"
  proof (rule applied_rel_continue [OF ap])
    show "unat (last_applied n) \<le> unat (last_applied ?n)"
      using la node_relD(9) [OF rel] by (simp add: word_less_nat_alt)
    show "unat (last_applied n) < length (log n)" "unat (last_applied n) < length (log ?n)"
      using node_rel_log(4) [OF rel inv] node_relD(9) [OF rel] by (simp_all add: committed_upto_def)
    show "applies fx = applied_between (log ?n) (unat (last_applied n)) (unat (last_applied ?n))"
      using fx(2) la(1) by (simp add: committed_upto_def)
  qed (simp add: committed_upto_def)
  ultimately have "outcome N a i ap ?n fx ?b" using st1 fx(1) by (auto simp: outcome_def)
  then show ?thesis by blast
qed

lemma sim_append_entries_reply:
  assumes inv: "a_inv N a" and rel: "node_rel N a i n" and iN: "i \<in> N" and fin: "finite N"
    and j: "j \<in> N - {i}" and msg: "ack_rel a j r" and ap: "applied_rel n ap"
    and step: "handle_append_entries_reply n j r = Inr (n', fx)"
  shows "\<exists>a'. outcome N a i ap n' fx a'"
proof -
  consider (newer) "current_term n < ar_term r"
    | (ignored) "\<not> current_term n < ar_term r" "ar_term r \<noteq> current_term n \<or> \<not> is_Leader (state n)"
    | (failure) "ar_term r = current_term n" "is_Leader (state n)" "\<not> ar_success r"
    | (success) "ar_term r = current_term n" "is_Leader (state n)" "ar_success r"
    by blast
  then show ?thesis
  proof cases
    case newer
    then obtain gx where "handle_append_entries_reply n j r = Inr (observe n (ar_term r), gx)"
      "sends gx = []" "applies gx = []"
      using handle_append_entries_reply_newer by blast
    then show ?thesis using outcome_observe [OF rel iN ap] step by auto
  next
    case ignored
    then obtain gx where "handle_append_entries_reply n j r = Inr (n, gx)" "sends gx = []" "applies gx = []"
      using handle_append_entries_reply_ignored by blast
    then show ?thesis using outcome_stay [OF rel ap] step by auto
  next
    case failure
    then obtain ni mi where st: "state n = Leader ni mi" by (auto elim: is_LeaderE)
    show ?thesis by (rule sim_rejected [OF inv rel iN ap j st failure(1,3) step])
  next
    case success
    then obtain ni mi where st: "state n = Leader ni mi" by (auto elim: is_LeaderE)
    let ?n = "accepted_by n j (ar_match_index r)"
    obtain gx where res: "unat (ar_match_index r + 1) = Suc (unat (ar_match_index r))"
      "handle_append_entries_reply n j r = Inr (if may_commit ?n then committed_upto ?n (commit_candidate ?n) else ?n, gx)"
      "sends gx = []" "applies gx = (if may_commit ?n
         then applied_between (log n) (unat (last_applied n)) (unat (commit_candidate ?n)) else [])"
      using handle_append_entries_reply_success [OF success node_rel_log(2) [OF rel inv], of j] step by auto
    have "(j, current_term n, unat (ar_match_index r)) \<in> h_ack a" using msg success by (simp add: ack_rel_def)
    note rel' = accepted_node_rel [OF inv rel j st this res(1)]
    obtain ni' mi' where st': "state ?n = Leader ni' mi'" "log ?n = log n" "last_applied ?n = last_applied n"
      by (auto simp: accepted_by_def Let_def)
    then have ap': "applied_rel ?n ap" using ap by (simp add: applied_rel_def)
    show ?thesis
    proof (cases "may_commit ?n")
      case True
      have "applies gx = applied_between (log ?n) (unat (last_applied ?n)) (unat (commit_candidate ?n))"
        using res(4) True st' by simp
      from sim_accepted [OF inv rel' iN fin ap' st'(1) True res(3) this] show ?thesis using True res(2) step by simp
    next
      case False
      then show ?thesis using outcome_stay [OF rel' ap' res(3)] res(2,4) step by auto
    qed
  qed
qed

end
