(* ===== verification/Cluster_Refinement.thy ===== *)
theory Cluster_Refinement
  imports Handler_Refinement
begin

section \<open>The cluster refines the abstract machine\<close>

text \<open>
  From handlers to processes and from processes to the cluster: what a process puts on its
  channel is in the history, so whatever the relay delivers is something the specification
  knows; a message or a tick is then a sequence of transitions of one node. The
  simulation is an instance of the interface \<open>forward_simulation\<close>.
\<close>

subsection \<open>What leaves a node\<close>

lemma msg_rel_append_entries:
  assumes "serde_codec c" "self_id n = j" "i \<noteq> j" "app_rel a j x"
  shows "msg_rel c a j (envelope n i ''AppendEntries'' (to_value_append_entries c x))"
  using assms serde_codec.rt_append_entries [OF assms(1)] by (simp add: msg_rel_def envelope_def)

lemma msg_rel_request_vote:
  assumes "serde_codec c" "self_id n = j" "i \<noteq> j" "req_rel a j x"
  shows "msg_rel c a j (envelope n i ''RequestVote'' (to_value_request_vote c x))"
  using assms serde_codec.rt_request_vote [OF assms(1)] by (simp add: msg_rel_def envelope_def)

lemma msg_rel_append_reply:
  assumes "serde_codec c" "self_id n = j" "i \<noteq> j" "ack_rel a j x"
  shows "msg_rel c a j (envelope n i ''AppendReply'' (to_value_append_reply c x))"
  using assms serde_codec.rt_append_reply [OF assms(1)] by (simp add: msg_rel_def envelope_def)

lemma msg_rel_vote_reply:
  assumes "serde_codec c" "self_id n = j" "i \<noteq> j" "vote_rel a j i x"
  shows "msg_rel c a j (envelope n i ''VoteReply'' (to_value_vote_reply c x))"
  using assms serde_codec.rt_vote_reply [OF assms(1)] by (simp add: msg_rel_def envelope_def)

lemma msg_rel_client_reply:
  "self_id n = j \<Longrightarrow> msg_rel c a j (envelope n i ''ClientReply'' v)"
  by (simp add: msg_rel_def envelope_def)

lemma effect_messages_rel:
  assumes "serde_codec c" "node_rel N a i n" "send_ok N a i e" "m \<in> set (effect_messages c n e)"
  shows "msg_rel c a i m"
proof -
  have n: "self_id n = i" "\<And>q. q \<in> set (peers n) \<Longrightarrow> q \<noteq> i"
    using node_relD(1,3) [OF assms(2)] by auto
  show ?thesis
    using assms(3,4) n
    by (cases e) (auto intro: msg_rel_append_entries [OF assms(1)] msg_rel_request_vote [OF assms(1)])
qed

lemma messages_rel:
  assumes "serde_codec c" "node_rel N a i n" "\<forall>e \<in> set (sends fx). send_ok N a i e"
  shows "\<forall>m \<in> set (messages_of c n (sends fx)). msg_rel c a i m"
  using assms(3) effect_messages_rel [OF assms(1,2)] by (auto simp: messages_of_def)

text \<open>A handler's outcome becomes the process that has carried out its effects.\<close>

lemma process_done:
  assumes "serde_codec c" "process_rel N c a i p" "outcome N a i (applied p) n' fx a'"
    and "node q = n'" "tx q = tx p @ ms" "applied q = applied p"
    and "\<forall>m \<in> set ms. msg_rel c a' i m"
  shows "(astep N i)\<^sup>*\<^sup>* a a'" "process_rel N c a' i (execute_effects c gen fx q)"
proof -
  have o: "(astep N i)\<^sup>*\<^sup>* a a'" "node_rel N a' i n'" "\<forall>e \<in> set (sends fx). send_ok N a' i e"
    "applied_rel n' (applied p @ applies fx)"
    using assms(3) by (simp_all add: outcome_def)
  show "(astep N i)\<^sup>*\<^sup>* a a'" by (rule o(1))
  have "\<forall>m \<in> set (tx p). msg_rel c a' i m"
    using assms(2) msg_rel_grow [OF asteps_grow [OF o(1)]] by (auto simp: process_rel_def)
  then show "process_rel N c a' i (execute_effects c gen fx q)"
    using o messages_rel [OF assms(1) o(2,3)] assms(4-7)
    by (auto simp: process_rel_def execute_effects_out)
qed

text \<open>
  What is to be shown of one step of a process: some transitions of its node lead to a
  related state. A panic changes nothing but the poison flag.
\<close>

definition follows :: "node_id set \<Rightarrow> 'v codec \<Rightarrow> astate \<Rightarrow> node_id \<Rightarrow> ('v, 'g) Process \<Rightarrow> bool" where
  "follows N c a i p' \<longleftrightarrow> (\<exists>a'. (astep N i)\<^sup>*\<^sup>* a a' \<and> process_rel N c a' i p')"

lemma follows_stay: "process_rel N c a i p \<Longrightarrow> follows N c a i p"
  unfolding follows_def by blast

lemma process_rel_cong:
  "process_rel N c a i p \<Longrightarrow> node q = node p \<Longrightarrow> tx q = tx p \<Longrightarrow> applied q = applied p \<Longrightarrow> process_rel N c a i q"
  by (simp add: process_rel_def)

lemma follows_poisoned: "process_rel N c a i p \<Longrightarrow> follows N c a i (p\<lparr>poisoned := True\<rparr>)"
  by (rule follows_stay) (simp add: process_rel_def)

lemma follows_deliver:
  assumes "process_rel N c a i p" "\<And>p'. handle_message c gen p m = Inr p' \<Longrightarrow> follows N c a i p'"
  shows "follows N c a i (deliver c gen m p)"
  by (cases c gen m p rule: deliver_cases) (use assms follows_stay follows_poisoned in auto)

lemma follows_tick:
  assumes "process_rel N c a i p" "\<And>p'. tick_body c gen p = Inr p' \<Longrightarrow> follows N c a i p'"
  shows "follows N c a i (tick c gen p)"
  by (cases c gen p rule: tick_cases) (use assms follows_stay follows_poisoned in auto)

lemma follows_done:
  assumes "serde_codec c" "process_rel N c a i p" "outcome N a i (applied p) n' fx a'"
    and "node q = n'" "tx q = tx p @ ms" "applied q = applied p"
    and "\<forall>m \<in> set ms. msg_rel c a' i m"
  shows "follows N c a i (execute_effects c gen fx q)"
  using process_done [OF assms] unfolding follows_def by blast

lemma follows_quiet:
  assumes "serde_codec c" "process_rel N c a i p" "\<exists>a'. outcome N a i (applied p) n' fx a'"
    and "node q = n'" "tx q = tx p" "applied q = applied p"
  shows "follows N c a i (execute_effects c gen fx q)"
  using assms follows_done [of c N a i p n' fx _ q "[]"] by auto

lemma process_relD:
  assumes "process_rel N c a i p"
  shows "node_rel N a i (node p)" "applied_rel (node p) (applied p)"
  using assms by (simp_all add: process_rel_def)

lemma outcome_self_id: "outcome N a i ap n' fx a' \<Longrightarrow> self_id n' = i"
  by (auto simp: outcome_def node_rel_def)

subsection \<open>Messages and ticks\<close>

text \<open>One lemma for each message, then their composition.\<close>

lemma sim_msg_append_entries:
  assumes "serde_codec c" "a_inv N a" "process_rel N c a i p" "i \<in> N" "msg_rel c a j m" "m_to m = i"
    and "handle_message c gen p m = Inr p'" "m_type m = ''AppendEntries''"
  shows "follows N c a i p'"
proof -
  note prel = process_relD [OF assms(3)]
  obtain x where x: "from_slice_append_entries c (m_payload m) = Some x" "app_rel a j x" "j \<noteq> i" and m_from: "m_from m = j"
    using assms(5,6,8) by (auto simp: msg_rel_def)
  obtain n' r fx where h: "handle_append_entries (node p) x = (n', r, fx)" by (cases "handle_append_entries (node p) x")
  obtain a' where a': "outcome N a i (applied p) n' fx a'" "ack_rel a' i r"
    using sim_append_entries [OF assms(2) prel(1) assms(4) x(3,2) prel(2) h] by blast
  have "p' = execute_effects c gen fx (send (p\<lparr>node := n'\<rparr>) (envelope n' j ''AppendReply'' (to_value_append_reply c r)))"
    using assms(7,8) x(1) h m_from by (simp add: handle_message_def Let_def)
  then show ?thesis
    using msg_rel_append_reply [OF assms(1) outcome_self_id [OF a'(1)] x(3) a'(2)]
    by (simp add: follows_done [OF assms(1,3) a'(1)])
qed

lemma sim_msg_request_vote:
  assumes "serde_codec c" "a_inv N a" "process_rel N c a i p" "i \<in> N" "msg_rel c a j m" "m_to m = i"
    and "handle_message c gen p m = Inr p'" "m_type m = ''RequestVote''"
  shows "follows N c a i p'"
proof -
  note prel = process_relD [OF assms(3)]
  obtain x where x: "from_slice_request_vote c (m_payload m) = Some x" "req_rel a j x" "j \<noteq> i" and m_from: "m_from m = j"
    using assms(5,6,8) by (auto simp: msg_rel_def)
  obtain n' r fx where h: "handle_request_vote (node p) x = Inr (n', r, fx)"
    and p': "p' = execute_effects c gen fx (send (p\<lparr>node := n'\<rparr>) (envelope n' j ''VoteReply'' (to_value_vote_reply c r)))"
    using assms(7,8) x(1) m_from by (auto simp: handle_message_def Let_def res_simps)
  obtain a' where a': "outcome N a i (applied p) n' fx a'" "vote_rel a' i j r"
    using sim_request_vote [OF assms(2) prel(1) assms(4) x(2) prel(2) h] by blast
  show ?thesis
    using msg_rel_vote_reply [OF assms(1) outcome_self_id [OF a'(1)] x(3) a'(2)] p'
    by (simp add: follows_done [OF assms(1,3) a'(1)])
qed

lemma sim_msg_append_reply:
  assumes "serde_codec c" "a_inv N a" "process_rel N c a i p" "i \<in> N" "msg_rel c a j m" "m_to m = i" "finite N" "j \<in> N"
    and "handle_message c gen p m = Inr p'" "m_type m = ''AppendReply''"
  shows "follows N c a i p'"
proof -
  note prel = process_relD [OF assms(3)]
  obtain x where x: "from_slice_append_reply c (m_payload m) = Some x" "ack_rel a j x" "j \<noteq> i" and m_from: "m_from m = j"
    using assms(5,6,10) by (auto simp: msg_rel_def)
  obtain n' fx where h: "handle_append_entries_reply (node p) j x = Inr (n', fx)"
    and p': "p' = execute_effects c gen fx (p\<lparr>node := n'\<rparr>)"
    using assms(9,10) x(1) m_from by (auto simp: handle_message_def res_simps)
  have "j \<in> N - {i}" using assms(8) x(3) by simp
  from sim_append_entries_reply [OF assms(2) prel(1) assms(4,7) this x(2) prel(2) h]
  show ?thesis unfolding p' by (rule follows_quiet [OF assms(1,3)]) simp_all
qed

lemma sim_msg_vote_reply:
  assumes "serde_codec c" "a_inv N a" "process_rel N c a i p" "i \<in> N" "msg_rel c a j m" "m_to m = i" "finite N" "j \<in> N"
    and "handle_message c gen p m = Inr p'" "m_type m = ''VoteReply''"
  shows "follows N c a i p'"
proof -
  note prel = process_relD [OF assms(3)]
  obtain x where x: "from_slice_vote_reply c (m_payload m) = Some x" "vote_rel a j i x" and m_from: "m_from m = j"
    using assms(5,6,10) by (auto simp: msg_rel_def)
  obtain n' fx where h: "handle_request_vote_reply (node p) j x = Inr (n', fx)"
    and p': "p' = execute_effects c gen fx (p\<lparr>node := n'\<rparr>)"
    using assms(9,10) x(1) m_from by (auto simp: handle_message_def res_simps)
  from sim_request_vote_reply [OF assms(2) prel(1) assms(4,7,8) x(2) prel(2) h]
  show ?thesis unfolding p' by (rule follows_quiet [OF assms(1,3)]) simp_all
qed

lemma sim_msg_client_request:
  assumes "serde_codec c" "a_inv N a" "process_rel N c a i p" "i \<in> N"
    and "handle_message c gen p m = Inr p'" "m_type m = ''ClientRequest''"
  shows "follows N c a i p'"
proof -
  note prel = process_relD [OF assms(3)]
  obtain x n' r fx where h: "handle_client_request (node p) x = Inr (n', r, fx)"
    and p': "p' = execute_effects c gen fx (send (p\<lparr>node := n'\<rparr>) (envelope n' (m_from m) ''ClientReply'' (to_value_client_reply c r)))"
    using assms(5,6) by (auto simp: handle_message_def Let_def res_simps)
  obtain a' where a': "outcome N a i (applied p) n' fx a'"
    using sim_client_request [OF assms(2) prel(1) assms(4) prel(2) h] by blast
  show ?thesis
    using msg_rel_client_reply [OF outcome_self_id [OF a'], of c a'] p'
    by (simp add: follows_done [OF assms(1,3) a'])
qed

lemma sim_msg_other:
  assumes "process_rel N c a i p" "handle_message c gen p m = Inr p'" "m_type m \<notin> insert ''ClientRequest'' node_message_types"
  shows "follows N c a i p'"
proof -
  have "p' = p" using assms(2,3) by (simp add: handle_message_def node_message_types_def)
  then show ?thesis using follows_stay [OF assms(1)] by simp
qed

lemma sim_deliver:
  assumes ser: "serde_codec c" and inv: "a_inv N a" and rel: "process_rel N c a i p"
    and iN: "i \<in> N" and fin: "finite N" and jN: "j \<in> N" and msg: "msg_rel c a j m" and to: "m_to m = i"
  shows "follows N c a i (deliver c gen m p)"
proof (rule follows_deliver [OF rel])
  fix p' assume step: "handle_message c gen p m = Inr p'"
  show "follows N c a i p'"
    using sim_msg_append_entries [OF ser inv rel iN msg to step] sim_msg_request_vote [OF ser inv rel iN msg to step]
      sim_msg_append_reply [OF ser inv rel iN msg to fin jN step] sim_msg_vote_reply [OF ser inv rel iN msg to fin jN step]
      sim_msg_client_request [OF ser inv rel iN step] sim_msg_other [OF rel step]
    by (auto simp: node_message_types_def)
qed

text \<open>A client's message needs no relation: nothing the nodes rely on comes from it.\<close>

lemma sim_client:
  assumes "serde_codec c" "a_inv N a" "process_rel N c a i p" "i \<in> N" "m_type m \<notin> node_message_types"
  shows "follows N c a i (deliver c gen m p)"
proof (rule follows_deliver [OF assms(3)])
  show "follows N c a i p'" if "handle_message c gen p m = Inr p'" for p'
    using sim_msg_client_request [OF assms(1-4) that] sim_msg_other [OF assms(3) that] assms(5) by auto
qed

lemma follows_engine: "follows N c a i p \<Longrightarrow> follows N c a i (p\<lparr>engine := e\<rparr>)"
  by (auto simp: follows_def process_rel_def)

lemma sim_tick:
  assumes ser: "serde_codec c" and inv: "a_inv N a" and rel: "process_rel N c a i p" and iN: "i \<in> N"
  shows "follows N c a i (tick c gen p)"
proof (rule follows_tick [OF rel])
  fix p' assume step: "tick_body c gen p = Inr p'"
  note prel = process_relD [OF rel]
  show "follows N c a i p'"
  proof (cases "is_Leader (state (node p))")
    case True
    then obtain h where h: "add_u64 (heartbeat_tick_count (engine p)) 1 = Inr h"
      using step by (auto simp: tick_body_def res_simps Let_def)
    obtain n' fx where n': "handle_heartbeat_timeout (node p) = (n', fx)" by fastforce
    define q where "q = p\<lparr>engine := (engine p)\<lparr>heartbeat_tick_count := h\<rparr>\<rparr>"
    define r where "r = (if heartbeat_interval \<le> h then execute_effects c gen fx (q\<lparr>node := n'\<rparr>) else q)"
    have p': "p' = r\<lparr>engine := (engine r)\<lparr>election_tick_count := 0\<rparr>\<rparr>"
      using step True h n' by (cases "heartbeat_interval \<le> h") (simp_all add: tick_body_def Let_def q_def r_def)
    have "follows N c a i r"
    proof (cases "heartbeat_interval \<le> h")
      case True
      then show ?thesis
        by (simp add: r_def q_def follows_quiet [OF ser rel sim_heartbeat_timeout [OF inv prel(1) iN prel(2) n']])
    next
      case False
      then show ?thesis using follows_engine [OF follows_stay [OF rel]] by (simp add: r_def q_def)
    qed
    then show ?thesis unfolding p' by (rule follows_engine)
  next
    case False
    then obtain k where k: "add_u64 (election_tick_count (engine p)) 1 = Inr k"
      using step by (auto simp: tick_body_def res_simps Let_def)
    define q where "q = p\<lparr>engine := (engine p)\<lparr>election_tick_count := k\<rparr>\<rparr>"
    show ?thesis
    proof (cases "election_timeout_limit (engine q) \<le> k")
      case True
      then obtain n' fx where n': "handle_election_timeout (node p) = Inr (n', fx)"
        and p': "p' = execute_effects c gen fx (q\<lparr>node := n'\<rparr>)"
        using step False k by (auto simp: tick_body_def res_simps Let_def q_def)
      from sim_election_timeout [OF inv prel(1) iN prel(2) n'] show ?thesis
        unfolding p' by (rule follows_quiet [OF ser rel]) (simp_all add: q_def)
    next
      case not_yet: False
      then have "p' = q" using step False k by (simp add: tick_body_def Let_def q_def)
      then show ?thesis using follows_engine [OF follows_stay [OF rel]] by (simp add: q_def)
    qed
  qed
qed

subsection \<open>The cluster\<close>

lemma process_rel_grow:
  "a_grow i a a' \<Longrightarrow> j \<noteq> i \<Longrightarrow> process_rel N c a j p \<Longrightarrow> process_rel N c a' j p"
  by (auto simp: process_rel_def intro: node_rel_grow msg_rel_grow)

lemma cluster_step_of_follows:
  assumes rel: "cluster_rel N c s a" and follows: "follows N c a i p'"
  shows "\<exists>a'. (astep N i)\<^sup>*\<^sup>* a a' \<and> cluster_rel N c (s(i := p')) a'"
proof -
  obtain a' where a': "(astep N i)\<^sup>*\<^sup>* a a'" "process_rel N c a' i p'"
    using follows by (auto simp: follows_def)
  have "a_inv N a'" using rel by (auto simp: cluster_rel_def intro: asteps_inv [OF a'(1)])
  then have "cluster_rel N c (s(i := p')) a'"
    using rel a'(2) by (simp add: cluster_rel_def process_rel_grow [OF asteps_grow [OF a'(1)]])
  then show ?thesis using a'(1) by blast
qed

lemma sim_cluster:
  assumes "serde_codec c" "finite N" "cluster_rel N c s a" "cstep N c gen s s'"
  shows "\<exists>i a'. (astep N i)\<^sup>*\<^sup>* a a' \<and> cluster_rel N c s' a'"
proof -
  have inv: "a_inv N a" "\<And>i. i \<in> N \<Longrightarrow> process_rel N c a i (s i)"
    using assms(3) by (simp_all add: cluster_rel_def)
  show ?thesis
    using assms(4)
  proof (cases rule: cstep.cases)
    case (c_tick i)
    show ?thesis
      using cluster_step_of_follows [OF assms(3) sim_tick [OF assms(1) inv(1) inv(2) c_tick(2)]] c_tick by blast
  next
    case (c_deliver i j m)
    have "msg_rel c a j m" using inv(2) [OF c_deliver(3)] c_deliver(4) by (simp add: process_rel_def)
    from sim_deliver [OF assms(1) inv(1) inv(2) c_deliver(2) assms(2) c_deliver(3) this c_deliver(5)]
    show ?thesis using cluster_step_of_follows [OF assms(3)] c_deliver by blast
  next
    case (c_client i m)
    from sim_client [OF assms(1) inv(1) inv(2) c_client(2,3)]
    show ?thesis using cluster_step_of_follows [OF assms(3)] c_client by blast
  qed
qed

lemma cluster_rel_initial:
  assumes "cluster_config N peers_of" "c_initial N peers_of gen s"
  shows "cluster_rel N c s a_init"
proof -
  have "process_rel N c a_init i (s i)" if iN: "i \<in> N" for i
  proof -
    obtain g where g: "s i = start_process gen g i (peers_of i)" using assms(2) iN by (auto simp: c_initial_def)
    obtain e g' where "engine_new gen g = (e, g')" by fastforce
    then show ?thesis
      using g iN assms(1)
      by (simp add: process_rel_def node_rel_def start_process_def new_def a_init_def cluster_config_def
          applied_rel_def)
  qed
  then show ?thesis by (simp add: cluster_rel_def a_inv_init)
qed

subsection \<open>Forward simulation\<close>

text \<open>
  The interface between an implementation and a specification: every initial state of the
  implementation is related to one of the specification, and every step of a related pair
  can be followed by some steps of the specification.
\<close>

locale forward_simulation =
  fixes c_init :: "'c \<Rightarrow> bool" and c_step :: "'c \<Rightarrow> 'c \<Rightarrow> bool"
    and s_init :: "'s \<Rightarrow> bool" and s_step :: "'s \<Rightarrow> 's \<Rightarrow> bool"
    and rel :: "'c \<Rightarrow> 's \<Rightarrow> bool"
  assumes init_related: "c_init x \<Longrightarrow> \<exists>a. s_init a \<and> rel x a"
    and step_followed: "rel x a \<Longrightarrow> c_step x x' \<Longrightarrow> \<exists>a'. s_step\<^sup>*\<^sup>* a a' \<and> rel x' a'"
begin

lemma steps_followed: "c_step\<^sup>*\<^sup>* x x' \<Longrightarrow> rel x a \<Longrightarrow> \<exists>a'. s_step\<^sup>*\<^sup>* a a' \<and> rel x' a'"
proof (induction rule: rtranclp_induct)
  case (step d e)
  then show ?case using step_followed rtranclp_trans by metis
qed auto

text \<open>What holds of the specification's reachable states holds of related states.\<close>

lemma reachable_related: "c_init x \<Longrightarrow> c_step\<^sup>*\<^sup>* x x' \<Longrightarrow> \<exists>a a'. s_init a \<and> s_step\<^sup>*\<^sup>* a a' \<and> rel x' a'"
  using init_related steps_followed by metis

end

definition any_step :: "node_id set \<Rightarrow> astate \<Rightarrow> astate \<Rightarrow> bool" where
  "any_step N a a' \<longleftrightarrow> (\<exists>i. astep N i a a')"

lemma any_steps: "(astep N i)\<^sup>*\<^sup>* a a' \<Longrightarrow> (any_step N)\<^sup>*\<^sup>* a a'"
  by (erule rtranclp_mono [THEN predicate2D, rotated]) (auto simp: any_step_def)

interpretation raft: forward_simulation
  "\<lambda>s :: node_id \<Rightarrow> ('v, 'g) Process. serde_codec c \<and> cluster_config N peers_of \<and> c_initial N peers_of gen s" "cstep N c gen"
  "\<lambda>a. a = a_init" "any_step N" "\<lambda>s a. serde_codec c \<and> finite N \<and> cluster_rel N c s a"
  for N and peers_of and c :: "'v codec" and gen :: "'g \<Rightarrow> u64 \<times> 'g"
proof unfold_locales
  fix s :: "node_id \<Rightarrow> ('v, 'g) Process" assume "serde_codec c \<and> cluster_config N peers_of \<and> c_initial N peers_of gen s"
  then show "\<exists>a. a = a_init \<and> serde_codec c \<and> finite N \<and> cluster_rel N c s a"
    using cluster_rel_initial [of N peers_of gen s c] by (simp add: cluster_config_def)
next
  fix s s' :: "node_id \<Rightarrow> ('v, 'g) Process" and a assume "serde_codec c \<and> finite N \<and> cluster_rel N c s a" "cstep N c gen s s'"
  then show "\<exists>a'. (any_step N)\<^sup>*\<^sup>* a a' \<and> serde_codec c \<and> finite N \<and> cluster_rel N c s' a'"
    using sim_cluster any_steps by metis
qed

lemma c_reachable_steps:
  assumes "c_reachable N peers_of c gen s"
  shows "\<exists>s0. c_initial N peers_of gen s0 \<and> (cstep N c gen)\<^sup>*\<^sup>* s0 s"
  using assms
proof (induction rule: c_reachable.induct)
  case (c_next s s')
  then show ?case using rtranclp.rtrancl_into_rtrancl by metis
qed auto

lemma a_reachable_steps: "(any_step N)\<^sup>*\<^sup>* a a' \<Longrightarrow> a_reachable N a \<Longrightarrow> a_reachable N a'"
  by (induction rule: rtranclp_induct) (auto simp: any_step_def intro: a_reachable.a_next)

lemma cluster_refines:
  assumes "serde_codec c" "cluster_config N peers_of" "c_reachable N peers_of c gen s"
  shows "\<exists>a. a_reachable N a \<and> cluster_rel N c s a"
proof -
  obtain s0 where "c_initial N peers_of gen s0" "(cstep N c gen)\<^sup>*\<^sup>* s0 s"
    using c_reachable_steps [OF assms(3)] by blast
  then obtain a where "(any_step N)\<^sup>*\<^sup>* a_init a" "cluster_rel N c s a"
    using raft.reachable_related [where N = N and c = c and gen = gen and peers_of = peers_of and x = s0 and x' = s]
      assms(1,2) by blast
  then show ?thesis using a_reachable_steps a_reachable.a_start by blast
qed

end
