(* ===== verification/Json_Codec.thy ===== *)
theory Json_Codec
  imports Engine
begin

section \<open>JSON values of the derived types\<close>

text \<open>
  The documented representation of \<^verbatim>\<open>#[derive(Serialize, Deserialize)]\<close>: a structure is an
  object whose keys are its field names, decoding looks the fields up by name and fails
  when one is missing or has another type, and an absent or null optional field is \<open>None\<close>.
  This is the provider of the codec interface for the field names that
  \<^verbatim>\<open>protocol.rs\<close> declares; it is what the concrete runs use.
\<close>

datatype json = JNull | JBool bool | JNumber u64 | JString string | JArray "json list"
  | JObject "(string \<times> json) list"

fun field :: "string \<Rightarrow> json \<Rightarrow> json option" where
  "field k (JObject kvs) = map_of kvs k"
| "field k _ = None"

fun as_u64 :: "json \<Rightarrow> u64 option" where
  "as_u64 (JNumber x) = Some x"
| "as_u64 _ = None"

fun as_bool :: "json \<Rightarrow> bool option" where
  "as_bool (JBool b) = Some b"
| "as_bool _ = None"

fun as_string :: "json \<Rightarrow> string option" where
  "as_string (JString s) = Some s"
| "as_string _ = None"

fun as_array :: "json \<Rightarrow> json list option" where
  "as_array (JArray xs) = Some xs"
| "as_array _ = None"

definition get_u64 :: "string \<Rightarrow> json \<Rightarrow> u64 option" where
  "get_u64 k v = Option.bind (field k v) as_u64"

definition get_bool :: "string \<Rightarrow> json \<Rightarrow> bool option" where
  "get_bool k v = Option.bind (field k v) as_bool"

definition get_string :: "string \<Rightarrow> json \<Rightarrow> string option" where
  "get_string k v = Option.bind (field k v) as_string"

fun sequence :: "'a option list \<Rightarrow> 'a list option" where
  "sequence [] = Some []"
| "sequence (x # xs) = (case x of None \<Rightarrow> None | Some y \<Rightarrow> map_option (\<lambda>ys. y # ys) (sequence xs))"

definition json_entry :: "LogEntry \<Rightarrow> json" where
  "json_entry e = JObject [(''term'', JNumber (le_term e)), (''index'', JNumber (le_index e)),
     (''command'', JString (le_command e))]"

definition entry_json :: "json \<Rightarrow> LogEntry option" where
  "entry_json v = Option.bind (get_u64 ''term'' v) (\<lambda>t. Option.bind (get_u64 ''index'' v) (\<lambda>i.
     Option.bind (get_string ''command'' v) (\<lambda>s.
       Some \<lparr>le_term = t, le_index = i, le_command = s\<rparr>)))"

definition json_append_entries :: "AppendEntriesArgs \<Rightarrow> json" where
  "json_append_entries a = JObject [(''term'', JNumber (ae_term a)), (''leader_id'', JString (ae_leader_id a)),
     (''prev_log_index'', JNumber (ae_prev_log_index a)), (''prev_log_term'', JNumber (ae_prev_log_term a)),
     (''entries'', JArray (map json_entry (ae_entries a))), (''leader_commit'', JNumber (ae_leader_commit a))]"

definition append_entries_json :: "json \<Rightarrow> AppendEntriesArgs option" where
  "append_entries_json v =
     Option.bind (get_u64 ''term'' v) (\<lambda>t. Option.bind (get_string ''leader_id'' v) (\<lambda>l.
     Option.bind (get_u64 ''prev_log_index'' v) (\<lambda>pi. Option.bind (get_u64 ''prev_log_term'' v) (\<lambda>pt.
     Option.bind (Option.bind (Option.bind (field ''entries'' v) as_array) (\<lambda>xs. sequence (map entry_json xs))) (\<lambda>es.
     Option.bind (get_u64 ''leader_commit'' v) (\<lambda>lc.
       Some \<lparr>ae_term = t, ae_leader_id = l, ae_prev_log_index = pi, ae_prev_log_term = pt,
         ae_entries = es, ae_leader_commit = lc\<rparr>))))))"

definition json_append_reply :: "AppendEntriesReply \<Rightarrow> json" where
  "json_append_reply r = JObject [(''term'', JNumber (ar_term r)), (''success'', JBool (ar_success r)),
     (''match_index'', JNumber (ar_match_index r))]"

definition append_reply_json :: "json \<Rightarrow> AppendEntriesReply option" where
  "append_reply_json v = Option.bind (get_u64 ''term'' v) (\<lambda>t. Option.bind (get_bool ''success'' v) (\<lambda>s.
     Option.bind (get_u64 ''match_index'' v) (\<lambda>m.
       Some \<lparr>ar_term = t, ar_success = s, ar_match_index = m\<rparr>)))"

definition json_request_vote :: "RequestVoteArgs \<Rightarrow> json" where
  "json_request_vote a = JObject [(''term'', JNumber (rv_term a)), (''candidate_id'', JString (rv_candidate_id a)),
     (''last_log_index'', JNumber (rv_last_log_index a)), (''last_log_term'', JNumber (rv_last_log_term a))]"

definition request_vote_json :: "json \<Rightarrow> RequestVoteArgs option" where
  "request_vote_json v = Option.bind (get_u64 ''term'' v) (\<lambda>t. Option.bind (get_string ''candidate_id'' v) (\<lambda>i.
     Option.bind (get_u64 ''last_log_index'' v) (\<lambda>li. Option.bind (get_u64 ''last_log_term'' v) (\<lambda>lt.
       Some \<lparr>rv_term = t, rv_candidate_id = i, rv_last_log_index = li, rv_last_log_term = lt\<rparr>))))"

definition json_vote_reply :: "RequestVoteReply \<Rightarrow> json" where
  "json_vote_reply r = JObject [(''term'', JNumber (rr_term r)), (''vote_granted'', JBool (rr_vote_granted r))]"

definition vote_reply_json :: "json \<Rightarrow> RequestVoteReply option" where
  "vote_reply_json v = Option.bind (get_u64 ''term'' v) (\<lambda>t. Option.bind (get_bool ''vote_granted'' v) (\<lambda>g.
     Some \<lparr>rr_term = t, rr_vote_granted = g\<rparr>))"

definition json_client_reply :: "ClientRequestReply \<Rightarrow> json" where
  "json_client_reply r = JObject [(''success'', JBool (cp_success r)),
     (''leader_id'', case cp_leader_id r of None \<Rightarrow> JNull | Some i \<Rightarrow> JString i),
     (''response'', JString (cp_response r))]"

definition client_request_json :: "json \<Rightarrow> ClientRequestArgs option" where
  "client_request_json v = Option.bind (get_string ''command'' v) (\<lambda>s. Some \<lparr>cr_command = s\<rparr>)"

definition serde_json :: "json codec" where
  "serde_json = \<lparr>to_value_append_entries = json_append_entries, to_value_append_reply = json_append_reply,
     to_value_request_vote = json_request_vote, to_value_vote_reply = json_vote_reply,
     to_value_client_reply = json_client_reply, from_slice_append_entries = append_entries_json,
     from_slice_append_reply = append_reply_json, from_slice_request_vote = request_vote_json,
     from_slice_vote_reply = vote_reply_json, from_slice_client_request = client_request_json\<rparr>"

lemma entry_json_inv [simp]: "entry_json (json_entry e) = Some e"
  by (simp add: entry_json_def json_entry_def get_u64_def get_string_def)

lemma entries_json_inv [simp]: "sequence (map (entry_json \<circ> json_entry) es) = Some es"
  by (induction es) auto

interpretation json: serde_codec serde_json
  by unfold_locales
    (simp_all add: serde_json_def json_append_entries_def append_entries_json_def
      json_append_reply_def append_reply_json_def json_request_vote_def request_vote_json_def
      json_vote_reply_def vote_reply_json_def get_u64_def get_string_def get_bool_def)

end
