(* ===== verification/Process_Properties.thy ===== *)
theory Process_Properties
  imports Json_Codec
begin

section \<open>Properties of a single process\<close>

text \<open>
  What holds of one process whatever it receives: how its timers run, how term and vote
  develop, and what a poisoned process and a line that is no message do. No assumption about
  the rest of the cluster is made.
\<close>

subsection \<open>Timers and effects\<close>

lemma execute_effect_timers:
  "election_tick_count (engine (execute_effect c gen e p))
     = (if e = ResetElectionTimer then 0 else election_tick_count (engine p))"
  "heartbeat_tick_count (engine (execute_effect c gen e p))
     = (if e = ResetHeartbeatTimer then 0 else heartbeat_tick_count (engine p))"
  "election_timeout_limit (engine (execute_effect c gen e p))
     = (if e = ResetElectionTimer then fst (gen (rng p)) else election_timeout_limit (engine p))"
  by (cases e; simp add: reset_election_timer_def reset_heartbeat_timer_def Let_def split: prod.splits)+

lemma execute_effects_timers:
  "election_tick_count (engine (execute_effects c gen fx p))
     = (if ResetElectionTimer \<in> set fx then 0 else election_tick_count (engine p))"
  "heartbeat_tick_count (engine (execute_effects c gen fx p))
     = (if ResetHeartbeatTimer \<in> set fx then 0 else heartbeat_tick_count (engine p))"
  "ResetElectionTimer \<notin> set fx \<Longrightarrow>
     election_timeout_limit (engine (execute_effects c gen fx p)) = election_timeout_limit (engine p)"
  by (induction fx arbitrary: p) (auto simp: execute_effect_timers simp del: execute_effect.simps)

lemma execute_effects_limit:
  assumes "gen_range_30_150 gen" "30 \<le> election_timeout_limit (engine p) \<and> election_timeout_limit (engine p) < 150"
  shows "30 \<le> election_timeout_limit (engine (execute_effects c gen fx p))
    \<and> election_timeout_limit (engine (execute_effects c gen fx p)) < 150"
  using assms(2)
proof (induction fx arbitrary: p)
  case (Cons e fx)
  then show ?case using assms(1) by (auto simp: execute_effect_timers gen_range_30_150_def simp del: execute_effect.simps)
qed simp

text \<open>The timers of a process: the limit as drawn, both counters below their limits.\<close>

definition timers_ok :: "('v, 'g) Process \<Rightarrow> bool" where
  "timers_ok p \<longleftrightarrow> 30 \<le> election_timeout_limit (engine p) \<and> election_timeout_limit (engine p) < 150
     \<and> election_tick_count (engine p) < election_timeout_limit (engine p)
     \<and> heartbeat_tick_count (engine p) < heartbeat_interval"

lemma timers_ok_effects:
  assumes "gen_range_30_150 gen" "timers_ok q" "engine p = engine q"
  shows "timers_ok (execute_effects c gen fx p)"
proof -
  have lim: "30 \<le> election_timeout_limit (engine (execute_effects c gen fx p))
    \<and> election_timeout_limit (engine (execute_effects c gen fx p)) < 150"
    by (rule execute_effects_limit [OF assms(1)]) (use assms(2,3) in \<open>simp add: timers_ok_def\<close>)
  then have "0 < election_timeout_limit (engine (execute_effects c gen fx p))"
    by (auto intro: order_less_le_trans [of 0 30])
  then show ?thesis
    using assms(2,3) lim execute_effects_timers [where c = c and gen = gen and fx = fx and p = p]
    by (auto simp: timers_ok_def heartbeat_interval_def)
qed

lemma election_timeout_resets:
  "handle_election_timeout n = Inr (n', fx) \<Longrightarrow> \<not> is_Leader (state n) \<Longrightarrow> ResetElectionTimer \<in> set fx"
  by (auto simp: handle_election_timeout_def Let_def res_simps split: NodeState.splits option.splits)

lemma heartbeat_timeout_resets:
  "handle_heartbeat_timeout n = (n', fx) \<Longrightarrow> is_Leader (state n) \<Longrightarrow> ResetHeartbeatTimer \<in> set fx"
  by (auto simp: handle_heartbeat_timeout_def split: NodeState.splits)

lemma timers_ok_deliver:
  assumes "gen_range_30_150 gen" "timers_ok p"
  shows "timers_ok (deliver c gen m p)"
proof -
  have "timers_ok p'" if h: "handle_message c gen p m = Inr p'" for p'
  proof (cases "m_type m = ''AppendEntries''")
    case True
    then obtain x where x: "from_slice_append_entries c (m_payload m) = Some x"
      using h by (auto simp: handle_message_def res_simps)
    obtain n r fx where "handle_append_entries (node p) x = (n, r, fx)" by (cases "handle_append_entries (node p) x")
    then have "p' = execute_effects c gen fx (send (p\<lparr>node := n\<rparr>) (envelope n (m_from m) ''AppendReply'' (to_value_append_reply c r)))"
      using True x h by (simp add: handle_message_def Let_def)
    then show ?thesis by (simp add: timers_ok_effects [OF assms])
  next
    case False
    then show ?thesis
      using h assms(2) by (auto simp: handle_message_def Let_def res_simps timers_ok_effects [OF assms] split: if_splits)
  qed
  moreover have "timers_ok (p\<lparr>poisoned := True\<rparr>)" using assms(2) by (simp add: timers_ok_def)
  ultimately show ?thesis
    using assms(2) by (cases c gen m p rule: deliver_cases) auto
qed

lemma unat_heartbeat_interval: "unat heartbeat_interval = 6"
  by (simp add: heartbeat_interval_def)

lemma tick_leader:
  assumes "is_Leader (state (node p))" "handle_heartbeat_timeout (node p) = (n, fx)"
    and "heartbeat_tick_count (engine p) < heartbeat_interval"
  defines "h \<equiv> heartbeat_tick_count (engine p) + 1"
  defines "q \<equiv> p\<lparr>engine := (engine p)\<lparr>heartbeat_tick_count := h\<rparr>\<rparr>"
  shows "tick_body c gen p = Inr (let r = (if heartbeat_interval \<le> h then execute_effects c gen fx (q\<lparr>node := n\<rparr>) else q)
    in r\<lparr>engine := (engine r)\<lparr>election_tick_count := 0\<rparr>\<rparr>)"
proof -
  have "add_u64 (heartbeat_tick_count (engine p)) 1 = Inr h"
    using assms(3) by (simp add: add_u64_def h_def heartbeat_interval_def word_less_nat_alt)
  then show ?thesis using assms(1,2) by (simp add: tick_body_def Let_def q_def)
qed

lemma timers_ok_tick_leader:
  assumes "gen_range_30_150 gen" "timers_ok p" "is_Leader (state (node p))" "tick_body c gen p = Inr p'"
  shows "timers_ok p'"
proof -
  obtain n fx where n: "handle_heartbeat_timeout (node p) = (n, fx)" by fastforce
  let ?q = "p\<lparr>engine := (engine p)\<lparr>heartbeat_tick_count := heartbeat_tick_count (engine p) + 1\<rparr>\<rparr>"
  define r where "r = (if heartbeat_interval \<le> heartbeat_tick_count (engine p) + 1
    then execute_effects c gen fx (?q\<lparr>node := n\<rparr>) else ?q)"
  have hb: "heartbeat_tick_count (engine p) < heartbeat_interval" using assms(2) by (simp add: timers_ok_def)
  have p': "p' = r\<lparr>engine := (engine r)\<lparr>election_tick_count := 0\<rparr>\<rparr>"
    using tick_leader [OF assms(3) n hb] assms(4) by (simp add: r_def Let_def)
  have lim: "30 \<le> election_timeout_limit (engine r) \<and> election_timeout_limit (engine r) < 150"
    using assms(2) execute_effects_limit [OF assms(1), of "?q\<lparr>node := n\<rparr>" c fx]
    by (simp add: r_def timers_ok_def)
  moreover have "heartbeat_tick_count (engine r) < heartbeat_interval"
    using heartbeat_timeout_resets [OF n assms(3)]
      execute_effects_timers(2) [where c = c and gen = gen and fx = fx and p = "?q\<lparr>node := n\<rparr>"]
    by (auto simp: r_def heartbeat_interval_def not_le)
  ultimately show ?thesis unfolding p' by (auto simp: timers_ok_def intro: order_less_le_trans [of 0 30])
qed

lemma timers_ok_tick_other:
  assumes "gen_range_30_150 gen" "timers_ok p" "\<not> is_Leader (state (node p))" "tick_body c gen p = Inr p'"
  shows "timers_ok p'"
proof -
  obtain k where k: "add_u64 (election_tick_count (engine p)) 1 = Inr k"
    using assms(3,4) by (auto simp: tick_body_def res_simps Let_def)
  define q where "q = p\<lparr>engine := (engine p)\<lparr>election_tick_count := k\<rparr>\<rparr>"
  have lim: "30 \<le> election_timeout_limit (engine q)" "election_timeout_limit (engine q) < 150"
    "heartbeat_tick_count (engine q) < heartbeat_interval"
    using assms(2) by (simp_all add: q_def timers_ok_def)
  show ?thesis
  proof (cases "election_timeout_limit (engine q) \<le> k")
    case True
    then obtain n fx where n: "handle_election_timeout (node p) = Inr (n, fx)"
      and p': "p' = execute_effects c gen fx (q\<lparr>node := n\<rparr>)"
      using assms(3,4) k by (auto simp: tick_body_def res_simps Let_def q_def)
    note t = execute_effects_timers [where c = c and gen = gen and fx = fx and p = "q\<lparr>node := n\<rparr>"]
    have "30 \<le> election_timeout_limit (engine p') \<and> election_timeout_limit (engine p') < 150"
      unfolding p' by (rule execute_effects_limit [OF assms(1)]) (use lim in simp)
    moreover have "election_tick_count (engine p') = 0" "heartbeat_tick_count (engine p') < heartbeat_interval"
      using election_timeout_resets [OF n assms(3)] t(1,2) lim(3) by (auto simp: p' heartbeat_interval_def)
    ultimately show ?thesis by (auto simp: timers_ok_def intro: order_less_le_trans [of 0 30])
  next
    case not_yet: False
    then have "p' = q" using assms(3,4) k by (simp add: tick_body_def Let_def q_def)
    then show ?thesis using not_yet lim by (simp add: timers_ok_def q_def not_le)
  qed
qed

lemma timers_ok_tick:
  assumes "gen_range_30_150 gen" "timers_ok p"
  shows "timers_ok (tick c gen p)"
proof -
  have "timers_ok p'" if "tick_body c gen p = Inr p'" for p'
    using timers_ok_tick_leader [OF assms _ that] timers_ok_tick_other [OF assms _ that] by blast
  moreover have "timers_ok (p\<lparr>poisoned := True\<rparr>)" using assms(2) by (simp add: timers_ok_def)
  ultimately show ?thesis
    using assms(2) by (cases c gen p rule: tick_cases) auto
qed

lemma timers_ok_start:
  assumes "gen_range_30_150 gen"
  shows "timers_ok (start_process gen g i ps)"
proof -
  have r: "30 \<le> fst (gen g)" "fst (gen g) < 150" using assms by (simp_all add: gen_range_30_150_def)
  moreover have "0 < fst (gen g)" by (rule order_less_le_trans [OF _ r(1)]) simp
  ultimately show ?thesis
    by (cases "gen g") (simp add: timers_ok_def start_process_def engine_new_def heartbeat_interval_def)
qed

subsection \<open>What any message can do to term and vote\<close>

text \<open>A later term, or the same term with the vote kept if there was one.\<close>

definition term_vote_le :: "RaftNode \<Rightarrow> RaftNode \<Rightarrow> bool" where
  "term_vote_le n n' \<longleftrightarrow> current_term n < current_term n'
     \<or> current_term n' = current_term n \<and> (voted_for n = None \<or> voted_for n' = voted_for n)"

lemma term_vote_le_refl [simp]: "term_vote_le n n"
  by (simp add: term_vote_le_def)

lemma term_vote_le_observe [simp]: "term_vote_le n (observe n t)"
  by (auto simp: term_vote_le_def observe_def)

lemma maybe_step_down_eq: "maybe_step_down n t se = (b, n', se') \<Longrightarrow> b = (current_term n < t) \<and> n' = observe n t"
  using maybe_step_down_observe [of n t se] by auto

lemma append_entries_loop_frame:
  "append_entries_loop n se k es = (n', se', k') \<Longrightarrow> current_term n' = current_term n \<and> voted_for n' = voted_for n"
proof (induction es arbitrary: n se k)
  case (Cons e es)
  then show ?case by (fastforce simp: Let_def split: option.splits if_splits)
qed simp

lemma handle_append_entries_term_vote:
  assumes "handle_append_entries n args = (n', r, fx)"
  shows "term_vote_le n n'"
proof (cases "ae_term args < current_term n")
  case True
  then show ?thesis using assms by (simp add: handle_append_entries_def)
next
  case False
  let ?m = "(observe n (ae_term args))\<lparr>leader_id := Some (ae_leader_id args), state := Follower\<rparr>"
  have "current_term n' = current_term ?m \<and> voted_for n' = voted_for ?m"
  proof (cases "has_matching_prev_entry n (ae_prev_log_index args) (ae_prev_log_term args)")
    case mismatch: False
    then show ?thesis using handle_append_entries_mismatch [OF False] assms by auto
  next
    case True
    obtain b o' se where sd: "maybe_step_down n (ae_term args) [] = (b, o', se)" by (cases "maybe_step_down n (ae_term args) []")
    then have o': "o' = observe n (ae_term args)" by (simp add: maybe_step_down_eq)
    obtain sf l sg k m2 sh where loop: "append_entries_loop ?m sf (ae_prev_log_index args) (ae_entries args) = (l, sg, k)"
      and adv: "advance_follower_commit l sg (ae_leader_commit args) k = (m2, sh)" and "n' = m2"
      using assms False True sd o'
      by (auto simp: handle_append_entries_def Let_def has_matching_prev_entry_def split: prod.splits)
    then show ?thesis
      using append_entries_loop_frame [OF loop] advance_follower_commit_eq(1) [OF adv] by simp
  qed
  then show ?thesis using term_vote_le_observe [of n "ae_term args"] by (simp add: term_vote_le_def)
qed

lemma handle_request_vote_term_vote:
  assumes "handle_request_vote n a = Inr (n', r, fx)"
  shows "term_vote_le n n'"
proof (cases "log n = []")
  case True
  then show ?thesis
    using assms by (auto simp: handle_request_vote_def vec_last_def maybe_step_down_def Let_def split: if_splits)
next
  case False
  then show ?thesis
    using handle_request_vote_eq [OF False, of a] assms
    by (auto simp: grants_vote_def term_vote_le_def observe_def split: if_splits)
qed

lemma handle_election_timeout_term:
  "handle_election_timeout n = Inr (n', fx) \<Longrightarrow> term_vote_le n n'"
proof -
  assume h: "handle_election_timeout n = Inr (n', fx)"
  have "n' = n \<or> (\<exists>t. add_u64 (current_term n) 1 = Inr t \<and> current_term n' = t)"
    using h by (auto simp: handle_election_timeout_def Let_def res_simps split: NodeState.splits option.splits)
  then show ?thesis
    using add_u64_InrD [of "current_term n" 1] by (auto simp: term_vote_le_def word_less_nat_alt)
qed

lemma become_leader_term:
  "become_leader n se = Inr (n', fx) \<Longrightarrow> current_term n' = current_term n \<and> voted_for n' = voted_for n"
  by (auto simp: become_leader_def Let_def res_simps split: option.splits)

lemma handle_request_vote_reply_term:
  assumes "handle_request_vote_reply n j r = Inr (n', fx)"
  shows "term_vote_le n n'"
proof (cases "current_term n < rr_term r")
  case True
  then show ?thesis using handle_request_vote_reply_newer [of n r j] assms by auto
next
  case le: False
  show ?thesis
  proof (cases "counts_vote n r")
    case False
    then show ?thesis using handle_request_vote_reply_ignored [OF le False, of j] assms by auto
  next
    case True
    obtain se where "handle_request_vote_reply n j r = (if (length (peers n) + 1) div 2
        < card (insert j (votes_received (state n))) then become_leader (with_vote n j) se else Inr (with_vote n j, se))"
      using handle_request_vote_reply_counted [OF True] by blast
    then show ?thesis
      using assms become_leader_term [of "with_vote n j" se n' fx]
      by (auto simp: term_vote_le_def with_vote_def split: if_splits)
  qed
qed

lemma apply_committed_term:
  "apply_committed n se = (n', fx) \<Longrightarrow> current_term n' = current_term n \<and> voted_for n' = voted_for n"
  using apply_committed_node [of n se] by simp

lemma advance_leader_commit_term:
  "advance_leader_commit n se = Inr (n', fx) \<Longrightarrow> current_term n' = current_term n \<and> voted_for n' = voted_for n"
  by (auto simp: advance_leader_commit_def Let_def dest: apply_committed_term split: NodeState.splits option.splits if_splits)

lemma handle_append_entries_reply_term:
  assumes "handle_append_entries_reply n j r = Inr (n', fx)"
  shows "term_vote_le n n'"
proof (cases "current_term n < ar_term r")
  case True
  then show ?thesis using handle_append_entries_reply_newer [of n r j] assms by auto
next
  case le: False
  show ?thesis
  proof (cases "ar_term r \<noteq> current_term n \<or> \<not> is_Leader (state n)")
    case True
    then show ?thesis using handle_append_entries_reply_ignored [OF le True, of j] assms by auto
  next
    case False
    then obtain ni mi where st: "state n = Leader ni mi" "ar_term r = current_term n" by (auto elim: is_LeaderE)
    then show ?thesis
      using assms
      by (auto simp: handle_append_entries_reply_def Let_def maybe_step_down_def res_simps term_vote_le_def
          dest!: advance_leader_commit_term split: if_splits)
  qed
qed

lemma propose_command_term:
  "propose_command n x = Inr (n', i, fx) \<Longrightarrow> current_term n' = current_term n \<and> voted_for n' = voted_for n"
  by (cases "state n") (auto simp: propose_command_def Let_def res_simps)

lemma handle_client_request_term:
  assumes "handle_client_request n a = Inr (n', r, fx)"
  shows "term_vote_le n n'"
proof -
  obtain i where "propose_command n (cr_command a) = Inr (n', i, fx)"
    using assms by (auto simp: handle_client_request_def res_simps split: option.splits prod.splits)
  from propose_command_term [OF this] show ?thesis by (simp add: term_vote_le_def)
qed

lemma handle_message_term_vote:
  assumes h: "handle_message c gen p m = Inr p'"
  shows "term_vote_le (node p) (node p')"
proof (cases "m_type m = ''AppendEntries''")
  case True
  then obtain x where x: "from_slice_append_entries c (m_payload m) = Some x"
    using h by (auto simp: handle_message_def res_simps)
  obtain n r fx where a: "handle_append_entries (node p) x = (n, r, fx)" by (cases "handle_append_entries (node p) x")
  then have "node p' = n" using True x h by (auto simp: handle_message_def Let_def)
  then show ?thesis using handle_append_entries_term_vote [OF a] by simp
next
  case False
  then show ?thesis
    using h
    by (auto simp: handle_message_def Let_def res_simps split: if_splits
        dest: handle_request_vote_term_vote handle_request_vote_reply_term handle_append_entries_reply_term
          handle_client_request_term)
qed

lemma tick_body_term_vote:
  assumes h: "tick_body c gen p = Inr p'"
  shows "term_vote_le (node p) (node p')"
proof (cases "is_Leader (state (node p))")
  case True
  obtain n fx where n: "handle_heartbeat_timeout (node p) = (n, fx)" by fastforce
  have "n = node p" using n True by (auto simp: handle_heartbeat_timeout_def split: NodeState.splits)
  then have "node p' = node p" using h True n by (auto simp: tick_body_def res_simps Let_def split: if_splits)
  then show ?thesis by simp
next
  case False
  then show ?thesis
    using h by (auto simp: tick_body_def res_simps Let_def dest: handle_election_timeout_term split: if_splits)
qed

text \<open>Standard error is written and never read.\<close>

lemma execute_effects_stderr:
  "execute_effects c gen fx (p\<lparr>stderr := x\<rparr>) = (execute_effects c gen fx p)\<lparr>stderr := x\<rparr>"
proof (induction fx arbitrary: p)
  case (Cons e fx)
  have "execute_effect c gen e (p\<lparr>stderr := x\<rparr>) = (execute_effect c gen e p)\<lparr>stderr := x\<rparr>"
    by (cases e) (simp_all add: Let_def split: prod.split)
  then show ?case using Cons by simp
qed simp

lemma map_res_bind: "map_sum h g (res_bind m f) = res_bind (map_sum h id m) (\<lambda>x. map_sum h g (f x))"
  by (cases m) simp_all

lemma map_halting: "map_sum (map_prod id g) id (halting p m) = halting (g p) m"
  by (cases m) simp_all

lemma handle_message_stderr:
  "handle_message c gen (p\<lparr>stderr := x\<rparr>) m
    = map_sum (map_prod id (\<lambda>q. q\<lparr>stderr := x\<rparr>)) (\<lambda>q. q\<lparr>stderr := x\<rparr>) (handle_message c gen p m)"
proof -
  have send: "send (p\<lparr>stderr := x, node := n\<rparr>) v = (send (p\<lparr>node := n\<rparr>) v)\<lparr>stderr := x\<rparr>" for n v
    by (simp add: send_def)
  have exec: "execute_effects c gen fx (p\<lparr>stderr := x, node := n\<rparr>)
      = (execute_effects c gen fx (p\<lparr>node := n\<rparr>))\<lparr>stderr := x\<rparr>" for fx n
  proof -
    have "p\<lparr>stderr := x, node := n\<rparr> = (p\<lparr>node := n\<rparr>)\<lparr>stderr := x\<rparr>" by (cases p) simp
    then show ?thesis by (simp only: execute_effects_stderr)
  qed
  show ?thesis
    unfolding handle_message_def Let_def
    by (simp add: send exec execute_effects_stderr map_res_bind map_halting if_distrib [of "map_sum _ _"]
        prod.case_distrib [of "map_sum _ _"] cong: if_cong)
qed

lemma deliver_stderr: "deliver c gen m (p\<lparr>stderr := x\<rparr>) = (deliver c gen m p)\<lparr>stderr := x\<rparr>"
  by (auto simp: deliver_def under_lock_def handle_message_stderr split: sum.split)

lemma fold_deliver_stderr:
  "fold (deliver c gen) ms (p\<lparr>stderr := x\<rparr>) = (fold (deliver c gen) ms p)\<lparr>stderr := x\<rparr>"
  by (induction ms arbitrary: p) (simp_all add: deliver_stderr)

lemma term_vote_le_term: "term_vote_le n n' \<Longrightarrow> current_term n \<le> current_term n'"
  by (auto simp: term_vote_le_def)

lemma deliver_term_vote: "term_vote_le (node p) (node (deliver c gen m p))"
  by (cases c gen m p rule: deliver_cases) (auto intro: handle_message_term_vote)

lemma tick_term_vote: "term_vote_le (node p) (node (tick c gen p))"
  by (cases c gen p rule: tick_cases) (auto intro: tick_body_term_vote)

subsection \<open>The properties of a process\<close>

text \<open>C25: Whatever message arrives, genuine or not, and at every tick, the term of a process never decreases, and
  within a term a vote that was given is never changed or withdrawn.\<close>

theorem terms_and_votes_only_advance:
  assumes "p' = deliver c gen m p \<or> p' = tick c gen p"
  shows "current_term (node p) \<le> current_term (node p')
    \<and> (current_term (node p') = current_term (node p) \<and> voted_for (node p) \<noteq> None
        \<longrightarrow> voted_for (node p') = voted_for (node p))"
proof -
  have "term_vote_le (node p) (node p')" using assms deliver_term_vote tick_term_vote by blast
  then show ?thesis by (auto simp: term_vote_le_def)
qed

theorem terms_and_votes_only_advance_witness:
  "let p = start_process (\<lambda>g. (40, g)) () ''A'' [''B'']; p' = deliver serde_json (\<lambda>g. (40, g)) \<lparr>m_from = ''B'', m_to = ''A'',
       m_type = ''AppendReply'', m_payload = json_append_reply \<lparr>ar_term = 7, ar_success = True, ar_match_index = 3\<rparr>\<rparr> p
   in current_term (node p) \<le> current_term (node p')"
  unfolding Let_def by (rule terms_and_votes_only_advance [THEN conjunct1, OF disjI1]) simp

text \<open>After a panic under the locks the process does nothing more: no tick, message or connection changes its
  state, sends anything or applies anything.\<close>

lemma poisoned_process_is_inert:
  fixes p :: "('v, 'g) Process"
  assumes "poisoned p"
  shows "tick c gen p = p \<and> deliver c gen m p = p \<and> node (handle_connection c gen from_str lines p) = node p
    \<and> tx (handle_connection c gen from_str lines p) = tx p \<and> applied (handle_connection c gen from_str lines p) = applied p"
proof -
  have d: "deliver c gen m q = q" "tick c gen q = q" if "poisoned q" for m and q :: "('v, 'g) Process"
    using that by (simp_all add: deliver_def tick_def under_lock_def)
  have "node (handle_connection c gen from_str lines p) = node p
    \<and> tx (handle_connection c gen from_str lines p) = tx p \<and> applied (handle_connection c gen from_str lines p) = applied p"
    using assms
  proof (induction lines arbitrary: p)
    case (Cons l lines)
    then show ?case by (cases l; cases "from_str (the l)") (simp_all add: d Let_def)
  qed simp
  then show ?thesis using d [OF assms] by simp
qed

text \<open>C32: The leader's clock. From a fresh heartbeat counter, five ticks of a leader send nothing; the sixth runs the
  heartbeat handler, puts its messages on the channel and starts the counter again. Leaders never start an
  election: node and term stay.\<close>

theorem heartbeats_every_six_ticks:
  assumes "\<not> poisoned p" "is_Leader (state (node p))" "heartbeat_tick_count (engine p) = 0"
    and "handle_heartbeat_timeout (node p) = (n, fx)"
  shows "(\<forall>k < 6. tx ((tick c gen ^^ k) p) = tx p)
    \<and> tx ((tick c gen ^^ 6) p) = tx p @ messages_of c (node p) (sends fx)
    \<and> heartbeat_tick_count (engine ((tick c gen ^^ 6) p)) = 0 \<and> node ((tick c gen ^^ 6) p) = node p"
proof -
  have n: "n = node p" using assms(2,4) by (auto simp: handle_heartbeat_timeout_def split: NodeState.splits)
  have early: "(tick c gen ^^ k) p = p\<lparr>engine := (engine p)\<lparr>heartbeat_tick_count := of_nat k,
      election_tick_count := (if k = 0 then election_tick_count (engine p) else 0)\<rparr>\<rparr>" if "k < 6" for k
    using that
  proof (induction k)
    case 0
    then show ?case using assms(3) by simp
  next
    case (Suc k)
    let ?q = "p\<lparr>engine := (engine p)\<lparr>heartbeat_tick_count := of_nat k,
      election_tick_count := (if k = 0 then election_tick_count (engine p) else 0)\<rparr>\<rparr>"
    have u: "unat (of_nat k :: u64) = k" "unat (of_nat (Suc k) :: u64) = Suc k"
      using Suc.prems by (auto intro: unat_of_nat_u64 simp del: of_nat_Suc)
    have h: "heartbeat_tick_count (engine ?q) < heartbeat_interval"
      using u Suc.prems by (simp add: word_less_nat_alt unat_heartbeat_interval)
    have "\<not> heartbeat_interval \<le> of_nat k + (1 :: u64)"
      using u(2) Suc.prems by (simp add: word_le_nat_alt unat_heartbeat_interval add.commute)
    then have "tick_body c gen ?q = Inr (p\<lparr>engine := (engine p)\<lparr>heartbeat_tick_count := of_nat (Suc k), election_tick_count := 0\<rparr>\<rparr>)"
      using tick_leader [OF _ _ h, of n fx] assms(2,4) by (simp add: Let_def add.commute)
    then show ?case using Suc assms(1) by (simp add: tick_def under_lock_def)
  qed
  let ?q = "p\<lparr>engine := (engine p)\<lparr>heartbeat_tick_count := 5, election_tick_count := 0\<rparr>\<rparr>"
  have h: "heartbeat_tick_count (engine ?q) < heartbeat_interval" by (simp add: heartbeat_interval_def)
  define r where "r = execute_effects c gen fx (p\<lparr>engine := (engine p)\<lparr>election_tick_count := 0, heartbeat_tick_count := 6\<rparr>, node := n\<rparr>)"
  have "tick_body c gen ?q = Inr (r\<lparr>engine := (engine r)\<lparr>election_tick_count := 0\<rparr>\<rparr>)"
    using tick_leader [OF _ _ h, of n fx] assms(2,4) by (simp add: Let_def heartbeat_interval_def r_def)
  then have "(tick c gen ^^ 6) p = r\<lparr>engine := (engine r)\<lparr>election_tick_count := 0\<rparr>\<rparr>"
    using early [of 5] assms(1) by (simp add: tick_def under_lock_def eval_nat_numeral)
  moreover have "ResetHeartbeatTimer \<in> set fx" by (rule heartbeat_timeout_resets [OF assms(4,2)])
  then have "tx r = tx p @ messages_of c (node p) (sends fx)" "heartbeat_tick_count (engine r) = 0" "node r = node p"
    by (simp_all add: r_def execute_effects_out execute_effects_timers n)
  ultimately show ?thesis using early by simp
qed

theorem heartbeats_every_six_ticks_witness:
  "let gen = (\<lambda>g. (40, g)); p = (start_process gen () ''A'' [''B''])\<lparr>node := (new ''A'' [''B''])\<lparr>state := Leader [] []\<rparr>\<rparr>
   in tx ((tick serde_json gen ^^ 5) p) = [] \<and> length (tx ((tick serde_json gen ^^ 6) p)) = 1"
proof -
  let ?gen = "\<lambda>g :: unit. (40 :: u64, g)"
  let ?p = "(start_process ?gen () ''A'' [''B''] :: (json, unit) Process)\<lparr>node := (new ''A'' [''B''])\<lparr>state := Leader [] []\<rparr>\<rparr>"
  obtain n fx where h: "handle_heartbeat_timeout (node ?p) = (n, fx)" by fastforce
  have p: "\<not> poisoned ?p" "is_Leader (state (node ?p))" "heartbeat_tick_count (engine ?p) = 0" "tx ?p = []"
    by (simp_all add: start_process_def engine_new_def)
  have "length (sends (snd (handle_heartbeat_timeout (node ?p)))) = 1"
    "\<forall>e \<in> set (sends (snd (handle_heartbeat_timeout (node ?p)))). length (effect_messages serde_json (node ?p) e) = 1"
    by code_simp+
  then obtain e where "sends fx = [e]" "length (effect_messages serde_json (node ?p) e) = 1"
    using h by (auto simp: length_Suc_conv)
  then show ?thesis
    unfolding Let_def using heartbeats_every_six_ticks [OF p(1-3) h, of serde_json ?gen] p(4) by simp
qed

text \<open>A tick of a silent process: before the limit it only counts, at the limit it starts an election.\<close>

lemma tick_waits:
  assumes "\<not> poisoned p" "\<not> is_Leader (state (node p))"
    and "election_tick_count (engine p) + 1 < election_timeout_limit (engine p)"
    and "unat (election_tick_count (engine p) + 1) = Suc (unat (election_tick_count (engine p)))"
  shows "tick c gen p = p\<lparr>engine := (engine p)\<lparr>election_tick_count := election_tick_count (engine p) + 1\<rparr>\<rparr>"
proof -
  have "add_u64 (election_tick_count (engine p)) 1 = Inr (election_tick_count (engine p) + 1)"
    by (rule add_u64_Suc [OF assms(4)])
  then show ?thesis using assms(1-3) by (simp add: tick_def under_lock_def tick_body_def Let_def not_le)
qed

lemma tick_elects:
  assumes "\<not> poisoned p" "\<not> is_Leader (state (node p))" "log (node p) \<noteq> []" "unat (current_term (node p)) < 2 ^ 64 - 1"
    and "election_timeout_limit (engine p) \<le> election_tick_count (engine p) + 1"
    and "unat (election_tick_count (engine p) + 1) = Suc (unat (election_tick_count (engine p)))"
  shows "node (tick c gen p) = candidacy (node p) \<and> \<not> poisoned (tick c gen p)
    \<and> election_tick_count (engine (tick c gen p)) = 0
    \<and> tx (tick c gen p) = tx p @ map (\<lambda>q. envelope (node p) q ''RequestVote''
        (to_value_request_vote c (vote_request (candidacy (node p))))) (peers (node p))"
proof -
  let ?n = "candidacy (node p)"
  obtain fx where fx: "handle_election_timeout (node p) = Inr (?n, fx)" "ResetElectionTimer \<in> set fx"
    "sends fx = [BroadcastRequestVote (vote_request ?n)]"
    using handle_election_timeout_eq [OF assms(3,2)] assms(4) by auto
  let ?q = "p\<lparr>engine := (engine p)\<lparr>election_tick_count := election_tick_count (engine p) + 1\<rparr>, node := ?n\<rparr>"
  have "add_u64 (election_tick_count (engine p)) 1 = Inr (election_tick_count (engine p) + 1)"
    by (rule add_u64_Suc [OF assms(6)])
  then have "tick c gen p = execute_effects c gen fx ?q"
    using assms(1,2,5) fx(1) by (simp add: tick_def under_lock_def tick_body_def Let_def)
  then show ?thesis
    using assms(1) fx by (simp add: execute_effects_out execute_effects_timers candidacy_def envelope_def)
qed

text \<open>C33: The follower's clock. A node that is not leader and hears nothing does nothing for the ticks before its limit
  and, at the tick that reaches it, becomes a candidate of the next term, restarts its counter and puts one vote
  request for every peer on the channel.\<close>

theorem election_fires_at_limit:
  assumes "\<not> poisoned p" "\<not> is_Leader (state (node p))" "log (node p) \<noteq> []" "unat (current_term (node p)) < 2 ^ 64 - 1"
    and "k + unat (election_tick_count (engine p)) < unat (election_timeout_limit (engine p))"
  shows "node ((tick c gen ^^ k) p) = node p \<and> tx ((tick c gen ^^ k) p) = tx p
    \<and> (Suc k + unat (election_tick_count (engine p)) = unat (election_timeout_limit (engine p)) \<longrightarrow>
        node ((tick c gen ^^ Suc k) p) = candidacy (node p)
        \<and> election_tick_count (engine ((tick c gen ^^ Suc k) p)) = 0
        \<and> tx ((tick c gen ^^ Suc k) p) = tx p @ map (\<lambda>q. envelope (node p) q ''RequestVote''
            (to_value_request_vote c (vote_request (candidacy (node p))))) (peers (node p)))"
proof -
  let ?x = "election_tick_count (engine p)" and ?lim = "election_timeout_limit (engine p)"
  have lim: "unat ?lim < 2 ^ LENGTH(64)" by (rule unsigned_less)
  define at where "at j = p\<lparr>engine := (engine p)\<lparr>election_tick_count := ?x + of_nat j\<rparr>\<rparr>" for j
  have count: "unat (?x + of_nat j) = j + unat ?x" if "j + unat ?x < 2 ^ 64" for j
    using that unat_of_nat_u64 [of j] by (simp add: unat_word_ariths)
  have at: "\<not> poisoned (at j)" "node (at j) = node p" "election_tick_count (engine (at j)) = ?x + of_nat j"
    "election_timeout_limit (engine (at j)) = ?lim" "tx (at j) = tx p" for j
    using assms(1) by (simp_all add: at_def)
  have suc: "unat (?x + of_nat j + 1) = Suc (unat (?x + of_nat j))" if "j + unat ?x < unat ?lim" for j
    using that count [of j] lim by (simp add: unat_word_ariths)
  have early: "(tick c gen ^^ j) p = at j" if "j + unat ?x < unat ?lim" for j
    using that
  proof (induction j)
    case 0
    then show ?case by (simp add: at_def)
  next
    case (Suc j)
    then have "?x + of_nat j + 1 < ?lim" using suc [of j] count [of j] lim by (simp add: word_less_nat_alt)
    then have "tick c gen (at j) = at (Suc j)"
      using tick_waits [of "at j" c gen] suc [of j] Suc.prems assms(2) at by (simp add: at_def add.commute add.left_commute)
    then show ?case using Suc by simp
  qed
  have "node (tick c gen (at k)) = candidacy (node p) \<and> election_tick_count (engine (tick c gen (at k))) = 0
      \<and> tx (tick c gen (at k)) = tx p @ map (\<lambda>q. envelope (node p) q ''RequestVote''
          (to_value_request_vote c (vote_request (candidacy (node p))))) (peers (node p))"
    if now: "Suc k + unat ?x = unat ?lim"
  proof -
    have "?lim \<le> ?x + of_nat k + 1" using suc [OF assms(5)] count [of k] now lim by (simp add: word_le_nat_alt)
    then show ?thesis using tick_elects [of "at k" c gen] suc [OF assms(5)] assms(2-4) at by simp
  qed
  then show ?thesis using early [OF assms(5)] at by simp
qed

theorem election_fires_at_limit_witness:
  "let gen = (\<lambda>g. (40, g)); p = start_process gen () ''A'' [''B'']
   in node ((tick serde_json gen ^^ 39) p) = node p \<and> node ((tick serde_json gen ^^ 40) p) = candidacy (node p)"
proof -
  let ?gen = "\<lambda>g :: unit. (40 :: u64, g)"
  let ?p = "start_process ?gen () ''A'' [''B''] :: (json, unit) Process"
  have p: "\<not> poisoned ?p" "\<not> is_Leader (state (node ?p))" "log (node ?p) \<noteq> []"
    "unat (current_term (node ?p)) < 2 ^ 64 - 1"
    "39 + unat (election_tick_count (engine ?p)) < unat (election_timeout_limit (engine ?p))"
    "Suc 39 + unat (election_tick_count (engine ?p)) = unat (election_timeout_limit (engine ?p))"
    by (simp_all add: start_process_def engine_new_def new_def)
  have "Suc 39 = (40 :: nat)" by simp
  then show ?thesis
    unfolding Let_def using election_fires_at_limit [OF p(1-5), of serde_json ?gen] p(6) by (metis (no_types))
qed

text \<open>A connection handles its lines in order; a line that cannot be read is skipped, a line that is not a message
  is reported on standard error and skipped, and the lines after it are handled as if it had not been there.\<close>

lemma connection_skips_bad_lines:
  "(handle_connection c gen from_str lines p)\<lparr>stderr := []\<rparr>
    = (fold (deliver c gen) (concat (map (\<lambda>l. case l of None \<Rightarrow> []
        | Some l \<Rightarrow> (case from_str l of Inl e \<Rightarrow> [] | Inr m \<Rightarrow> [m])) lines)) p)\<lparr>stderr := []\<rparr>"
proof (induction lines arbitrary: p)
  case (Cons l lines)
  have inert: "fold (deliver c gen) ms q = q" if "poisoned q" for ms and q :: "('a, 'b) Process"
    using that by (induction ms) (simp_all add: deliver_def under_lock_def)
  show ?case
  proof (cases l; cases "from_str (the l)")
    fix s e assume "l = Some s" "from_str (the l) = Inl e"
    then show ?thesis using Cons [of "p\<lparr>stderr := stderr p @ [''JSON Parse Error: '' @ e]\<rparr>"]
      by (simp add: fold_deliver_stderr)
  next
    fix s m assume "l = Some s" "from_str (the l) = Inr m"
    then show ?thesis using Cons [of "deliver c gen m p"] inert by (simp add: Let_def)
  qed (use Cons in simp_all)
qed simp

end
