(* ===== verification/Cluster_Run.thy ===== *)
theory Cluster_Run
  imports Cluster Process_Properties
begin

section \<open>Executable schedules of a cluster\<close>

text \<open>
  A schedule names, one after the other, the process that ticks (some number of times), the message that the relay
  delivers (the \<open>k\<close>-th one that a process has put on its channel) or the command that a
  client sends. \<open>run\<close> carries a schedule out and fails when an event is not possible, so
  what it returns is a reachable state of the cluster. The concrete runs use the JSON codec
  and a generator that always draws the same limit.
\<close>

datatype event = Ticks nat node_id | Deliver node_id nat | Command node_id string

definition client_message :: "node_id \<Rightarrow> string \<Rightarrow> json Message" where
  "client_message i command = \<lparr>m_from = ''client'', m_to = i, m_type = ''ClientRequest'',
     m_payload = JObject [(''command'', JString command)]\<rparr>"

fun ticks :: "'v codec \<Rightarrow> ('g \<Rightarrow> u64 \<times> 'g) \<Rightarrow> nat \<Rightarrow> ('v, 'g) Process \<Rightarrow> ('v, 'g) Process" where
  "ticks c gen 0 p = p"
| "ticks c gen (Suc k) p = ticks c gen k (tick c gen p)"

fun perform ::
    "node_id list \<Rightarrow> ('g \<Rightarrow> u64 \<times> 'g) \<Rightarrow> event
      \<Rightarrow> (node_id \<Rightarrow> (json, 'g) Process) \<Rightarrow> (node_id \<Rightarrow> (json, 'g) Process) option" where
  "perform ns gen (Ticks k i) s =
     (if i \<in> set ns then Some (s(i := ticks serde_json gen k (s i))) else None)"
| "perform ns gen (Deliver j k) s =
     (if j \<in> set ns \<and> k < length (tx (s j)) \<and> m_to (tx (s j) ! k) \<in> set ns then
        (let m = tx (s j) ! k in Some (s(m_to m := deliver serde_json gen m (s (m_to m)))))
      else None)"
| "perform ns gen (Command i command) s =
     (if i \<in> set ns then Some (s(i := deliver serde_json gen (client_message i command) (s i))) else None)"

fun run ::
    "node_id list \<Rightarrow> ('g \<Rightarrow> u64 \<times> 'g) \<Rightarrow> event list
      \<Rightarrow> (node_id \<Rightarrow> (json, 'g) Process) \<Rightarrow> (node_id \<Rightarrow> (json, 'g) Process) option" where
  "run ns gen [] s = Some s"
| "run ns gen (e # es) s = (case perform ns gen e s of None \<Rightarrow> None | Some s' \<Rightarrow> run ns gen es s')"

lemma ticks_add: "ticks c gen (k + l) p = ticks c gen l (ticks c gen k p)"
  by (induction k arbitrary: p) simp_all

lemma tick_steps: "i \<in> N \<Longrightarrow> (cstep N c gen)\<^sup>*\<^sup>* s (s(i := ticks c gen k (s i)))"
proof (induction k arbitrary: s)
  case (Suc k)
  let ?s = "s(i := tick c gen (s i))"
  have "cstep N c gen s ?s" by (rule cstep.c_tick [OF Suc.prems])
  also have "(cstep N c gen)\<^sup>*\<^sup>* ?s (?s(i := ticks c gen k (?s i)))" by (rule Suc.IH [OF Suc.prems])
  finally show ?case by (simp only: ticks.simps fun_upd_upd fun_upd_same)
qed simp

lemma perform_steps:
  assumes "perform ns gen e s = Some s'"
  shows "(cstep (set ns) serde_json gen)\<^sup>*\<^sup>* s s'"
proof (cases e)
  case (Ticks k i)
  then show ?thesis using assms tick_steps by (auto split: if_splits)
next
  case (Deliver j k)
  then show ?thesis using assms by (auto simp: Let_def intro!: r_into_rtranclp cstep.c_deliver split: if_splits)
next
  case (Command i x)
  then show ?thesis
    using assms
    by (auto simp: client_message_def node_message_types_def intro!: r_into_rtranclp cstep.c_client split: if_splits)
qed

lemma run_steps: "run ns gen es s = Some s' \<Longrightarrow> (cstep (set ns) serde_json gen)\<^sup>*\<^sup>* s s'"
proof (induction es arbitrary: s)
  case (Cons e es)
  then obtain s1 where "perform ns gen e s = Some s1" "run ns gen es s1 = Some s'"
    by (auto split: option.splits)
  then show ?case using Cons.IH perform_steps rtranclp_trans by metis
qed simp

lemma run_append: "run ns gen (es @ fs) s = (case run ns gen es s of None \<Rightarrow> None | Some s' \<Rightarrow> run ns gen fs s')"
  by (induction es arbitrary: s) (auto split: option.split)

subsection \<open>Three nodes\<close>

definition trio :: "node_id list" where
  "trio = [''A'', ''B'', ''C'']"

definition trio_peers :: "node_id \<Rightarrow> node_id list" where
  "trio_peers i = filter (\<lambda>j. j \<noteq> i) trio"

text \<open>The least limit that \<open>gen_range(30..150)\<close> can draw; a silent node times out at every thirtieth tick.\<close>

definition least_limit :: "unit \<Rightarrow> u64 \<times> unit" where
  "least_limit g = (30, g)"

lemma least_limit_range: "gen_range_30_150 least_limit"
  by (simp add: gen_range_30_150_def least_limit_def)

definition time_out :: "node_id \<Rightarrow> event" where
  "time_out i = Ticks 30 i"

definition trio_start :: "node_id \<Rightarrow> (json, unit) Process" where
  "trio_start i = start_process least_limit () i (trio_peers i)"

lemma trio_config: "cluster_config (set trio) trio_peers"
  by (auto simp: cluster_config_def trio_peers_def trio_def)

lemma trio_initial: "c_initial (set trio) trio_peers least_limit trio_start"
  by (auto simp: c_initial_def trio_start_def)

lemma c_reachable_star:
  "(cstep N c gen)\<^sup>*\<^sup>* s s' \<Longrightarrow> c_reachable N ps c gen s \<Longrightarrow> c_reachable N ps c gen s'"
  by (induction rule: rtranclp_induct) (auto intro: c_reachable.c_next)

lemma trio_reachable:
  "run trio least_limit es trio_start = Some s \<Longrightarrow> c_reachable (set trio) trio_peers serde_json least_limit s"
  using c_reachable_star [OF run_steps c_reachable.c_start [OF trio_initial]] .

lemma trio_members [simp]: "''A'' \<in> set trio" "''B'' \<in> set trio" "''C'' \<in> set trio"
  by (simp_all add: trio_def)

subsection \<open>A run with two leaders\<close>

text \<open>
  \<open>A\<close> is elected by \<open>B\<close> and commits \<open>x\<close>, which \<open>B\<close> has acknowledged. Then \<open>A\<close> proposes
  \<open>y\<close>, which reaches \<open>B\<close> together with the commit index; \<open>B\<close> times out and is elected by
  \<open>C\<close>, while \<open>A\<close> still believes to be the leader of its old term.
\<close>

definition schedule_1 :: "event list" where
  "schedule_1 = [time_out ''A'', Deliver ''A'' 0, Deliver ''B'' 0, Command ''A'' ''x'', Deliver ''A'' 5, Deliver ''B'' 1]"

definition schedule_2 :: "event list" where
  "schedule_2 = [Command ''A'' ''y'', Deliver ''A'' 8, time_out ''B'', Deliver ''B'' 4, Deliver ''C'' 0]"

definition state_1 :: "node_id \<Rightarrow> (json, unit) Process" where
  "state_1 = the (run trio least_limit schedule_1 trio_start)"

definition state_2 :: "node_id \<Rightarrow> (json, unit) Process" where
  "state_2 = the (run trio least_limit schedule_2 state_1)"

definition entry :: "u64 \<Rightarrow> u64 \<Rightarrow> string \<Rightarrow> LogEntry" where
  "entry t i command = \<lparr>le_term = t, le_index = i, le_command = command\<rparr>"

lemma schedule_1_runs:
  "case run trio least_limit schedule_1 trio_start of None \<Rightarrow> False | Some s \<Rightarrow>
     node (s ''A'') = \<lparr>self_id = ''A'', peers = [''B'', ''C''], current_term = 1, voted_for = Some ''A'',
        leader_id = Some ''A'', log = [sentinel, entry 1 1 ''x''],
        state = Leader [(''B'', 2), (''C'', 1)] [(''B'', 1), (''C'', 0)], committed_index = 1, last_applied = 1\<rparr>
     \<and> node (s ''B'') = \<lparr>self_id = ''B'', peers = [''A'', ''C''], current_term = 1, voted_for = Some ''A'',
        leader_id = Some ''A'', log = [sentinel, entry 1 1 ''x''], state = Follower, committed_index = 0, last_applied = 0\<rparr>
     \<and> log (node (s ''C'')) = [sentinel] \<and> current_term (node (s ''C'')) = 0
     \<and> applied (s ''A'') = [(1, ''x'')]
     \<and> tx (s ''B'') = [\<lparr>m_from = ''B'', m_to = ''A'', m_type = ''VoteReply'',
          m_payload = json_vote_reply \<lparr>rr_term = 1, rr_vote_granted = True\<rparr>\<rparr>,
        \<lparr>m_from = ''B'', m_to = ''A'', m_type = ''AppendReply'',
          m_payload = json_append_reply \<lparr>ar_term = 1, ar_success = True, ar_match_index = 1\<rparr>\<rparr>]"
  by code_simp

lemma schedule_2_runs:
  "case run trio least_limit (schedule_1 @ schedule_2) trio_start of None \<Rightarrow> False | Some s \<Rightarrow>
     node (s ''A'') = \<lparr>self_id = ''A'', peers = [''B'', ''C''], current_term = 1, voted_for = Some ''A'',
        leader_id = Some ''A'', log = [sentinel, entry 1 1 ''x'', entry 1 2 ''y''],
        state = Leader [(''B'', 2), (''C'', 1)] [(''B'', 1), (''C'', 0)], committed_index = 1, last_applied = 1\<rparr>
     \<and> node (s ''B'') = \<lparr>self_id = ''B'', peers = [''A'', ''C''], current_term = 2, voted_for = Some ''B'',
        leader_id = Some ''B'', log = [sentinel, entry 1 1 ''x'', entry 1 2 ''y''],
        state = Leader [(''A'', 3), (''C'', 3)] [(''A'', 0), (''C'', 0)], committed_index = 1, last_applied = 1\<rparr>
     \<and> applied (s ''B'') = [(1, ''x'')]"
  by code_simp

lemma run_states:
  "run trio least_limit schedule_1 trio_start = Some state_1"
  "run trio least_limit schedule_2 state_1 = Some state_2"
proof -
  show 1: "run trio least_limit schedule_1 trio_start = Some state_1"
    using schedule_1_runs by (auto simp: state_1_def split: option.splits)
  show "run trio least_limit schedule_2 state_1 = Some state_2"
    using schedule_2_runs by (auto simp: state_2_def run_append 1 split: option.splits)
qed

lemma reachable_1: "c_reachable (set trio) trio_peers serde_json least_limit state_1"
  by (rule trio_reachable [OF run_states(1)])

lemma steps_1_2: "(cstep (set trio) serde_json least_limit)\<^sup>*\<^sup>* state_1 state_2"
  by (rule run_steps [OF run_states(2)])

lemma state_1_facts:
  "node (state_1 ''A'') = \<lparr>self_id = ''A'', peers = [''B'', ''C''], current_term = 1, voted_for = Some ''A'',
      leader_id = Some ''A'', log = [sentinel, entry 1 1 ''x''],
      state = Leader [(''B'', 2), (''C'', 1)] [(''B'', 1), (''C'', 0)], committed_index = 1, last_applied = 1\<rparr>"
  "node (state_1 ''B'') = \<lparr>self_id = ''B'', peers = [''A'', ''C''], current_term = 1, voted_for = Some ''A'',
      leader_id = Some ''A'', log = [sentinel, entry 1 1 ''x''], state = Follower, committed_index = 0, last_applied = 0\<rparr>"
  "log (node (state_1 ''C'')) = [sentinel]" "current_term (node (state_1 ''C'')) = 0"
  "applied (state_1 ''A'') = [(1, ''x'')]"
  "tx (state_1 ''B'') = [\<lparr>m_from = ''B'', m_to = ''A'', m_type = ''VoteReply'',
        m_payload = json_vote_reply \<lparr>rr_term = 1, rr_vote_granted = True\<rparr>\<rparr>,
      \<lparr>m_from = ''B'', m_to = ''A'', m_type = ''AppendReply'',
        m_payload = json_append_reply \<lparr>ar_term = 1, ar_success = True, ar_match_index = 1\<rparr>\<rparr>]"
  using schedule_1_runs by (simp_all add: run_states)

lemma state_2_facts:
  "node (state_2 ''A'') = \<lparr>self_id = ''A'', peers = [''B'', ''C''], current_term = 1, voted_for = Some ''A'',
      leader_id = Some ''A'', log = [sentinel, entry 1 1 ''x'', entry 1 2 ''y''],
      state = Leader [(''B'', 2), (''C'', 1)] [(''B'', 1), (''C'', 0)], committed_index = 1, last_applied = 1\<rparr>"
  "node (state_2 ''B'') = \<lparr>self_id = ''B'', peers = [''A'', ''C''], current_term = 2, voted_for = Some ''B'',
      leader_id = Some ''B'', log = [sentinel, entry 1 1 ''x'', entry 1 2 ''y''],
      state = Leader [(''A'', 3), (''C'', 3)] [(''A'', 0), (''C'', 0)], committed_index = 1, last_applied = 1\<rparr>"
  "applied (state_2 ''B'') = [(1, ''x'')]"
  using schedule_2_runs by (simp_all add: run_append run_states)

subsection \<open>Timers of a cluster\<close>

lemma reachable_timers_ok:
  fixes s :: "node_id \<Rightarrow> ('v, 'g) Process" and gen :: "'g \<Rightarrow> u64 \<times> 'g"
  assumes "gen_range_30_150 gen" "c_reachable N peers_of c gen s" "i \<in> N"
  shows "timers_ok (s i)"
proof -
  have "\<forall>i \<in> N. timers_ok (s i)"
    using assms(2)
  proof (rule c_reachable_invariant)
    show "\<forall>i \<in> N. timers_ok (s i)" if "c_initial N peers_of gen s" for s :: "node_id \<Rightarrow> ('v, 'g) Process"
      using that timers_ok_start [OF assms(1)] by (fastforce simp: c_initial_def)
    show "\<forall>i \<in> N. timers_ok (s' i)" if "\<forall>i \<in> N. timers_ok (s i)" "cstep N c gen s s'"
      for s s' :: "node_id \<Rightarrow> ('v, 'g) Process"
      using that(2,1) by cases (auto intro: timers_ok_tick [OF assms(1)] timers_ok_deliver [OF assms(1)])
  qed
  then show ?thesis using assms(3) by simp
qed

text \<open>C31: The timers. If the generator draws from 30..150 as the code asks it to, then in every reachable state the
  election limit of every process is in that range, its election counter is below the limit and its heartbeat
  counter below 6: the counters' additions never overflow and no timeout is ever skipped.\<close>

theorem timers_stay_in_range:
  fixes s :: "node_id \<Rightarrow> ('v, 'g) Process" and gen :: "'g \<Rightarrow> u64 \<times> 'g"
  assumes "gen_range_30_150 gen" "c_reachable N peers_of c gen s" "i \<in> N"
  shows "30 \<le> election_timeout_limit (engine (s i)) \<and> election_timeout_limit (engine (s i)) < 150
    \<and> election_tick_count (engine (s i)) < election_timeout_limit (engine (s i))
    \<and> heartbeat_tick_count (engine (s i)) < 6"
  using reachable_timers_ok [OF assms] by (simp add: timers_ok_def heartbeat_interval_def)

theorem timers_stay_in_range_witness:
  "election_tick_count (engine (state_1 ''C'')) < election_timeout_limit (engine (state_1 ''C''))
    \<and> heartbeat_tick_count (engine (state_1 ''A'')) < 6"
  using timers_stay_in_range [OF least_limit_range reachable_1] trio_members by blast

end
