(* ===== verification/Cluster_Safety.thy ===== *)
theory Cluster_Safety
  imports Cluster_Refinement Cluster_Run "HOL-Library.Sublist"
begin

section \<open>What the cluster guarantees\<close>

text \<open>
  The safety properties of the paper's Figure 3 and their consequences, for every reachable
  state of the cluster of processes and, where two states occur, for any later state. They
  are read off the related states of the specification.
\<close>

subsection \<open>What the history keeps\<close>

lemma any_steps_inv: "(any_step N)\<^sup>*\<^sup>* a a' \<Longrightarrow> a_inv N a \<Longrightarrow> a_inv N a'"
  by (induction rule: rtranclp_induct) (auto simp: any_step_def intro: a_inv_step)

lemma any_steps_leader:
  assumes "(any_step N)\<^sup>*\<^sup>* a a'" "a_inv N a" "h_ldr a t = Some (c, L)"
  shows "\<exists>X. h_ldr a' t = Some (c, L @ X)"
  using assms
proof (induction rule: rtranclp_induct)
  case (step b d)
  have inv: "inv_ldr N b" "inv_vote N b" using any_steps_inv [OF step.hyps(1) step.prems(1)] by (simp_all add: a_inv_def)
  obtain X where "h_ldr b t = Some (c, L @ X)" using step.IH [OF step.prems] by blast
  moreover obtain i where "astep N i b d" using step.hyps(2) by (auto simp: any_step_def)
  ultimately obtain Y where "h_ldr d t = Some (c, (L @ X) @ Y)" using ldr_grows inv by metis
  then show ?case by simp
qed auto

lemma any_steps_commit_ok:
  assumes "(any_step N)\<^sup>*\<^sup>* a a'" "a_inv N a" "commit_ok N a T l n"
  shows "commit_ok N a' T l n"
  using assms
proof (induction rule: rtranclp_induct)
  case (step b d)
  have inv: "inv_ldr N b" "inv_vote N b" using any_steps_inv [OF step.hyps(1) step.prems(1)] by (simp_all add: a_inv_def)
  obtain i where "astep N i b d" using step.hyps(2) by (auto simp: any_step_def)
  then show ?case using commit_ok_mono [OF _ inv step.IH [OF step.prems]] by simp
qed auto

lemma any_steps_backed:
  assumes "(any_step N)\<^sup>*\<^sup>* a a'" "a_inv N a" "backed a l"
  shows "backed a' l"
  by (rule backed_mono [OF any_steps_leader [OF assms(1,2)] assms(3)])

text \<open>Two states of a run, seen through the specification.\<close>

lemma cluster_run:
  assumes "serde_codec c" "cluster_config N peers_of" "c_reachable N peers_of c gen s" "(cstep N c gen)\<^sup>*\<^sup>* s s'"
  obtains a a' where "cluster_rel N c s a" "(any_step N)\<^sup>*\<^sup>* a a'" "cluster_rel N c s' a'"
proof -
  obtain a where a: "cluster_rel N c s a" using cluster_refines [OF assms(1-3)] by blast
  moreover have "finite N" using assms(2) by (simp add: cluster_config_def)
  ultimately show ?thesis
    using raft.steps_followed [where N = N and c = c and gen = gen and x = s and x' = s' and a = a] assms(1,4) that
    by blast
qed

lemma related_leader:
  assumes "cluster_rel N c s a" "i \<in> N" "is_Leader (state (node (s i)))"
  shows "h_ldr a (current_term (node (s i))) = Some (i, log (node (s i)))"
proof -
  have inv: "inv_ldr N a" and rel: "node_rel N a i (node (s i))"
    using assms(1,2) by (simp_all add: cluster_rel_def a_inv_def process_rel_def)
  show ?thesis using inv_ldr_role [OF inv, of i] node_relD(4,6,7) [OF rel] assms(3) by (auto elim!: is_LeaderE)
qed

lemma related_log:
  assumes "cluster_rel N c s a" "i \<in> N"
  shows "a_inv N a" "log_ok (log (node (s i)))" "backed a (log (node (s i)))"
    "le_term (last (log (node (s i)))) \<le> current_term (node (s i))"
    "commit_ok N a (current_term (node (s i))) (log (node (s i))) (unat (committed_index (node (s i))))"
    "last_applied (node (s i)) = committed_index (node (s i))"
    "applied (s i) = applied_between (log (node (s i))) 0 (unat (committed_index (node (s i))))"
proof -
  have inv: "a_inv N a" and rel: "process_rel N c a i (s i)"
    using assms by (simp_all add: cluster_rel_def)
  note d = node_relD [OF process_relD(1) [OF rel]]
  show "a_inv N a" by (rule inv)
  have i: "inv_log a" "inv_commit N a" using inv by (simp_all add: a_inv_def)
  show "log_ok (log (node (s i)))" "backed a (log (node (s i)))" "le_term (last (log (node (s i)))) \<le> current_term (node (s i))"
    using inv_logD [OF i(1), of i] d by simp_all
  show "commit_ok N a (current_term (node (s i))) (log (node (s i))) (unat (committed_index (node (s i))))"
    using i(2) d by (simp add: inv_commit_def flip: d(4,6,8))
  show "last_applied (node (s i)) = committed_index (node (s i))" by (rule d(9))
  then show "applied (s i) = applied_between (log (node (s i))) 0 (unat (committed_index (node (s i))))"
    using process_relD(2) [OF rel] by (simp add: applied_rel_def)
qed

lemma commit_ok_length: "commit_ok N a T l n \<Longrightarrow> n < length l"
  by (simp add: commit_ok_def)

lemma length_applied_between: "b < length l \<Longrightarrow> length (applied_between l 0 b) = b"
  by (simp add: applied_between_inside del: upt_Suc)

text \<open>Two committed prefixes of a run, at whatever nodes and times, agree.\<close>

lemma run_commits_agree:
  assumes "serde_codec c" "cluster_config N peers_of" "c_reachable N peers_of c gen s" "(cstep N c gen)\<^sup>*\<^sup>* s s'"
    and "i \<in> N" "j \<in> N"
  defines "n \<equiv> node (s i)" and "n' \<equiv> node (s' j)"
  defines "k \<equiv> min (unat (committed_index n)) (unat (committed_index n'))"
  shows "take (Suc k) (log n) = take (Suc k) (log n') \<and> k < length (log n) \<and> k < length (log n')"
proof -
  obtain a a' where a: "cluster_rel N c s a" "(any_step N)\<^sup>*\<^sup>* a a'" "cluster_rel N c s' a'"
    using cluster_run [OF assms(1-4)] .
  note r = related_log [OF a(1) assms(5)] and r' = related_log [OF a(3) assms(6)]
  have safe: "inv_safe N a'" using r'(1) by (simp add: a_inv_def)
  show ?thesis
    using committed_prefixes_agree [OF safe any_steps_commit_ok [OF a(2) r(1,5)] r'(5) r(2) r'(2)]
      commit_ok_length [OF r(5)] commit_ok_length [OF r'(5)]
    by (auto simp: k_def n_def n'_def)
qed

lemma applied_prefix:
  assumes "take (Suc b) l = take (Suc b) l'" "b < length l" "b < length l'" "b \<le> b'"
  shows "prefix (applied_between l 0 b) (applied_between l' 0 b')"
  using applied_between_cong [OF assms(1-3)] applied_between_append [of 0 b b' l'] assms(4)
  by (auto simp: prefix_def)

subsection \<open>What is applied stays applied\<close>

lemma handle_message_applied:
  assumes "handle_message c gen p m = Inr p'"
  shows "\<exists>xs. applied p' = applied p @ xs"
proof (cases "m_type m = ''AppendEntries''")
  case True
  then obtain x where x: "from_slice_append_entries c (m_payload m) = Some x"
    using assms by (auto simp: handle_message_def res_simps)
  obtain n r fx where "handle_append_entries (node p) x = (n, r, fx)" by (cases "handle_append_entries (node p) x")
  then have "p' = execute_effects c gen fx (send (p\<lparr>node := n\<rparr>) (envelope n (m_from m) ''AppendReply'' (to_value_append_reply c r)))"
    using True x assms by (simp add: handle_message_def Let_def)
  then show ?thesis by (simp add: execute_effects_out)
next
  case False
  then show ?thesis
    using assms by (auto simp: handle_message_def Let_def res_simps execute_effects_out split: if_splits)
qed

lemma tick_body_applied:
  assumes "tick_body c gen p = Inr p'"
  shows "\<exists>xs. applied p' = applied p @ xs"
  using assms
  by (auto simp: tick_body_def Let_def res_simps execute_effects_out split: if_splits prod.splits)

lemma deliver_applied: "prefix (applied p) (applied (deliver c gen m p))"
  by (cases c gen m p rule: deliver_cases) (use handle_message_applied in \<open>fastforce simp: prefix_def\<close>)+

lemma tick_applied: "prefix (applied p) (applied (tick c gen p))"
  by (cases c gen p rule: tick_cases) (use tick_body_applied in \<open>fastforce simp: prefix_def\<close>)+

lemma cstep_applied: "cstep N c gen s s' \<Longrightarrow> prefix (applied (s i)) (applied (s' i))"
  by (elim cstepE) (simp_all add: deliver_applied tick_applied)

lemma run_applied: "(cstep N c gen)\<^sup>*\<^sup>* s s' \<Longrightarrow> prefix (applied (s i)) (applied (s' i))"
  by (induction rule: rtranclp_induct) (auto intro: cstep_applied prefix_order.trans)

lemma applied_commit:
  assumes "cluster_rel N c s a" "i \<in> N"
  shows "length (applied (s i)) = unat (committed_index (node (s i)))"
  using related_log(5,7) [OF assms] by (simp add: length_applied_between commit_ok_length)

lemma run_commit_mono:
  assumes "serde_codec c" "cluster_config N peers_of" "c_reachable N peers_of c gen s" "(cstep N c gen)\<^sup>*\<^sup>* s s'" "i \<in> N"
  shows "committed_index (node (s i)) \<le> committed_index (node (s' i))"
proof -
  obtain a a' where a: "cluster_rel N c s a" "cluster_rel N c s' a'" using cluster_run [OF assms(1-4)] .
  show ?thesis
    using prefix_length_le [OF run_applied [OF assms(4), of i]] applied_commit [OF a(1) assms(5)]
      applied_commit [OF a(2) assms(5)]
    by (simp add: word_le_nat_alt)
qed

subsection \<open>A majority stores what is committed\<close>

lemma related_majority:
  assumes "cluster_rel N c s a" "i \<in> N" "finite N"
  defines "k \<equiv> unat (committed_index (node (s i)))"
  shows "\<exists>Q. majority N Q \<and> (\<forall>v \<in> Q. k < length (log (node (s v)))
    \<and> take (Suc k) (log (node (s v))) = take (Suc k) (log (node (s i))))"
proof (cases "k = 0")
  case True
  have "0 < card N" using assms(2,3) card_gt_0_iff by blast
  then have "majority N N" using assms(3) by (simp add: majority_def)
  moreover have "take (Suc 0) (log (node (s v))) = [sentinel]" "0 < length (log (node (s v)))" if "v \<in> N" for v
    using log_okD(1,2) [OF related_log(2) [OF assms(1) that]] by (auto simp: take_Suc hd_conv_nth)
  ultimately show ?thesis using True assms(2) by (intro exI [of _ N]) auto
next
  case False
  have inv: "inv_node N a" using related_log(1) [OF assms(1,2)] by (simp add: a_inv_def)
  obtain t m L where c: "committed N a t m L" "k \<le> m" "take (Suc k) (log (node (s i))) = take (Suc k) L"
    using related_log(5) [OF assms(1,2)] False unfolding commit_ok_def k_def by blast
  then obtain Q where Q: "majority N Q" "\<forall>v \<in> Q. acked a v t m" and own: "own_entry a t m L"
    by (auto simp: committed_def)
  have "k < length (log (node (s v))) \<and> take (Suc k) (log (node (s v))) = take (Suc k) (log (node (s i)))" if v: "v \<in> Q" for v
  proof -
    have "v \<in> N" using v Q(1) by (auto simp: majority_def)
    then have lv: "a_log a v = log (node (s v))"
      using assms(1) node_relD(6) by (auto simp: cluster_rel_def process_rel_def)
    have vm: "m < length (log (node (s v)))" "take (Suc m) (log (node (s v))) = take (Suc m) L"
      using inv_nodeD [OF inv own committed_choosable [OF c(1)], of v] Q(2) v lv by simp_all
    have "take (Suc k) (log (node (s v))) = take (Suc k) L" by (rule take_agree_le [OF vm(2)]) (use c(2) in simp)
    then show ?thesis using c(2,3) vm(1) by simp
  qed
  then show ?thesis using Q(1) by blast
qed

subsection \<open>The properties\<close>

lemma commit_ok_term_mono: "commit_ok N a T l n \<Longrightarrow> T \<le> T' \<Longrightarrow> commit_ok N a T' l n"
  unfolding commit_ok_def using order_trans by blast

text \<open>C1: Election safety. In any run of the cluster, whatever the relay drops, repeats or reorders, two
  processes that are leader of the same term, even at different moments, are the same process.\<close>

theorem election_safety:
  assumes "serde_codec c" "cluster_config N peers_of" "c_reachable N peers_of c gen s" "(cstep N c gen)\<^sup>*\<^sup>* s s'"
    and "i \<in> N" "j \<in> N" "is_Leader (state (node (s i)))" "is_Leader (state (node (s' j)))"
    and "current_term (node (s i)) = current_term (node (s' j))"
  shows "i = j"
proof -
  obtain a a' where a: "cluster_rel N c s a" "(any_step N)\<^sup>*\<^sup>* a a'" "cluster_rel N c s' a'"
    using cluster_run [OF assms(1-4)] .
  show ?thesis
    using any_steps_leader [OF a(2) related_log(1) [OF a(1) assms(5)] related_leader [OF a(1) assms(5,7)]]
      related_leader [OF a(3) assms(6,8)] assms(9) by auto
qed

theorem election_safety_witness:
  "is_Leader (state (node (state_1 ''A''))) \<and> is_Leader (state (node (state_2 ''A'')))
    \<and> current_term (node (state_1 ''A'')) = current_term (node (state_2 ''A'')) \<and> ''A'' = ''A''"
  using election_safety [OF json.serde_codec_axioms trio_config reachable_1 steps_1_2, of "''A''" "''A''"]
  by (simp add: state_1_facts state_2_facts)

text \<open>C2: State machine safety. What process i has committed at some moment of a run and what process j has
  committed at a later moment agree entry by entry (term, index and command) as far as both reach, and both logs
  hold those entries: a committed entry is never replaced, at any node.\<close>

theorem state_machine_safety:
  assumes "serde_codec c" "cluster_config N peers_of" "c_reachable N peers_of c gen s" "(cstep N c gen)\<^sup>*\<^sup>* s s'"
    and "i \<in> N" "j \<in> N" and "k \<le> unat (committed_index (node (s i)))" "k \<le> unat (committed_index (node (s' j)))"
  shows "k < length (log (node (s i))) \<and> k < length (log (node (s' j))) \<and> log (node (s i)) ! k = log (node (s' j)) ! k"
  using run_commits_agree [OF assms(1-6)] assms(7,8) take_agree_nth [of _ "log (node (s i))" "log (node (s' j))" k] by auto

theorem state_machine_safety_witness:
  "log (node (state_1 ''A'')) ! 1 = entry 1 1 ''x'' \<and> log (node (state_1 ''A'')) ! 1 = log (node (state_2 ''B'')) ! 1"
  using state_machine_safety [OF json.serde_codec_axioms trio_config reachable_1 steps_1_2, of "''A''" "''B''" 1]
  by (simp add: state_1_facts state_2_facts)

text \<open>C3: Leader completeness. Whatever a process has committed is in the log of every leader, at that moment or
  later, whose term is at least the term the process was in.\<close>

theorem leader_completeness:
  assumes "serde_codec c" "cluster_config N peers_of" "c_reachable N peers_of c gen s" "(cstep N c gen)\<^sup>*\<^sup>* s s'"
    and "i \<in> N" "j \<in> N" "is_Leader (state (node (s' j)))" "current_term (node (s i)) \<le> current_term (node (s' j))"
    and "k \<le> unat (committed_index (node (s i)))"
  shows "k < length (log (node (s' j))) \<and> log (node (s' j)) ! k = log (node (s i)) ! k"
proof -
  obtain a a' where a: "cluster_rel N c s a" "(any_step N)\<^sup>*\<^sup>* a a'" "cluster_rel N c s' a'"
    using cluster_run [OF assms(1-4)] .
  note r = related_log [OF a(1) assms(5)] and r' = related_log [OF a(3) assms(6)]
  have safe: "inv_safe N a'" using r'(1) by (simp add: a_inv_def)
  note ok = commit_ok_term_mono [OF any_steps_commit_ok [OF a(2) r(1,5)] assms(8)]
  have "take (Suc k) (log (node (s i))) = take (Suc k) (log (node (s' j)))"
  proof (cases "committed_index (node (s i)) = 0")
    case True
    then show ?thesis
      using assms(9) log_okD(1,2) [OF r(2)] log_okD(1,2) [OF r'(2)] by (simp add: take_Suc hd_conv_nth)
  next
    case False
    then have "unat (committed_index (node (s i))) \<noteq> 0" by (simp add: unat_eq_0)
    from commit_prefix_of_leader [OF safe ok related_leader [OF a(3) assms(6,7)] this] show ?thesis
      by (rule take_agree_le) (use assms(9) in simp)
  qed
  moreover have "k < length (log (node (s i)))" using commit_ok_length [OF r(5)] assms(9) by simp
  ultimately show ?thesis using take_agree_length [of "Suc k"] take_agree_nth [of "Suc k" _ _ k] by fastforce
qed

theorem leader_completeness_witness:
  "committed_index (node (state_1 ''A'')) = 1 \<and> is_Leader (state (node (state_2 ''B'')))
    \<and> log (node (state_2 ''B'')) ! 1 = log (node (state_1 ''A'')) ! 1"
  using leader_completeness [OF json.serde_codec_axioms trio_config reachable_1 steps_1_2, of "''A''" "''B''" 1]
  by (simp add: state_1_facts state_2_facts)

text \<open>C4: Log matching. If an entry of one process's log and an entry of any process's log at that or a later
  moment have the same position and the same term, the two logs are equal up to and including that position.\<close>

theorem log_matching:
  assumes "serde_codec c" "cluster_config N peers_of" "c_reachable N peers_of c gen s" "(cstep N c gen)\<^sup>*\<^sup>* s s'"
    and "i \<in> N" "j \<in> N" "k < length (log (node (s i)))" "k < length (log (node (s' j)))"
    and "le_term (log (node (s i)) ! k) = le_term (log (node (s' j)) ! k)"
  shows "take (Suc k) (log (node (s i))) = take (Suc k) (log (node (s' j)))"
proof -
  obtain a a' where a: "cluster_rel N c s a" "(any_step N)\<^sup>*\<^sup>* a a'" "cluster_rel N c s' a'"
    using cluster_run [OF assms(1-4)] .
  note r = related_log [OF a(1) assms(5)] and r' = related_log [OF a(3) assms(6)]
  from backed_logs_match [OF r(2) any_steps_backed [OF a(2) r(1,3)] r'(2,3)]
  show ?thesis by (rule logs_matchD) (use assms(7-9) in simp_all)
qed

theorem log_matching_witness:
  "take 2 (log (node (state_1 ''B''))) = take 2 (log (node (state_2 ''B'')))"
  using log_matching [OF json.serde_codec_axioms trio_config reachable_1 steps_1_2, of "''B''" "''B''" 1]
  by (simp add: state_1_facts state_2_facts numeral_2_eq_2)

text \<open>C22: Leader append-only. A process that is leader of the same term at two moments of a run has at the later
  one the log of the earlier one with entries added at its end.\<close>

theorem leader_append_only:
  assumes "serde_codec c" "cluster_config N peers_of" "c_reachable N peers_of c gen s" "(cstep N c gen)\<^sup>*\<^sup>* s s'"
    and "i \<in> N" "is_Leader (state (node (s i)))" "is_Leader (state (node (s' i)))"
    and "current_term (node (s i)) = current_term (node (s' i))"
  shows "\<exists>es. log (node (s' i)) = log (node (s i)) @ es"
proof -
  obtain a a' where a: "cluster_rel N c s a" "(any_step N)\<^sup>*\<^sup>* a a'" "cluster_rel N c s' a'"
    using cluster_run [OF assms(1-4)] .
  show ?thesis
    using any_steps_leader [OF a(2) related_log(1) [OF a(1) assms(5)] related_leader [OF a(1) assms(5,6)]]
      related_leader [OF a(3) assms(5,7)] assms(8) by auto
qed

theorem leader_append_only_witness:
  "is_Leader (state (node (state_1 ''A''))) \<and> is_Leader (state (node (state_2 ''A'')))
    \<and> (\<exists>es. log (node (state_2 ''A'')) = log (node (state_1 ''A'')) @ es)"
  using leader_append_only [OF json.serde_codec_axioms trio_config reachable_1 steps_1_2, of "''A''"]
  by (simp add: state_1_facts state_2_facts)

text \<open>C11: The commit index of a process never decreases along a run, and the entries up to the earlier commit
  index are still in its log, unchanged.\<close>

theorem commit_never_regresses:
  assumes "serde_codec c" "cluster_config N peers_of" "c_reachable N peers_of c gen s" "(cstep N c gen)\<^sup>*\<^sup>* s s'" "i \<in> N"
  shows "committed_index (node (s i)) \<le> committed_index (node (s' i))
    \<and> take (Suc (unat (committed_index (node (s i))))) (log (node (s' i)))
      = take (Suc (unat (committed_index (node (s i))))) (log (node (s i)))"
  using run_commit_mono [OF assms] run_commits_agree [OF assms(1-4) assms(5,5)] by (simp add: word_le_nat_alt)

theorem commit_never_regresses_witness:
  "committed_index (node (state_1 ''B'')) < committed_index (node (state_2 ''B''))
    \<and> committed_index (node (state_1 ''B'')) \<le> committed_index (node (state_2 ''B''))"
  using commit_never_regresses [OF json.serde_codec_axioms trio_config reachable_1 steps_1_2, of "''B''"]
  by (simp add: state_1_facts state_2_facts)

text \<open>C6: The sequences of commands that any two processes have handed to their state machines, at whatever
  moments of a run, are equal or one is a prefix of the other; and what a process has applied stays applied.\<close>

theorem applied_sequences_agree:
  assumes "serde_codec c" "cluster_config N peers_of" "c_reachable N peers_of c gen s" "(cstep N c gen)\<^sup>*\<^sup>* s s'"
    and "i \<in> N" "j \<in> N"
  shows "prefix (applied (s i)) (applied (s' i))
    \<and> (prefix (applied (s i)) (applied (s' j)) \<or> prefix (applied (s' j)) (applied (s i)))"
proof -
  obtain a a' where a: "cluster_rel N c s a" "cluster_rel N c s' a'" using cluster_run [OF assms(1-4)] .
  note r = related_log [OF a(1) assms(5)] and r' = related_log [OF a(2) assms(6)]
  note agree = run_commits_agree [OF assms(1-6)]
  have "prefix (applied (s i)) (applied (s' j)) \<or> prefix (applied (s' j)) (applied (s i))"
    using agree applied_prefix [of "unat (committed_index (node (s i)))" "log (node (s i))" "log (node (s' j))"]
      applied_prefix [of "unat (committed_index (node (s' j)))" "log (node (s' j))" "log (node (s i))"]
    by (cases "unat (committed_index (node (s i))) \<le> unat (committed_index (node (s' j)))")
      (auto simp: r(7) r'(7) min_def)
  then show ?thesis using run_applied [OF assms(4)] by blast
qed

theorem applied_sequences_agree_witness:
  "applied (state_1 ''A'') = [(1, ''x'')] \<and> applied (state_2 ''B'') = [(1, ''x'')]
    \<and> prefix (applied (state_1 ''A'')) (applied (state_2 ''A''))"
  using applied_sequences_agree [OF json.serde_codec_axioms trio_config reachable_1 steps_1_2, of "''A''" "''B''"]
  by (simp add: state_1_facts state_2_facts)

text \<open>C7: Durability. In every reachable state, a majority of the cluster stores everything that some process has
  committed: the processes whose logs agree with its log up to its commit index are more than half.\<close>

theorem committed_on_majority:
  assumes "serde_codec c" "cluster_config N peers_of" "c_reachable N peers_of c gen s" "i \<in> N"
  shows "\<exists>Q. Q \<subseteq> N \<and> card N < 2 * card Q \<and> (\<forall>v \<in> Q.
      unat (committed_index (node (s i))) < length (log (node (s v)))
      \<and> take (Suc (unat (committed_index (node (s i))))) (log (node (s v)))
        = take (Suc (unat (committed_index (node (s i))))) (log (node (s i))))"
proof -
  obtain a where a: "cluster_rel N c s a" using cluster_refines [OF assms(1-3)] by blast
  have "finite N" using assms(2) by (simp add: cluster_config_def)
  from related_majority [OF a assms(4) this] show ?thesis unfolding majority_def by blast
qed

theorem committed_on_majority_witness:
  "\<exists>Q. card (set trio) < 2 * card Q
    \<and> Q \<subseteq> {v \<in> set trio. 1 < length (log (node (state_1 v))) \<and> take 2 (log (node (state_1 v))) = [sentinel, entry 1 1 ''x'']}"
proof -
  have "unat (committed_index (node (state_1 ''A''))) = 1" "log (node (state_1 ''A'')) = [sentinel, entry 1 1 ''x'']"
    by (simp_all add: state_1_facts)
  then show ?thesis
    using committed_on_majority [OF json.serde_codec_axioms trio_config reachable_1 trio_members(1)]
    by (auto simp: numeral_2_eq_2)
qed

text \<open>C23: The well-formedness of every node of a reachable state: the log starts with the sentinel, entry k has
  index k, terms never decrease along it nor exceed the current term, the commit index is inside it, and
  last_applied has caught up with it.\<close>

theorem node_state_invariant:
  assumes "serde_codec c" "cluster_config N peers_of" "c_reachable N peers_of c gen s" "i \<in> N"
  defines "n \<equiv> node (s i)"
  shows "log n \<noteq> [] \<and> log n ! 0 = sentinel \<and> (\<forall>k < length (log n). unat (le_index (log n ! k)) = k)
    \<and> sorted (map le_term (log n)) \<and> le_term (last (log n)) \<le> current_term n
    \<and> unat (committed_index n) < length (log n) \<and> last_applied n = committed_index n"
proof -
  obtain a where a: "cluster_rel N c s a" using cluster_refines [OF assms(1-3)] by blast
  note r = related_log [OF a assms(4)]
  show ?thesis
    using log_okD [OF r(2)] r(4,6) commit_ok_length [OF r(5)] by (simp add: n_def indexed_from_def)
qed

theorem node_state_invariant_witness:
  "unat (le_index (log (node (state_2 ''B'')) ! 2)) = 2 \<and> last_applied (node (state_2 ''B'')) = committed_index (node (state_2 ''B''))"
proof -
  have "2 < length (log (node (state_2 ''B'')))" by (simp add: state_2_facts)
  then show ?thesis
    using node_state_invariant [OF json.serde_codec_axioms trio_config c_reachable_star [OF steps_1_2 reachable_1] trio_members(2)]
    by blast
qed

text \<open>C24: What a process has applied is exactly its committed entries, each one once, in order and with its
  index: never an uncommitted one, and never one twice.\<close>

theorem applies_committed_once:
  assumes "serde_codec c" "cluster_config N peers_of" "c_reachable N peers_of c gen s" "i \<in> N"
  defines "n \<equiv> node (s i)"
  shows "applied (s i) = map (\<lambda>e. (le_index e, le_command e)) (take (unat (committed_index n)) (tl (log n)))"
proof -
  obtain a where a: "cluster_rel N c s a" using cluster_refines [OF assms(1-3)] by blast
  note r = related_log [OF a assms(4)]
  let ?b = "unat (committed_index n)"
  have b: "?b < length (log n)" using commit_ok_length [OF r(5)] by (simp add: n_def)
  have idx: "of_nat k = le_index (log n ! k)" if "k < length (log n)" for k
  proof -
    have "k = unat (le_index (log n ! k))"
      using log_okD(3) [OF r(2)] that by (simp add: n_def indexed_from_def)
    moreover have "of_nat (unat w) = w" for w :: u64 by simp
    ultimately show ?thesis by metis
  qed
  have "applied (s i) = applied_between (log n) 0 ?b" using r(7) by (simp add: n_def)
  also have "\<dots> = map (\<lambda>e. (le_index e, le_command e)) (take ?b (tl (log n)))"
    using b by (intro nth_equalityI) (auto simp: applied_between_inside nth_tl simp flip: idx simp del: upt_Suc)
  finally show ?thesis .
qed

theorem applies_committed_once_witness:
  "applied (state_1 ''A'') = map (\<lambda>e. (le_index e, le_command e)) (take 1 (tl (log (node (state_1 ''A'')))))"
  using applies_committed_once [OF json.serde_codec_axioms trio_config reachable_1, of "''A''"]
  by (simp add: state_1_facts)

text \<open>Of two granted vote replies of one term that a process has put on its channel, both go to the same
  candidate.\<close>

lemma one_vote_per_term:
  assumes "serde_codec c" "cluster_config N peers_of" "c_reachable N peers_of c gen s" "i \<in> N"
    and "m \<in> set (tx (s i))" "m' \<in> set (tx (s i))" "m_type m = ''VoteReply''" "m_type m' = ''VoteReply''"
    and "from_slice_vote_reply c (m_payload m) = Some r" "from_slice_vote_reply c (m_payload m') = Some r'"
    and "rr_vote_granted r" "rr_vote_granted r'" "rr_term r = rr_term r'"
  shows "m_to m = m_to m'"
proof -
  obtain a where a: "cluster_rel N c s a" using cluster_refines [OF assms(1-3)] by blast
  then have "inv_vote N a" "\<forall>m \<in> set (tx (s i)). msg_rel c a i m"
    using assms(4) by (simp_all add: cluster_rel_def process_rel_def a_inv_def)
  then show ?thesis
    using inv_vote_unique [of N a i "rr_term r" "m_to m" "m_to m'"] assms(5-)
    by (fastforce simp: msg_rel_def vote_rel_def)
qed

text \<open>Acknowledgements tell the truth. If a process has sent a positive AppendEntries
  reply of its current term, and a process is leader of that term, the sender's log agrees with the leader's up
  to the acknowledged index.\<close>

lemma acknowledged_entries_are_stored:
  assumes "serde_codec c" "cluster_config N peers_of" "c_reachable N peers_of c gen s" "i \<in> N" "j \<in> N"
    and "m \<in> set (tx (s i))" "m_type m = ''AppendReply''" "from_slice_append_reply c (m_payload m) = Some r"
    and "ar_success r" "ar_term r = current_term (node (s i))"
    and "is_Leader (state (node (s j)))" "current_term (node (s j)) = ar_term r"
  shows "unat (ar_match_index r) < length (log (node (s i)))
    \<and> take (Suc (unat (ar_match_index r))) (log (node (s i))) = take (Suc (unat (ar_match_index r))) (log (node (s j)))"
proof -
  obtain a where a: "cluster_rel N c s a" using cluster_refines [OF assms(1-3)] by blast
  then have inv: "inv_ack a" "\<forall>m \<in> set (tx (s i)). msg_rel c a i m" and rel: "node_rel N a i (node (s i))"
    using assms(4) by (simp_all add: cluster_rel_def process_rel_def a_inv_def)
  have ack: "(i, ar_term r, unat (ar_match_index r)) \<in> h_ack a"
    using inv(2) assms(6-9) by (fastforce simp: msg_rel_def ack_rel_def)
  have ldr: "h_ldr a (ar_term r) = Some (j, log (node (s j)))"
    using related_leader [OF a assms(5,11)] assms(12) by simp
  show ?thesis
    using inv_ackD [OF inv(1) ack] ldr node_relD(4,6) [OF rel] assms(10) by force
qed

text \<open>C5: Refinement. Every reachable state of the cluster of processes is the image of a reachable state of
  the abstract protocol: node by node the same term, vote, role, log and commit index, and every message on a
  channel is one the abstract history contains.\<close>

theorem cluster_refinement:
  assumes "serde_codec c" "cluster_config N peers_of" "c_reachable N peers_of c gen s"
  shows "\<exists>a. a_reachable N a \<and> (\<forall>i \<in> N.
      a_term a i = current_term (node (s i)) \<and> a_vote a i = voted_for (node (s i))
      \<and> a_role a i = role_of (state (node (s i))) \<and> a_log a i = log (node (s i))
      \<and> a_commit a i = unat (committed_index (node (s i)))
      \<and> (\<forall>m \<in> set (tx (s i)). msg_rel c a i m))"
proof -
  obtain a where a: "a_reachable N a" "cluster_rel N c s a" using cluster_refines [OF assms] by blast
  then show ?thesis using node_relD by (intro exI [of _ a]) (auto simp: cluster_rel_def process_rel_def)
qed

theorem cluster_refinement_witness:
  "\<exists>a. a_reachable (set trio) a \<and> a_role a ''A'' = RLeader \<and> a_log a ''A'' = [sentinel, entry 1 1 ''x''] \<and> a_commit a ''A'' = 1"
  using cluster_refinement [OF json.serde_codec_axioms trio_config reachable_1] trio_members(1)
  by (auto simp: state_1_facts dest!: bspec [of _ _ "''A''"])

end
