(* ===== verification/Repair.thy ===== *)
theory Repair
  imports Replication Leadership
begin

section \<open>Repairing a follower's log\<close>

text \<open>
  The exchange by which a leader brings a follower's log in line: one AppendEntries message
  from the follower's next index, the follower's handler, and the leader's handler of the
  reply, as when nothing is lost on the way. It succeeds in all situations but one, in
  which it makes no progress at all.
\<close>

subsection \<open>Rounds\<close>

definition exchange :: "node_id \<Rightarrow> RaftNode \<times> RaftNode \<Rightarrow> (RaftNode \<times> RaftNode) res" where
  "exchange p = (\<lambda>(n, f).
     case build_append_entries_args n (next_index_of (next_indices (state n)) p) of
       None \<Rightarrow> Inr (n, f)
     | Some args \<Rightarrow>
         let (f', reply, _) = handle_append_entries f args
         in res_bind (handle_append_entries_reply n p reply) (\<lambda>(n', _). Inr (n', f')))"

fun exchanges :: "nat \<Rightarrow> node_id \<Rightarrow> RaftNode \<times> RaftNode \<Rightarrow> (RaftNode \<times> RaftNode) res" where
  "exchanges 0 p nf = Inr nf"
| "exchanges (Suc k) p nf = res_bind (exchange p nf) (exchanges k p)"

text \<open>
  A leader and a follower whose logs a cluster could have: both well formed, matching where
  their terms match, the follower in no newer term.
\<close>

definition pair_ok :: "node_id \<Rightarrow> RaftNode \<Rightarrow> RaftNode \<Rightarrow> bool" where
  "pair_ok p n f \<longleftrightarrow> is_Leader (state n) \<and> hm_inv (next_indices (state n))
     \<and> log n \<noteq> [] \<and> log f \<noteq> [] \<and> indexed_from 0 (log n) \<and> indexed_from 0 (log f)
     \<and> le_term (log n ! 0) = le_term (log f ! 0) \<and> logs_match (log f) (log n)
     \<and> current_term f \<le> current_term n \<and> length (log n) < 2 ^ 64
     \<and> next_index_of (next_indices (state n)) p \<noteq> 0
     \<and> unat (next_index_of (next_indices (state n)) p) \<le> length (log n)"

abbreviation next_of :: "node_id \<Rightarrow> RaftNode \<Rightarrow> nat" where
  "next_of p n \<equiv> unat (next_index_of (next_indices (state n)) p)"

lemma pair_okD:
  assumes "pair_ok p n f"
  shows "is_Leader (state n)" "hm_inv (next_indices (state n))" "log n \<noteq> []" "log f \<noteq> []"
    "indexed_from 0 (log n)" "indexed_from 0 (log f)" "le_term (log n ! 0) = le_term (log f ! 0)"
    "logs_match (log f) (log n)" "current_term f \<le> current_term n" "length (log n) < 2 ^ 64"
    "0 < next_of p n" "next_of p n \<le> length (log n)" "next_index_of (next_indices (state n)) p \<noteq> 0"
  using assms by (auto simp: pair_ok_def unat_gt_0)

lemma last_index: "indexed_from 0 l \<Longrightarrow> l \<noteq> [] \<Longrightarrow> unat (le_index (last l)) = length l - 1"
  by (simp add: indexed_from_def last_conv_nth)

definition prev_matches :: "node_id \<Rightarrow> RaftNode \<Rightarrow> RaftNode \<Rightarrow> bool" where
  "prev_matches p n f \<longleftrightarrow> next_of p n - 1 < length (log f)
     \<and> le_term (log f ! (next_of p n - 1)) = le_term (log n ! (next_of p n - 1))"

text \<open>The leader after the follower \<open>p\<close> has acknowledged its whole log.\<close>

definition caught_up :: "node_id \<Rightarrow> RaftNode \<Rightarrow> RaftNode" where
  "caught_up p n =
     (let n' = accepted_by n p (le_index (last (log n)))
      in if may_commit n' then committed_upto n' (commit_candidate n') else n')"

lemma caught_up_frame [simp]:
  "log (caught_up p n) = log n" "current_term (caught_up p n) = current_term n" "is_Leader (state (caught_up p n))"
  "match_indices (state (caught_up p n)) = hm_insert p (le_index (last (log n))) (match_indices (state n))"
  "hm_inv (next_indices (state n)) \<Longrightarrow> q \<noteq> p \<Longrightarrow>
     hm_get (next_indices (state (caught_up p n))) q = hm_get (next_indices (state n)) q"
  by (simp_all add: caught_up_def accepted_by_def committed_upto_def Let_def hm.lookup_insert)

text \<open>A round that succeeds leaves the leader's log in the follower's.\<close>

lemma exchange_success:
  assumes ok: "pair_ok p n f" and m: "prev_matches p n f"
  shows "\<exists>f'. exchange p (n, f) = Inr (caught_up p n, f') \<and> current_term f' = current_term n
    \<and> take (length (log n)) (log f') = log n \<and> length (log n) \<le> length (log f')
    \<and> committed_index f' = follower_commit (committed_index f) (committed_index n) (le_index (last (log n)))"
proof -
  note d = pair_okD [OF ok]
  let ?w = "next_index_of (next_indices (state n)) p" and ?args = "append_args n (next_index_of (next_indices (state n)) p)"
  have w1: "unat (?w - 1) = next_of p n - 1" by (rule unat_pred [OF d(13)])
  have in_n: "unat (?w - 1) < length (log n)" using w1 d(11,12) by simp
  have args: "unat (ae_prev_log_index ?args) = next_of p n - 1" "Suc (unat (ae_prev_log_index ?args)) = next_of p n"
    "ae_prev_log_term ?args = le_term (log n ! (next_of p n - 1))" "ae_entries ?args = drop (next_of p n) (log n)"
    "ae_term ?args = current_term n" "ae_leader_commit ?args = committed_index n"
    using w1 in_n d(11) by (simp_all add: append_args_def vec_get_def)
  have match: "has_matching_prev_entry f (ae_prev_log_index ?args) (ae_prev_log_term ?args)"
    using m args by (simp add: prev_matches_def has_matching_prev_entry_def vec_get_def)
  have idx: "indexed_from (Suc (unat (ae_prev_log_index ?args))) (ae_entries ?args)"
    using d(5) by (auto simp: args(2,4) indexed_from_def)
  have pre: "take (next_of p n) (log f) = take (next_of p n) (log n)" "next_of p n \<le> length (log f)"
    using logs_matchD [OF d(8), of "next_of p n - 1"] m d(11,12) by (auto simp: prev_matches_def)
  have seg: "ae_entries ?args = take (length (ae_entries ?args)) (drop (next_of p n) (log n))"
    by (simp add: args(4))
  have len: "next_of p n + length (ae_entries ?args) = length (log n)" using d(12) by (simp add: args(4))
  note cov = merge_at_covers [OF d(8) pre seg, unfolded len]
  obtain f' fx where h: "handle_append_entries f ?args
      = (f', \<lparr>ar_term = current_term f', ar_success = True, ar_match_index = last_new_index (ae_prev_log_index ?args) (ae_entries ?args)\<rparr>, fx)"
    "log f' = merge_at (log f) (next_of p n) (ae_entries ?args)" "current_term f' = current_term n"
    "committed_index f' = follower_commit (committed_index f) (committed_index n) (last_new_index (ae_prev_log_index ?args) (ae_entries ?args))"
    using handle_append_entries_accept [OF _ match idx] d(9) args(2,5,6) by (auto simp: not_less max_def)
  let ?r = "\<lparr>ar_term = current_term f', ar_success = True, ar_match_index = last_new_index (ae_prev_log_index ?args) (ae_entries ?args)\<rparr>"
  have unat_r: "unat (ar_match_index ?r) = length (log n) - 1"
    using idx len args(1,2) d(11)
    by (cases "ae_entries ?args" rule: rev_cases) (auto simp: last_new_index_def indexed_from_def nth_append)
  then have small: "unat (ar_match_index ?r) \<noteq> 2 ^ 64 - 1" using d(3,10) by (cases "log n") auto
  have last: "ar_match_index ?r = le_index (last (log n))"
    using unat_r last_index [OF d(5,3)] by (simp add: u64_eq_iff)
  obtain gx where g: "handle_append_entries_reply n p ?r = Inr (caught_up p n, gx)"
    using handle_append_entries_reply_success [of ?r n p] d(1,3) h(3) small unfolding last caught_up_def Let_def by auto
  have "exchange p (n, f) = Inr (caught_up p n, f')"
    using h(1) g d(13) by (simp add: exchange_def build_append_entries_args_eq)
  then show ?thesis using cov h(2-4) last by auto
qed

lemma unat_retry_index:
  assumes "1 < unat w"
  shows "unat (retry_index h w) = (if unat h < unat w then unat h + 1 else unat w - 1)"
proof (cases "h < w")
  case True
  then show ?thesis using unat_Suc_below [OF True] by (simp add: retry_index_def word_less_nat_alt)
next
  case False
  have "w \<noteq> 0" using assms by auto
  then have w1: "unat (w - 1) = unat w - 1" by (rule unat_pred)
  have "saturating_sub_u64 w 1 = w - 1" using assms by (simp add: saturating_sub_u64_def word_less_nat_alt)
  moreover have "1 \<le> w - 1" using assms w1 by (simp add: word_le_nat_alt)
  ultimately show ?thesis using False w1 by (simp add: retry_index_def max_def word_less_nat_alt not_less)
qed

lemma rejected_by_frame [simp]:
  "log (rejected_by n p w) = log n" "current_term (rejected_by n p w) = current_term n" "is_Leader (state (rejected_by n p w))"
  "match_indices (state (rejected_by n p w)) = match_indices (state n)"
  "hm_inv (next_indices (state n)) \<Longrightarrow> q \<noteq> p \<Longrightarrow>
     hm_get (next_indices (state (rejected_by n p w))) q = hm_get (next_indices (state n)) q"
  by (simp_all add: rejected_by_def Let_def hm.lookup_insert)

text \<open>A round that fails leaves both logs alone and moves the next index.\<close>

lemma exchange_failure:
  assumes ok: "pair_ok p n f" and m: "\<not> prev_matches p n f"
  defines "L \<equiv> length (log f) - 1"
  shows "\<exists>f' w. exchange p (n, f) = Inr (rejected_by n p w, f') \<and> pair_ok p (rejected_by n p w) f'
    \<and> log f' = log f \<and> current_term f' = current_term n
    \<and> next_of p (rejected_by n p w) = (if L < next_of p n then L + 1 else next_of p n - 1) \<and> 1 < next_of p n"
proof -
  note d = pair_okD [OF ok]
  let ?w = "next_index_of (next_indices (state n)) p" and ?args = "append_args n (next_index_of (next_indices (state n)) p)"
  have w1: "unat (?w - 1) = next_of p n - 1" by (rule unat_pred [OF d(13)])
  have in_n: "unat (?w - 1) < length (log n)" using w1 d(11,12) by simp
  have args: "unat (ae_prev_log_index ?args) = next_of p n - 1"
    "ae_prev_log_term ?args = le_term (log n ! (next_of p n - 1))" "ae_term ?args = current_term n"
    using w1 in_n by (simp_all add: append_args_def vec_get_def)
  have big: "1 < next_of p n"
  proof (rule ccontr)
    assume "\<not> 1 < next_of p n"
    then have "next_of p n - 1 = 0" by simp
    then show False using m d(4,7) by (simp add: prev_matches_def)
  qed
  have mism: "\<not> has_matching_prev_entry f (ae_prev_log_index ?args) (ae_prev_log_term ?args)"
    using m args by (auto simp: prev_matches_def has_matching_prev_entry_def vec_get_def)
  let ?f = "(observe f (ae_term ?args))\<lparr>leader_id := Some (ae_leader_id ?args), state := Follower\<rparr>"
  obtain fx where h: "handle_append_entries f ?args = (?f, reject_append_entries ?f, fx)"
    using handle_append_entries_mismatch [OF _ mism] d(9) args(3) by (auto simp: not_less)
  let ?r = "reject_append_entries ?f" and ?hint = "le_index (last (log f))"
  have r: "ar_term ?r = current_term n" "\<not> ar_success ?r" "ar_match_index ?r = ?hint"
    using d(4,9) args(3) by (simp_all add: reject_append_entries_def Let_def max_def)
  obtain gx where g: "handle_append_entries_reply n p ?r = Inr (rejected_by n p ?hint, gx)"
    using handle_append_entries_reply_failure [OF r(1) d(1) r(2), of p] r(3) by auto
  let ?n = "rejected_by n p ?hint" and ?w' = "retry_index ?hint ?w"
  have ex: "exchange p (n, f) = Inr (?n, ?f)"
    using h g d(13) by (simp add: exchange_def build_append_entries_args_eq)
  have nn: "next_indices (state ?n) = hm_insert p ?w' (next_indices (state n))" by (simp add: rejected_by_def Let_def)
  have next': "next_index_of (next_indices (state ?n)) p = ?w'"
    unfolding nn by (simp add: next_index_of_def hm.lookup_insert [OF d(2)])
  have "next_of p ?n = (if L < next_of p n then L + 1 else next_of p n - 1)"
    unfolding next' L_def last_index [OF d(6,4), symmetric] by (rule unat_retry_index [OF big])
  moreover have "pair_ok p ?n ?f"
    using ok nn next' rejected_by_frame(1-3) [of n p ?hint] retry_index_pos [of ?hint ?w] retry_index_le [OF d(13), of ?hint] d(2) args(3)
    by (auto simp: pair_ok_def hm.inv_insert word_le_nat_alt max_def)
  moreover have "log ?f = log f" "current_term ?f = current_term n" using d(9) args(3) by simp_all
  ultimately show ?thesis using ex big by blast
qed

subsection \<open>The one situation without progress\<close>

text \<open>
  The follower's last entry conflicts with the leader's entry at its position, and the leader
  would continue right after it. This is where a new leader starts with a follower whose
  log is as long as its own.
\<close>

definition stuck :: "node_id \<Rightarrow> RaftNode \<Rightarrow> RaftNode \<Rightarrow> bool" where
  "stuck p n f \<longleftrightarrow> next_of p n = length (log f)
     \<and> le_term (last (log f)) \<noteq> le_term (log n ! (length (log f) - 1))"

lemma stuck_fails: "log f \<noteq> [] \<Longrightarrow> stuck p n f \<Longrightarrow> \<not> prev_matches p n f"
  by (simp add: stuck_def prev_matches_def last_conv_nth)

lemma stuck_stays:
  assumes "pair_ok p n f" "stuck p n f"
  shows "\<exists>n' f'. exchange p (n, f) = Inr (n', f') \<and> pair_ok p n' f' \<and> stuck p n' f' \<and> log f' = log f \<and> log n' = log n"
  using exchange_failure [OF assms(1) stuck_fails [OF pair_okD(4) [OF assms(1)] assms(2)]] assms(2)
    pair_okD(4) [OF assms(1)]
  by (auto simp: stuck_def)

lemma stuck_forever:
  assumes "pair_ok p n f" "stuck p n f"
  shows "\<exists>n' f'. exchanges k p (n, f) = Inr (n', f') \<and> stuck p n' f' \<and> log f' = log f"
  using assms
proof (induction k arbitrary: n f)
  case (Suc k)
  obtain n1 f1 where r: "exchange p (n, f) = Inr (n1, f1)" "pair_ok p n1 f1" "stuck p n1 f1" "log f1 = log f"
    using stuck_stays [OF Suc.prems] by blast
  then show ?case using Suc.IH [OF r(2,3)] by simp
qed auto

text \<open>
  The situation before the first message: the leader's next index is there or further on, so
  that at most one rejection brings it to the position after the conflicting entry.
\<close>

definition livelocked :: "node_id \<Rightarrow> RaftNode \<Rightarrow> RaftNode \<Rightarrow> bool" where
  "livelocked p n f \<longleftrightarrow> length (log f) \<le> next_of p n
     \<and> le_term (last (log f)) \<noteq> le_term (log n ! (length (log f) - 1))"

lemma livelocked_forever:
  assumes "pair_ok p n f" "livelocked p n f"
  shows "\<exists>n' f'. exchanges k p (n, f) = Inr (n', f') \<and> log f' = log f"
proof (cases "next_of p n = length (log f)")
  case True
  then show ?thesis using stuck_forever [OF assms(1), of k] assms(2) by (auto simp: stuck_def livelocked_def)
next
  case False
  note d = pair_okD [OF assms(1)]
  have beyond: "length (log f) < next_of p n" using False assms(2) by (simp add: livelocked_def)
  then have "\<not> prev_matches p n f" unfolding prev_matches_def by linarith
  from exchange_failure [OF assms(1) this] obtain n1 f1 where r: "exchange p (n, f) = Inr (n1, f1)" "pair_ok p n1 f1"
    "log n1 = log n" "log f1 = log f" "next_of p n1 = length (log f)"
    using beyond d(4) by auto
  then have stuck: "stuck p n1 f1" using assms(2) by (simp add: stuck_def livelocked_def)
  show ?thesis
  proof (cases k)
    case (Suc k')
    then show ?thesis using r stuck_forever [OF r(2) stuck, of k'] by auto
  qed simp
qed

lemma livelocked_incomplete:
  assumes "pair_ok p n f" "livelocked p n f"
  shows "take (length (log n)) (log f) \<noteq> log n"
proof
  assume t: "take (length (log n)) (log f) = log n"
  have "length (log f) \<le> length (log n)" using assms pair_okD(12) by (fastforce simp: livelocked_def)
  then have "log f = log n" using t by simp
  then show False using assms(2) pair_okD(3) [OF assms(1)] by (simp add: livelocked_def last_conv_nth)
qed

subsection \<open>Everywhere else the log is repaired\<close>

lemma repair_reaches_match:
  assumes "pair_ok p n f"
    and "next_of p n < length (log f) \<or> length (log f) \<le> length (log n)
      \<and> le_term (last (log f)) = le_term (log n ! (length (log f) - 1))"
  shows "\<exists>k < next_of p n. \<exists>n' f'. exchanges k p (n, f) = Inr (n', f') \<and> pair_ok p n' f'
    \<and> prev_matches p n' f' \<and> log n' = log n"
  using assms
proof (induction "next_of p n" arbitrary: n f rule: less_induct)
  case less
  note d = pair_okD [OF less.prems(1)]
  show ?case
  proof (cases "prev_matches p n f")
    case True
    then show ?thesis using less.prems(1) d(11) by (intro exI [of _ 0]) auto
  next
    case False
    obtain w f1 where r: "exchange p (n, f) = Inr (rejected_by n p w, f1)" "pair_ok p (rejected_by n p w) f1" "log f1 = log f"
      "next_of p (rejected_by n p w) = (if length (log f) - 1 < next_of p n then length (log f) - 1 + 1 else next_of p n - 1)"
      "1 < next_of p n"
      using exchange_failure [OF less.prems(1) False] by blast
    have last: "last (log f) = log f ! (length (log f) - 1)" "0 < length (log f)" using d(4) by (simp_all add: last_conv_nth)
    have "next_of p n \<noteq> length (log f)" using False less.prems(2) last by (auto simp: prev_matches_def)
    then have dec: "next_of p (rejected_by n p w) < next_of p n" using r(4,5) last(2) by (auto split: if_splits)
    have "next_of p (rejected_by n p w) < length (log f1) \<or> length (log f1) \<le> length (log (rejected_by n p w))
        \<and> le_term (last (log f1)) = le_term (log (rejected_by n p w) ! (length (log f1) - 1))"
      using less.prems(2) r(3,4) by (auto split: if_splits)
    from less.hyps [OF dec r(2) this] obtain k n' f' where k: "k < next_of p (rejected_by n p w)"
      "exchanges k p (rejected_by n p w, f1) = Inr (n', f')" "pair_ok p n' f'" "prev_matches p n' f'" "log n' = log n"
      by auto
    then show ?thesis using dec r(1) by (intro exI [of _ "Suc k"]) auto
  qed
qed

lemma exchanges_add: "exchanges (k + l) p nf = res_bind (exchanges k p nf) (exchanges l p)"
  by (induction k arbitrary: nf) (auto simp: res_bind_def split: sum.split)

lemma repair_converges:
  assumes "pair_ok p n f"
    and "next_of p n < length (log f) \<or> length (log f) \<le> length (log n)
      \<and> le_term (last (log f)) = le_term (log n ! (length (log f) - 1))"
  shows "\<exists>k \<le> next_of p n. \<exists>n' f'. exchanges k p (n, f) = Inr (n', f')
    \<and> take (length (log n)) (log f') = log n \<and> log n' = log n"
proof -
  obtain k n1 f1 where k: "k < next_of p n" "exchanges k p (n, f) = Inr (n1, f1)" "pair_ok p n1 f1" "prev_matches p n1 f1"
    "log n1 = log n"
    using repair_reaches_match [OF assms] by blast
  obtain f' where "exchange p (n1, f1) = Inr (caught_up p n1, f')" "take (length (log n1)) (log f') = log n1"
    using exchange_success [OF k(3,4)] by blast
  then show ?thesis using k(1,2,5) exchanges_add [of k "Suc 0" p "(n, f)"] by (intro exI [of _ "Suc k"]) auto
qed

lemma not_livelocked:
  assumes "pair_ok p n f" "\<not> livelocked p n f"
  shows "next_of p n < length (log f) \<or> length (log f) \<le> length (log n)
      \<and> le_term (last (log f)) = le_term (log n ! (length (log f) - 1))"
  using assms(2) pair_okD(12) [OF assms(1)] by (auto simp: livelocked_def)

text \<open>So the exchanges bring the leader's log to the follower exactly outside that situation.\<close>

lemma repair_dichotomy:
  assumes "pair_ok p n f"
  shows "(\<exists>k n' f'. exchanges k p (n, f) = Inr (n', f') \<and> take (length (log n)) (log f') = log n)
    \<longleftrightarrow> \<not> livelocked p n f"
proof
  assume "\<exists>k n' f'. exchanges k p (n, f) = Inr (n', f') \<and> take (length (log n)) (log f') = log n"
  then obtain k n' f' where e: "exchanges k p (n, f) = Inr (n', f')" "take (length (log n)) (log f') = log n" by blast
  show "\<not> livelocked p n f"
  proof
    assume l: "livelocked p n f"
    have "log f' = log f" using livelocked_forever [OF assms l, of k] e(1) by auto
    then show False using livelocked_incomplete [OF assms l] e(2) by simp
  qed
next
  assume "\<not> livelocked p n f"
  from repair_converges [OF assms not_livelocked [OF assms this]]
  show "\<exists>k n' f'. exchanges k p (n, f) = Inr (n', f') \<and> take (length (log n)) (log f') = log n" by blast
qed

end
