(* ===== verification/Cluster_Views.thy ===== *)
theory Cluster_Views
  imports Cluster_Safety Repair
begin

section \<open>What the nodes of a cluster know\<close>

text \<open>
  The data of the roles in reachable states: who counts as a voter, what a leader believes about
  its peers, whom a node names to its clients. From it follow the exact condition under which a
  follower's log is repaired, and the only two panics that the messages and ticks of the cluster
  can cause.
\<close>

subsection \<open>A leader's indices\<close>

lemma related_node: "cluster_rel N c s a \<Longrightarrow> i \<in> N \<Longrightarrow> node_rel N a i (node (s i))"
  by (simp add: cluster_rel_def process_rel_def)

text \<open>What a leader has been told by a peer, and what it may still send it.\<close>

lemma related_indices:
  assumes "cluster_rel N c s a" "i \<in> N" "state (node (s i)) = Leader ni mi" "p \<in> N" "p \<noteq> i"
  shows "\<exists>x w. hm_get ni p = Some x \<and> 0 < unat x \<and> unat x \<le> length (log (node (s i)))
    \<and> hm_get mi p = Some w \<and> unat w < length (log (node (s i)))
    \<and> (current_term (node (s p)) = current_term (node (s i)) \<longrightarrow>
        unat w < length (log (node (s p)))
        \<and> take (Suc (unat w)) (log (node (s p))) = take (Suc (unat w)) (log (node (s i))))"
proof -
  let ?n = "node (s i)" and ?f = "node (s p)"
  have inv: "inv_ack a" using related_log(1) [OF assms(1,2)] by (simp add: a_inv_def)
  have ldr: "h_ldr a (current_term ?n) = Some (i, log ?n)"
    by (rule related_leader [OF assms(1,2)]) (simp add: assms(3))
  note rel = related_node [OF assms(1,2)] and rel' = related_node [OF assms(1,4)]
  have st: "dom (hm_get ni) = N - {i}" "dom (hm_get mi) = N - {i}"
    "\<And>p w. hm_get mi p = Some w \<Longrightarrow> w = 0 \<or> (p, current_term ?n, unat w) \<in> h_ack a"
    "\<And>p w. hm_get ni p = Some w \<Longrightarrow> w \<noteq> 0 \<and> unat w \<le> length (log ?n)"
    using node_relD(10) [OF rel] assms(3) by auto
  have "p \<in> dom (hm_get ni)" "p \<in> dom (hm_get mi)" using st(1,2) assms(4,5) by auto
  then obtain x w where x: "hm_get ni p = Some x" and w: "hm_get mi p = Some w" by blast
  note ok = log_okD [OF related_log(2) [OF assms(1,2)]] and ok' = log_okD [OF related_log(2) [OF assms(1,4)]]
  have "unat w < length (log ?n) \<and> (current_term ?f = current_term ?n \<longrightarrow> unat w < length (log ?f)
      \<and> take (Suc (unat w)) (log ?f) = take (Suc (unat w)) (log ?n))"
  proof (cases "w = 0")
    case True
    then show ?thesis using ok(1,2) ok'(1,2) by (simp add: take_Suc hd_conv_nth)
  next
    case False
    then have ack: "(p, current_term ?n, unat w) \<in> h_ack a" using st(3) [OF w] by simp
    show ?thesis using inv_ackD [OF inv ack] ldr node_relD(4,6) [OF rel'] by force
  qed
  then show ?thesis using x w st(4) [OF x] by (auto simp: unat_gt_0)
qed

lemma related_pair_ok:
  assumes "cluster_rel N c s a" "i \<in> N" "j \<in> N" "i \<noteq> j" "is_Leader (state (node (s i)))"
    and "current_term (node (s j)) \<le> current_term (node (s i))" "length (log (node (s i))) < 2 ^ 64"
  shows "pair_ok j (node (s i)) (node (s j))"
proof -
  obtain ni mi where st: "state (node (s i)) = Leader ni mi" using assms(5) by (auto elim: is_LeaderE)
  note r = related_log [OF assms(1,2)] and r' = related_log [OF assms(1,3)]
  note ok = log_okD [OF r(2)] and ok' = log_okD [OF r'(2)]
  obtain x where "hm_get ni j = Some x" "0 < unat x" "unat x \<le> length (log (node (s i)))"
    using related_indices [OF assms(1,2) st assms(3) not_sym [OF assms(4)]] by blast
  moreover have "hm_inv ni" using node_relD(10) [OF related_node [OF assms(1,2)]] st by simp
  ultimately show ?thesis
    using assms(6,7) ok ok' backed_logs_match [OF r'(2,3) r(2,3)] st
    by (auto simp: pair_ok_def next_index_of_def)
qed


subsection \<open>Panics\<close>

lemma quiet_append_entries_reply:
  assumes "log n \<noteq> []" "handle_append_entries_reply n j r = Inl e"
  shows "e = Overflow \<and> ar_term r = current_term n \<and> is_Leader (state n) \<and> ar_success r
    \<and> unat (ar_match_index r) = 2 ^ 64 - 1"
  using assms handle_append_entries_reply_newer [of n r j] handle_append_entries_reply_ignored [of n r j]
    handle_append_entries_reply_failure [of r n j] handle_append_entries_reply_success [of r n j]
  by (cases "current_term n < ar_term r"; cases "ar_term r = current_term n"; cases "is_Leader (state n)";
      cases "ar_success r") auto

lemma quiet_request_vote_reply:
  assumes "log n \<noteq> []" "handle_request_vote_reply n j r = Inl e"
  shows "e = Overflow \<and> unat (le_index (last (log n))) = 2 ^ 64 - 1"
proof (cases "counts_vote n r")
  case True
  then obtain se where "handle_request_vote_reply n j r = (if (length (peers n) + 1) div 2
      < card (insert j (votes_received (state n))) then become_leader (with_vote n j) se else Inr (with_vote n j, se))"
    using handle_request_vote_reply_counted by blast
  moreover have "log (with_vote n j) = log n" by (simp add: with_vote_def)
  ultimately show ?thesis
    using become_leader_eq [of "with_vote n j" se] assms by (auto split: if_splits)
next
  case False
  then show ?thesis
    using assms(2) handle_request_vote_reply_newer [of n r j] handle_request_vote_reply_ignored [of n r j]
    by (cases "current_term n < rr_term r") auto
qed

lemma quiet_tick:
  assumes "timers_ok p" "log (node p) \<noteq> []" "tick_body c gen p = Inl e"
  shows "e = Overflow \<and> unat (current_term (node p)) = 2 ^ 64 - 1"
proof -
  have small: "unat (election_tick_count (engine p)) < 150" "unat (heartbeat_tick_count (engine p)) < 6"
    using assms(1) unat_heartbeat_interval by (auto simp: timers_ok_def word_less_nat_alt)
  have "add_u64 (election_tick_count (engine p)) 1 \<noteq> Inl e" "add_u64 (heartbeat_tick_count (engine p)) 1 \<noteq> Inl e"
    using small by (simp_all add: add_u64_def)
  then show ?thesis
    using assms(3) handle_election_timeout_eq [OF assms(2)]
    by (auto simp: tick_body_def Let_def res_simps split: if_splits)
qed

lemma quiet_message:
  assumes rel: "cluster_rel N c s a" and iN: "i \<in> N" and "j \<in> N"
    and msg: "m \<in> set (tx (s j))" "m_type m \<in> node_message_types"
    and panic: "handle_message c gen (s i) m = Inl (e, q)"
  shows "e = Overflow \<and> length (log (node (s i))) = 2 ^ 64"
proof -
  let ?n = "node (s i)"
  have inv: "inv_ack a" using related_log(1) [OF rel iN] by (simp add: a_inv_def)
  have mrel: "msg_rel c a j m" using rel assms(3) msg(1) by (simp add: cluster_rel_def process_rel_def)
  have ne: "log ?n \<noteq> []" by (rule log_okD(1) [OF related_log(2) [OF rel iN]])
  have last: "unat (le_index (last (log ?n))) = length (log ?n) - 1"
    using related_node [OF rel iN] related_log(1) [OF rel iN] node_rel_log(3) by blast
  have full: "length (log ?n) = 2 ^ 64" if "length (log ?n) - 1 = 2 ^ 64 - 1"
    using that ne by (cases "log ?n") auto
  have idx: "unat (le_index (last (log ?n))) < 2 ^ LENGTH(64)" by (rule unsigned_less)
  consider "m_type m = ''AppendEntries''" | "m_type m = ''RequestVote''" | "m_type m = ''AppendReply''"
    | "m_type m = ''VoteReply''"
    using msg(2) by (auto simp: node_message_types_def)
  then show ?thesis
  proof cases
    case 1
    then show ?thesis using mrel panic by (auto simp: handle_message_def Let_def msg_rel_def split: prod.splits)
  next
    case 2
    then obtain x where "handle_request_vote ?n x = Inl e"
      using mrel panic by (auto simp: handle_message_def Let_def res_simps msg_rel_def)
    then show ?thesis using handle_request_vote_eq [OF ne, of x] by auto
  next
    case 3
    then obtain r where r: "ack_rel a j r" "handle_append_entries_reply ?n (m_from m) r = Inl e"
      using mrel panic by (auto simp: handle_message_def res_simps msg_rel_def)
    note q = quiet_append_entries_reply [OF ne r(2)]
    then have "(j, current_term ?n, 2 ^ 64 - 1) \<in> h_ack a" using r(1) by (auto simp: ack_rel_def)
    then obtain c' L where "h_ldr a (current_term ?n) = Some (c', L)" "2 ^ 64 - 1 < length L"
      using inv_ackD [OF inv] by metis
    then have "2 ^ 64 - 1 < length (log ?n)" using related_leader [OF rel iN] q by auto
    then show ?thesis using q idx last by simp
  next
    case 4
    then obtain r where "handle_request_vote_reply ?n (m_from m) r = Inl e"
      using mrel panic by (auto simp: handle_message_def res_simps msg_rel_def)
    from quiet_request_vote_reply [OF ne this] show ?thesis using last full by simp
  qed
qed

subsection \<open>The properties\<close>

text \<open>C19: The data of a role. In every reachable state a node knows the other members as its peers; a candidate
  has voted for itself and counts only members, itself among them; a leader knows itself as the leader, has a next
  index and a match index for exactly its peers, every next index points into its log or right behind it and every
  match index into its log.\<close>

theorem role_data_well_typed:
  assumes "serde_codec c" "cluster_config N peers_of" "c_reachable N peers_of c gen s" "i \<in> N"
  defines "n \<equiv> node (s i)"
  shows "self_id n = i \<and> distinct (peers n) \<and> set (peers n) = N - {i} \<and>
    (case state n of
       Follower \<Rightarrow> leader_id n \<noteq> Some i
     | Candidate votes \<Rightarrow> voted_for n = Some i \<and> leader_id n = None \<and> i \<in> votes \<and> votes \<subseteq> N
     | Leader ni mi \<Rightarrow> voted_for n = Some i \<and> leader_id n = Some i
         \<and> dom (hm_get ni) = set (peers n) \<and> dom (hm_get mi) = set (peers n)
         \<and> (\<forall>p \<in> set (peers n). 0 < unat (the (hm_get ni p)) \<and> unat (the (hm_get ni p)) \<le> length (log n)
             \<and> unat (the (hm_get mi p)) < length (log n)))"
proof -
  obtain a where a: "cluster_rel N c s a" using cluster_refines [OF assms(1-3)] by blast
  note rel = related_node [OF a assms(4), folded n_def]
  have vote: "a_role a i \<noteq> RFollower \<Longrightarrow> voted_for n = Some i"
    using related_log(1) [OF a assms(4)] inv_vote_role node_relD(5) [OF rel] by (fastforce simp: a_inv_def)
  show ?thesis
  proof (cases "state n")
    case (Leader ni mi)
    then show ?thesis
      using node_relD(1-3,7,10) [OF rel] vote related_indices [OF a assms(4) Leader [unfolded n_def], folded n_def]
      by fastforce
  qed (use node_relD [OF rel] vote in \<open>auto simp: hint_rel_def\<close>)
qed

theorem role_data_well_typed_witness:
  "dom (hm_get [(''B'', 2 :: u64), (''C'', 1)]) = {''B'', ''C''} \<and> leader_id (node (state_1 ''A'')) = Some ''A''"
  using role_data_well_typed [OF json.serde_codec_axioms trio_config reachable_1 trio_members(1)]
  by (simp add: state_1_facts)

text \<open>C20: The leader's view of its peers is true. Every match index of a leader is a position of its log, and
  a peer that is still in the leader's term stores the leader's log up to that position.\<close>

theorem leader_view_is_true:
  assumes "serde_codec c" "cluster_config N peers_of" "c_reachable N peers_of c gen s" "i \<in> N" "p \<in> N" "p \<noteq> i"
    and "state (node (s i)) = Leader ni mi" "current_term (node (s p)) = current_term (node (s i))"
  shows "\<exists>w. hm_get mi p = Some w \<and> unat w < length (log (node (s i))) \<and> unat w < length (log (node (s p)))
    \<and> take (Suc (unat w)) (log (node (s p))) = take (Suc (unat w)) (log (node (s i)))"
proof -
  obtain a where "cluster_rel N c s a" using cluster_refines [OF assms(1-3)] by blast
  from related_indices [OF this assms(4,7,5,6)] show ?thesis using assms(8) by auto
qed

theorem leader_view_is_true_witness:
  "take 2 (log (node (state_1 ''B''))) = take 2 (log (node (state_1 ''A'')))"
  using leader_view_is_true [OF json.serde_codec_axioms trio_config reachable_1 trio_members(1,2)]
  by (simp add: state_1_facts hm_get_def numeral_2_eq_2)

text \<open>C21: The redirection hint. If a node answers clients with the leader l, then l is a member; it is the
  node itself exactly when the node leads; and whichever process leads the node's term, at that moment or later, is l.\<close>

theorem redirect_hint_is_leader:
  assumes "serde_codec c" "cluster_config N peers_of" "c_reachable N peers_of c gen s" "(cstep N c gen)\<^sup>*\<^sup>* s s'"
    and "i \<in> N" "leader_id (node (s i)) = Some l"
  shows "l \<in> N \<and> (l = i \<longleftrightarrow> is_Leader (state (node (s i)))) \<and>
    (\<forall>j \<in> N. is_Leader (state (node (s' j))) \<and> current_term (node (s' j)) = current_term (node (s i)) \<longrightarrow> j = l)"
proof -
  obtain a a' where a: "cluster_rel N c s a" "(any_step N)\<^sup>*\<^sup>* a a'" "cluster_rel N c s' a'"
    using cluster_run [OF assms(1-4)] .
  let ?n = "node (s i)"
  note rel = related_node [OF a(1) assms(5)] and inv = related_log(1) [OF a(1) assms(5)]
  have "leader_id ?n = Some i" if "is_Leader (state ?n)"
    using node_relD(10) [OF rel] that by (auto elim: is_LeaderE)
  then have self: "l = i \<longleftrightarrow> is_Leader (state ?n)"
    using node_relD(11) [OF rel] assms(6) by (auto simp: hint_rel_def)
  have "\<exists>L. h_ldr a (current_term ?n) = Some (l, L)"
  proof (cases "l = i")
    case True
    then show ?thesis using related_leader [OF a(1) assms(5)] self by simp
  next
    case False
    then obtain p pt es cm where "(l, current_term ?n, p, pt, es, cm) \<in> h_app a"
      using node_relD(11) [OF rel] assms(6) by (auto simp: hint_rel_def)
    then show ?thesis using inv unfolding a_inv_def inv_app_def by blast
  qed
  then obtain L where L: "h_ldr a (current_term ?n) = Some (l, L)" by blast
  have "l \<in> N" using inv_ldrD(1) [OF _ L] inv by (auto simp: a_inv_def)
  moreover have "j = l" if "j \<in> N" "is_Leader (state (node (s' j)))" "current_term (node (s' j)) = current_term ?n" for j
    using any_steps_leader [OF a(2) inv L] related_leader [OF a(3) that(1,2)] that(3) by auto
  ultimately show ?thesis using self by blast
qed

theorem redirect_hint_is_leader_witness:
  "leader_id (node (state_1 ''B'')) = Some ''A'' \<and> ''A'' \<in> set trio"
  using redirect_hint_is_leader [OF json.serde_codec_axioms trio_config reachable_1 steps_1_2, of "''B''" "''A''"]
  by (simp add: state_1_facts)

text \<open>C14: Repair of a follower. In a reachable state, the exchange of messages and replies between a leader, whose log has fewer
  than 2^64 entries, and another process that is in no newer term brings the leader's whole log into that process's log except
  in exactly one situation: the follower's log ends before the leader's next index for it (its length is at most that
  index), and its last entry has another term than the leader's entry at that position. In that situation no number
  of exchanges helps. A last entry at or beyond the next index, conflicting or not, is no obstacle.\<close>

theorem repair_iff:
  assumes "serde_codec c" "cluster_config N peers_of" "c_reachable N peers_of c gen s" "i \<in> N" "j \<in> N" "i \<noteq> j"
    and "is_Leader (state (node (s i)))" "current_term (node (s j)) \<le> current_term (node (s i))"
    and "length (log (node (s i))) < 2 ^ 64"
  defines "n \<equiv> node (s i)" and "f \<equiv> node (s j)"
  shows "(\<exists>k n' f'. exchanges k j (n, f) = Inr (n', f') \<and> take (length (log n)) (log f') = log n)
    \<longleftrightarrow> \<not> (length (log f) \<le> next_of j n \<and> le_term (last (log f)) \<noteq> le_term (log n ! (length (log f) - 1)))"
proof -
  obtain a where "cluster_rel N c s a" using cluster_refines [OF assms(1-3)] by blast
  from repair_dichotomy [OF related_pair_ok [OF this assms(4-9)]]
  show ?thesis by (simp add: livelocked_def n_def f_def)
qed

theorem repair_iff_witness:
  "\<exists>k n' f'. exchanges k ''C'' (node (state_1 ''A''), node (state_1 ''C'')) = Inr (n', f')
    \<and> take (length (log (node (state_1 ''A'')))) (log f') = log (node (state_1 ''A''))"
proof -
  have "is_Leader (state (node (state_1 ''A'')))" "current_term (node (state_1 ''C'')) \<le> current_term (node (state_1 ''A''))"
    "length (log (node (state_1 ''A''))) < 2 ^ 64"
    "\<not> (le_term (last (log (node (state_1 ''C'')))) \<noteq> le_term (log (node (state_1 ''A'')) ! (length (log (node (state_1 ''C''))) - 1)))"
    by (simp_all add: state_1_facts)
  then show ?thesis
    using repair_iff [OF json.serde_codec_axioms trio_config reachable_1 trio_members(1,3)] by simp
qed

text \<open>C18: In a reachable state, a message of one process to another makes the receiver panic only when the
  receiver's log has 2^64 entries, and a tick only when its term is the largest u64; both panics are the overflow check.
  So below these limits no index is out of bounds, no log is empty when its last entry is unwrapped, every payload
  decodes, and no counter overflows.\<close>

theorem no_panic_in_cluster:
  assumes "serde_codec c" "cluster_config N peers_of" "gen_range_30_150 gen" "c_reachable N peers_of c gen s"
    and "i \<in> N" "j \<in> N" "m \<in> set (tx (s j))" "m_type m \<in> node_message_types"
  shows "((\<exists>p. handle_message c gen (s i) m = Inr p)
      \<or> length (log (node (s i))) = 2 ^ 64 \<and> handle_message c gen (s i) m = Inl (Overflow, s i))
    \<and> ((\<exists>p. tick_body c gen (s i) = Inr p)
      \<or> unat (current_term (node (s i))) = 2 ^ 64 - 1 \<and> tick_body c gen (s i) = Inl Overflow)"
proof -
  obtain a where a: "cluster_rel N c s a" using cluster_refines [OF assms(1,2,4)] by blast
  have "log (node (s i)) \<noteq> []" by (rule log_okD(1) [OF related_log(2) [OF a assms(5)]])
  note t = quiet_tick [OF reachable_timers_ok [OF assms(3,4,5)] this]
  show ?thesis
    using quiet_message [OF a assms(5-8)] handle_message_panic [of c gen "s i" m] t
    by (cases "handle_message c gen (s i) m"; cases "tick_body c gen (s i)") auto
qed

theorem no_panic_in_cluster_witness:
  "\<exists>p. handle_message serde_json least_limit (state_1 ''A'') (tx (state_1 ''B'') ! 1) = Inr p"
  using no_panic_in_cluster [OF json.serde_codec_axioms trio_config least_limit_range reachable_1, of "''A''" "''B''"
      "tx (state_1 ''B'') ! 1"]
  by (simp add: state_1_facts node_message_types_def)

end
