(* ===== verification/Blocked_Cluster.thy ===== *)
theory Blocked_Cluster
  imports Cluster_Views
begin

section \<open>A cluster that commits nothing any more\<close>

text \<open>
  The situation in which the retry makes no progress can hold for every follower at once. The
  leader \<open>C\<close> of term 4 has an entry of term 2 at index 1, where both followers have an entry
  of term 1, and its next index for both is 2. Every message it sends asks for the entry
  at index 1 or beyond, every answer is the hint 1, and the hint leads back to the next
  index 2. The predicates below describe the nodes and everything that may be in flight, and
  every step that leaves the terms alone keeps them.
\<close>

subsection \<open>What can be in flight\<close>

definition blocked_args :: "AppendEntriesArgs \<Rightarrow> bool" where
  "blocked_args x \<longleftrightarrow> ae_term x = 4
     \<and> (ae_prev_log_index x = 1 \<and> ae_prev_log_term x = 2 \<or> 1 < ae_prev_log_index x)"

definition holds_of :: "'a option \<Rightarrow> ('a \<Rightarrow> bool) \<Rightarrow> bool" where
  "holds_of x P = (case x of None \<Rightarrow> False | Some y \<Rightarrow> P y)"

lemma holds_of_simps [simp]: "holds_of (Some y) P = P y" "\<not> holds_of None P"
  by (simp_all add: holds_of_def)

lemma holds_ofE: "holds_of x P \<Longrightarrow> (\<And>y. x = Some y \<Longrightarrow> P y \<Longrightarrow> Q) \<Longrightarrow> Q"
  by (cases x) auto

definition blocked_msg :: "'v codec \<Rightarrow> 'v Message \<Rightarrow> bool" where
  "blocked_msg c m \<longleftrightarrow>
     (m_type m \<in> node_message_types \<longrightarrow> m_from m \<noteq> m_to m) \<and>
     (m_type m = ''AppendEntries'' \<longrightarrow> holds_of (from_slice_append_entries c (m_payload m))
        (\<lambda>x. ae_term x < 4 \<or> m_to m \<noteq> ''C'' \<and> blocked_args x)) \<and>
     (m_type m = ''RequestVote'' \<longrightarrow> holds_of (from_slice_request_vote c (m_payload m)) (\<lambda>x. rv_term x \<le> 4)) \<and>
     (m_type m = ''AppendReply'' \<longrightarrow> holds_of (from_slice_append_reply c (m_payload m))
        (\<lambda>x. ar_term x < 4 \<or> ar_term x = 4 \<and> (m_to m = ''C'' \<longrightarrow> \<not> ar_success x \<and> ar_match_index x = 1))) \<and>
     (m_type m = ''VoteReply'' \<longrightarrow> holds_of (from_slice_vote_reply c (m_payload m)) (\<lambda>x. rr_term x \<le> 4))"

subsection \<open>The nodes\<close>

definition blocked_follower :: "node_id \<Rightarrow> RaftNode \<Rightarrow> bool" where
  "blocked_follower i n \<longleftrightarrow> self_id n = i \<and> current_term n = 4 \<and> state n = Follower
     \<and> committed_index n = 0 \<and> log n = [sentinel, entry 1 1 ''x'']"

definition blocked_leader :: "RaftNode \<Rightarrow> bool" where
  "blocked_leader n \<longleftrightarrow> self_id n = ''C'' \<and> peers n = [''A'', ''B''] \<and> current_term n = 4
     \<and> committed_index n = 0 \<and> (\<exists>es. log n = sentinel # entry 2 1 ''y'' # es) \<and> 1 \<le> le_index (last (log n))
     \<and> (\<exists>ni mi. state n = Leader ni mi \<and> hm_inv ni \<and> hm_get ni ''A'' = Some 2 \<and> hm_get ni ''B'' = Some 2)"

definition blocked_node :: "node_id \<Rightarrow> RaftNode \<Rightarrow> bool" where
  "blocked_node i n = (if i = ''C'' then blocked_leader n else blocked_follower i n)"

definition blocked :: "'v codec \<Rightarrow> node_id \<Rightarrow> ('v, 'g) Process \<Rightarrow> bool" where
  "blocked c i p \<longleftrightarrow> i \<in> set trio \<and> blocked_node i (node p) \<and> applied p = []
     \<and> (\<forall>m \<in> set (tx p). m_from m = i \<and> blocked_msg c m)"

lemma blocked_node_facts:
  assumes "blocked_node i n"
  shows "self_id n = i" "current_term n = 4" "committed_index n = 0" "log n \<noteq> []"
    "is_Leader (state n) \<longleftrightarrow> i = ''C''" "\<not> counts_vote n r"
  using assms
  by (auto simp: blocked_node_def blocked_leader_def blocked_follower_def counts_vote_def split: if_splits)

lemma blocked_append_args:
  assumes "blocked_leader n" "1 \<le> w - 1"
  shows "blocked_args (append_args n w)"
proof -
  have "1 < w - 1" if "w - 1 \<noteq> 1" using order_le_neq_trans [OF assms(2) not_sym [OF that]] .
  then show ?thesis
    using assms by (cases "w - 1 = 1")
      (auto simp: blocked_leader_def blocked_args_def append_args_def vec_get_def entry_def)
qed

lemma blocked_mismatch:
  assumes "blocked_follower i n" "blocked_args x"
  shows "\<not> has_matching_prev_entry n (ae_prev_log_index x) (ae_prev_log_term x)"
proof (cases "ae_prev_log_index x = 1")
  case True
  then show ?thesis
    using assms by (auto simp: blocked_follower_def blocked_args_def has_matching_prev_entry_def vec_get_def entry_def)
next
  case False
  then have "2 \<le> unat (ae_prev_log_index x)"
    using assms(2) by (simp add: blocked_args_def word_less_nat_alt)
  then show ?thesis
    using assms(1) by (simp add: blocked_follower_def has_matching_prev_entry_def vec_get_def)
qed

subsection \<open>Steps\<close>

lemma blocked_done:
  assumes "blocked c i p" "blocked_node i n" "applies fx = []" "node q = n" "tx q = tx p @ ms" "applied q = applied p"
    and "\<forall>m \<in> set (ms @ messages_of c n (sends fx)). m_from m = i \<and> blocked_msg c m"
  shows "blocked c i (execute_effects c gen fx q)"
  using assms by (auto simp: blocked_def execute_effects_out)

lemma blocked_quiet:
  assumes "blocked c i p" "blocked_node i n" "applies fx = []" "sends fx = []"
  shows "blocked c i (execute_effects c gen fx (p\<lparr>node := n\<rparr>))"
  using assms by (intro blocked_done [where ms = "[]", OF assms(1-3)]) simp_all

lemma blocked_reply:
  assumes "blocked c i p" "blocked_node i n" "applies fx = []" "sends fx = []"
    and "blocked_msg c (envelope n j t v)"
  shows "blocked c i (execute_effects c gen fx (send (p\<lparr>node := n\<rparr>) (envelope n j t v)))"
  using assms blocked_node_facts(1) [OF assms(2)]
  by (intro blocked_done [where ms = "[envelope n j t v]", OF assms(1-3)]) (simp_all add: envelope_def)

lemma blocked_send:
  assumes "serde_codec c" "blocked_leader n" "j = ''A'' \<or> j = ''B''" "1 \<le> w - 1"
  shows "blocked_msg c (envelope n j ''AppendEntries'' (to_value_append_entries c (append_args n w)))"
  using assms blocked_append_args [OF assms(2,4)] serde_codec.rt_append_entries [OF assms(1)]
  by (auto simp: blocked_msg_def envelope_def blocked_leader_def)

lemma blocked_sender [simp]: "blocked_leader n \<Longrightarrow> m_from (envelope n j t v) = ''C''"
  by (simp add: blocked_leader_def envelope_def)

text \<open>A rejection with the hint 1 leaves the next index at 2.\<close>

lemma blocked_rejected:
  assumes "blocked_leader n" "j = ''A'' \<or> j = ''B''"
  shows "retry_index 1 (next_index_of (next_indices (state n)) j) = 2" "blocked_leader (rejected_by n j 1)"
proof -
  obtain ni mi where st: "state n = Leader ni mi" "hm_inv ni" "hm_get ni ''A'' = Some 2" "hm_get ni ''B'' = Some 2"
    using assms(1) by (auto simp: blocked_leader_def)
  show w: "retry_index 1 (next_index_of (next_indices (state n)) j) = 2"
    using st assms(2) by (auto simp: retry_index_def next_index_of_def)
  have "state (rejected_by n j 1) = Leader (hm_insert j 2 ni) mi"
    using st(1) w by (simp add: rejected_by_def Let_def)
  moreover have "hm_inv (hm_insert j 2 ni)" "hm_get (hm_insert j 2 ni) ''A'' = Some 2" "hm_get (hm_insert j 2 ni) ''B'' = Some 2"
    using st(2-4) by (simp_all add: hm.inv_insert hm.lookup_insert)
  ultimately show "blocked_leader (rejected_by n j 1)"
    using assms(1) by (simp add: blocked_leader_def) (simp add: rejected_by_def Let_def)
qed

lemma blocked_reject:
  assumes "serde_codec c" "blocked_node i n" "j \<noteq> i"
  shows "blocked_msg c (envelope n j ''AppendReply'' (to_value_append_reply c (reject_append_entries n)))"
  using assms serde_codec.rt_append_reply [OF assms(1)]
  by (auto simp: blocked_msg_def envelope_def reject_append_entries_def Let_def blocked_node_def blocked_leader_def
      blocked_follower_def entry_def split: if_splits)

lemma blocked_append_entries:
  assumes ser: "serde_codec c" and b: "blocked c i p" and m: "blocked_msg c m" "m_type m = ''AppendEntries''" "m_to m = i"
    and step: "handle_message c gen p m = Inr p'"
  shows "blocked c i p'"
proof -
  let ?n = "node p"
  have bn: "blocked_node i ?n" using b by (simp add: blocked_def)
  obtain x where x: "from_slice_append_entries c (m_payload m) = Some x" "ae_term x < 4 \<or> i \<noteq> ''C'' \<and> blocked_args x"
    and ft: "m_from m \<noteq> i"
    using m by (auto simp: blocked_msg_def node_message_types_def elim!: holds_ofE)
  have "\<exists>n fx. handle_append_entries ?n x = (n, reject_append_entries n, fx) \<and> sends fx = [] \<and> applies fx = []
      \<and> blocked_node i n"
  proof (cases "ae_term x < 4")
    case True
    then show ?thesis using handle_append_entries_stale [of x ?n] blocked_node_facts(2) [OF bn] bn by auto
  next
    case False
    then have f: "i \<noteq> ''C''" "blocked_follower i ?n" "blocked_args x" using x(2) bn by (auto simp: blocked_node_def)
    let ?n' = "(observe ?n (ae_term x))\<lparr>leader_id := Some (ae_leader_id x), state := Follower\<rparr>"
    have t: "ae_term x = current_term ?n" using f by (simp add: blocked_args_def blocked_follower_def)
    then have "blocked_node i ?n'" using f by (simp add: blocked_node_def blocked_follower_def)
    then show ?thesis
      using handle_append_entries_mismatch [OF _ blocked_mismatch [OF f(2,3)]] t by auto
  qed
  then obtain n fx where h: "handle_append_entries ?n x = (n, reject_append_entries n, fx)" "sends fx = []" "applies fx = []"
    "blocked_node i n" by blast
  have "p' = execute_effects c gen fx (send (p\<lparr>node := n\<rparr>)
      (envelope n (m_from m) ''AppendReply'' (to_value_append_reply c (reject_append_entries n))))"
    using step m(2) x(1) h(1) by (simp add: handle_message_def)
  then show ?thesis using blocked_reply [OF b h(4,3,2) blocked_reject [OF ser h(4) ft]] by simp
qed

lemma blocked_request_vote:
  assumes ser: "serde_codec c" and b: "blocked c i p" and m: "blocked_msg c m" "m_type m = ''RequestVote''" "m_to m = i"
    and step: "handle_message c gen p m = Inr p'"
  shows "blocked c i p'"
proof -
  let ?n = "node p"
  have bn: "blocked_node i ?n" using b by (simp add: blocked_def)
  note t = blocked_node_facts [OF bn]
  obtain x where x: "from_slice_request_vote c (m_payload m) = Some x" "rv_term x \<le> 4" and ft: "m_from m \<noteq> i"
    using m by (auto simp: blocked_msg_def node_message_types_def elim!: holds_ofE)
  have ob: "observe ?n (rv_term x) = ?n" using x(2) t(2) by simp
  let ?n' = "if grants_vote ?n x then ?n\<lparr>voted_for := Some (rv_candidate_id x)\<rparr> else ?n"
  let ?r = "\<lparr>rr_term = max (current_term ?n) (rv_term x), rr_vote_granted = grants_vote ?n x\<rparr>"
  obtain fx where h: "handle_request_vote ?n x = Inr (?n', ?r, fx)" "sends fx = []" "applies fx = []"
    using handle_request_vote_eq [OF t(4), of x] unfolding ob by blast
  have "blocked_node i ?n'"
    using bn by (auto simp: blocked_node_def blocked_follower_def blocked_leader_def)
  moreover have "blocked_msg c (envelope ?n' (m_from m) ''VoteReply'' (to_value_vote_reply c ?r))"
    using ft t(1,2) x(2) serde_codec.rt_vote_reply [OF ser]
    by (auto simp: blocked_msg_def envelope_def max_def)
  moreover have "p' = execute_effects c gen fx (send (p\<lparr>node := ?n'\<rparr>) (envelope ?n' (m_from m) ''VoteReply'' (to_value_vote_reply c ?r)))"
    using step m(2) x(1) h(1) by (simp add: handle_message_def)
  ultimately show ?thesis using blocked_reply [OF b _ h(3,2)] by simp
qed


lemma blocked_append_reply:
  assumes ser: "serde_codec c" and b: "blocked c i p" and m: "blocked_msg c m" "m_type m = ''AppendReply''" "m_to m = i"
    and sender: "m_from m \<in> set trio" and step: "handle_message c gen p m = Inr p'"
  shows "blocked c i p'"
proof -
  let ?n = "node p"
  have bn: "blocked_node i ?n" using b by (simp add: blocked_def)
  note t = blocked_node_facts [OF bn]
  obtain x where x: "from_slice_append_reply c (m_payload m) = Some x"
      "ar_term x < 4 \<or> ar_term x = 4 \<and> (i = ''C'' \<longrightarrow> \<not> ar_success x \<and> ar_match_index x = 1)"
    and ft: "m_from m \<noteq> i"
    using m by (auto simp: blocked_msg_def node_message_types_def elim!: holds_ofE)
  obtain n fx where h: "handle_append_entries_reply ?n (m_from m) x = Inr (n, fx)" "p' = execute_effects c gen fx (p\<lparr>node := n\<rparr>)"
    using step m(2) x(1) by (auto simp: handle_message_def res_simps)
  have new: "\<not> current_term ?n < ar_term x" using x(2) t(2) by auto
  show ?thesis
  proof (cases "ar_term x \<noteq> current_term ?n \<or> \<not> is_Leader (state ?n)")
    case True
    then show ?thesis
      using handle_append_entries_reply_ignored [OF new True, of "m_from m"] h blocked_quiet [OF b bn] by auto
  next
    case False
    then have r: "ar_term x = current_term ?n" "is_Leader (state ?n)" "\<not> ar_success x" "ar_match_index x = 1"
      and bl: "blocked_leader ?n"
      using t x(2) bn by (auto simp: blocked_node_def)
    let ?j = "m_from m" and ?n' = "rejected_by ?n (m_from m) 1"
    have j: "?j = ''A'' \<or> ?j = ''B''" using sender ft t(5) r(2) by (auto simp: trio_def)
    note w = blocked_rejected(1) [OF bl j] and bl' = blocked_rejected(2) [OF bl j]
    obtain fx' where "handle_append_entries_reply ?n ?j x = Inr (?n', fx')"
      "sends fx' = [SendAppendEntries ?j (append_args ?n' 2)]" "applies fx' = []"
      using handle_append_entries_reply_failure [OF r(1-3), of ?j] unfolding r(4) w by blast
    then have fx: "n = ?n'" "sends fx = [SendAppendEntries ?j (append_args ?n' 2)]" "applies fx = []" using h by auto
    have iC: "i = ''C''" using t(5) r(2) by simp
    show ?thesis
      unfolding h(2)
    proof (rule blocked_done [where ms = "[]", OF b])
      show "blocked_node i n" using bl' fx(1) iC by (simp add: blocked_node_def)
      show "\<forall>m \<in> set ([] @ messages_of c n (sends fx)). m_from m = i \<and> blocked_msg c m"
        using blocked_send [OF ser bl' j, of 2] bl' iC by (simp add: fx)
    qed (simp_all add: fx)
  qed
qed

lemma blocked_vote_reply:
  assumes b: "blocked c i p" and m: "blocked_msg c m" "m_type m = ''VoteReply''"
    and step: "handle_message c gen p m = Inr p'"
  shows "blocked c i p'"
proof -
  let ?n = "node p"
  have bn: "blocked_node i ?n" using b by (simp add: blocked_def)
  note t = blocked_node_facts [OF bn]
  obtain x where x: "from_slice_vote_reply c (m_payload m) = Some x" "rr_term x \<le> 4"
    using m by (auto simp: blocked_msg_def elim!: holds_ofE)
  have "\<not> current_term ?n < rr_term x" using x(2) t(2) by simp
  then show ?thesis
    using handle_request_vote_reply_ignored [OF _ t(6), of x "m_from m"] step m(2) x(1) blocked_quiet [OF b bn]
    by (auto simp: handle_message_def res_simps)
qed

lemma blocked_propose:
  assumes ser: "serde_codec c" and b: "blocked c i p"
    and step: "handle_client_request (node p) x = Inr (n, r, fx)"
  shows "blocked_node i n" "applies fx = []" "\<forall>m \<in> set (messages_of c n (sends fx)). m_from m = i \<and> blocked_msg c m"
proof -
  let ?n = "node p" and ?i = "le_index (last (log (node p))) + 1"
  have bn: "blocked_node i ?n" using b by (simp add: blocked_def)
  note t = blocked_node_facts [OF bn]
  obtain info where pc: "propose_command ?n (cr_command x) = Inr (n, info, fx)"
    using step by (auto simp: handle_client_request_def res_simps split: option.splits prod.splits)
  have "blocked_node i n \<and> applies fx = [] \<and> (\<forall>m \<in> set (messages_of c n (sends fx)). m_from m = i \<and> blocked_msg c m)"
  proof (cases "is_Leader (state ?n)")
    case False
    then show ?thesis using propose_command_other [OF False, of "cr_command x"] pc bn by auto
  next
    case True
    then have iC: "i = ''C''" and bl: "blocked_leader ?n" using t(5) bn by (auto simp: blocked_node_def)
    let ?n' = "proposal ?n (cr_command x)"
    have res: "unat ?i = Suc (unat (le_index (last (log ?n))))" "n = ?n'"
      "sends fx = [BroadcastAppendEntries (append_args ?n' ?i)]" "applies fx = []"
      using propose_command_leader [OF t(4) True, of "cr_command x"] pc by auto
    have one: "1 \<le> le_index (last (log ?n))" using bl by (simp add: blocked_leader_def)
    have "1 \<le> ?i" using res(1) by (simp add: word_le_nat_alt)
    then have bl': "blocked_leader ?n'" using bl by (auto simp: blocked_leader_def proposal_def)
    have "peers ?n' = [''A'', ''B'']" using bl' by (simp add: blocked_leader_def)
    then show ?thesis
      using blocked_send [OF ser bl', of _ ?i] one bl' iC res(2-4) by (auto simp: blocked_node_def)
  qed
  then show "blocked_node i n" "applies fx = []" "\<forall>m \<in> set (messages_of c n (sends fx)). m_from m = i \<and> blocked_msg c m"
    by blast+
qed

lemma blocked_client:
  assumes ser: "serde_codec c" and b: "blocked c i p" and m: "m_type m \<notin> node_message_types"
    and step: "handle_message c gen p m = Inr p'"
  shows "blocked c i p'"
proof (cases "m_type m = ''ClientRequest''")
  case True
  then obtain x n r fx where h: "handle_client_request (node p) x = Inr (n, r, fx)"
    "p' = execute_effects c gen fx (send (p\<lparr>node := n\<rparr>) (envelope n (m_from m) ''ClientReply'' (to_value_client_reply c r)))"
    using step by (auto simp: handle_message_def res_simps)
  note pr = blocked_propose [OF ser b h(1)]
  show ?thesis
    unfolding h(2)
    by (rule blocked_done [where ms = "[envelope n (m_from m) ''ClientReply'' (to_value_client_reply c r)]", OF b pr(1,2)])
      (use pr(3) blocked_node_facts(1) [OF pr(1)] in \<open>auto simp: envelope_def blocked_msg_def node_message_types_def\<close>)
next
  case False
  then show ?thesis using step m b by (simp add: handle_message_def node_message_types_def)
qed

lemma blocked_deliver:
  assumes ser: "serde_codec c" and b: "blocked c i p"
    and m: "m_type m \<notin> node_message_types \<or> blocked_msg c m \<and> m_from m \<in> set trio \<and> m_to m = i"
  shows "blocked c i (deliver c gen m p)"
proof (cases c gen m p rule: deliver_cases)
  case (run p')
  have "blocked c i p'"
  proof (cases "m_type m \<in> node_message_types")
    case True
    then have m': "blocked_msg c m" "m_from m \<in> set trio" "m_to m = i" using m by auto
    consider "m_type m = ''AppendEntries''" | "m_type m = ''RequestVote''" | "m_type m = ''AppendReply''"
      | "m_type m = ''VoteReply''"
      using True by (auto simp: node_message_types_def)
    then show ?thesis
      using blocked_append_entries [OF ser b m'(1) _ m'(3) run(2)] blocked_request_vote [OF ser b m'(1) _ m'(3) run(2)]
        blocked_append_reply [OF ser b m'(1) _ m'(3,2) run(2)] blocked_vote_reply [OF b m'(1) _ run(2)] by cases auto
  qed (use blocked_client [OF ser b _ run(2)] in simp)
  then show ?thesis using run by simp
qed (use b in \<open>simp_all add: blocked_def\<close>)

lemma blocked_engine: "blocked c i (p\<lparr>engine := e\<rparr>) = blocked c i p"
  by (simp add: blocked_def)

lemma blocked_tick:
  assumes ser: "serde_codec c" and b: "blocked c i p" and same: "current_term (node (tick c gen p)) = 4"
  shows "blocked c i (tick c gen p)"
proof (cases c gen p rule: tick_cases)
  case (run p')
  let ?n = "node p"
  have bn: "blocked_node i ?n" using b by (simp add: blocked_def)
  note t = blocked_node_facts [OF bn]
  have "blocked c i p'"
  proof (cases "i = ''C''")
    case True
    then have L: "is_Leader (state ?n)" and bl: "blocked_leader ?n" using t(5) bn by (simp_all add: blocked_node_def)
    then obtain ni mi where st: "state ?n = Leader ni mi" by (auto elim: is_LeaderE)
    then have ni: "next_index_of ni ''A'' = 2" "next_index_of ni ''B'' = 2" "peers ?n = [''A'', ''B'']"
      using bl by (auto simp: blocked_leader_def next_index_of_def)
    obtain fx where fx: "handle_heartbeat_timeout ?n = (?n, fx)" "applies fx = []"
      "sends fx = [SendAppendEntries ''A'' (append_args ?n 2), SendAppendEntries ''B'' (append_args ?n 2)]"
      using handle_heartbeat_timeout_leader [OF st] ni by auto
    have beat: "blocked c i (execute_effects c gen fx q)" if "node q = ?n" "tx q = tx p" "applied q = applied p" for q
      by (rule blocked_done [where ms = "[]", OF b bn fx(2)])
        (use that fx(3) blocked_send [OF ser bl, of _ 2] bl True in auto)
    show ?thesis
      using run(2) L fx(1) beat b
      by (auto simp: tick_body_def res_simps Let_def blocked_engine split: if_splits)
  next
    case False
    then have F: "\<not> is_Leader (state ?n)" using t(5) by simp
    have p': "node (tick c gen p) = node p'" using run(3) by simp
    show ?thesis
    proof (cases "\<exists>k. p' = p\<lparr>engine := k\<rparr>")
      case True
      then show ?thesis using b by (auto simp: blocked_engine)
    next
      case False
      then obtain n fx where "handle_election_timeout ?n = Inr (n, fx)" "node p' = n"
        using run(2) F by (fastforce simp: tick_body_def res_simps Let_def split: if_splits)
      then have "unat (current_term (node p')) = Suc (unat (current_term ?n))"
        using handle_election_timeout_eq [OF t(4) F] by (auto simp: candidacy_def)
      then show ?thesis using same p' t(2) by simp
    qed
  qed
  then show ?thesis using run by simp
qed (use b in \<open>simp_all add: blocked_def\<close>)


subsection \<open>Runs\<close>

lemma cstep_term: "cstep N c gen s s' \<Longrightarrow> current_term (node (s i)) \<le> current_term (node (s' i))"
  by (elim cstepE) (auto intro: term_vote_le_term [OF deliver_term_vote] term_vote_le_term [OF tick_term_vote])

lemma run_term: "(cstep N c gen)\<^sup>*\<^sup>* s s' \<Longrightarrow> current_term (node (s i)) \<le> current_term (node (s' i))"
  by (induction rule: rtranclp_induct) (auto intro: cstep_term order_trans)

lemma blocked_step:
  assumes "serde_codec c" "\<forall>i \<in> set trio. blocked c i (s i)" "cstep (set trio) c gen s s'"
    and "\<forall>i \<in> set trio. current_term (node (s' i)) = 4"
  shows "\<forall>i \<in> set trio. blocked c i (s' i)"
  using assms(3)
proof cases
  case (c_tick i)
  then have "blocked c i (tick c gen (s i))" using assms(2,4) by (intro blocked_tick [OF assms(1)]) auto
  then show ?thesis using assms(2) c_tick by simp
next
  case (c_deliver i j m)
  then have "blocked_msg c m" "m_from m = j" using assms(2) by (auto simp: blocked_def)
  then have "blocked c i (deliver c gen m (s i))"
    using assms(2) c_deliver by (intro blocked_deliver [OF assms(1)]) auto
  then show ?thesis using assms(2) c_deliver by simp
next
  case (c_client i m)
  then have "blocked c i (deliver c gen m (s i))" using assms(2) by (intro blocked_deliver [OF assms(1)]) auto
  then show ?thesis using assms(2) c_client by simp
qed

lemma blocked_run:
  assumes "(cstep (set trio) c gen)\<^sup>*\<^sup>* s s'" "serde_codec c" "\<forall>i \<in> set trio. blocked c i (s i)"
    and "\<forall>i \<in> set trio. current_term (node (s' i)) = 4"
  shows "\<forall>i \<in> set trio. blocked c i (s' i)"
  using assms(1,4)
proof (induction rule: rtranclp_induct)
  case (step u v)
  have "current_term (node (u i)) = 4" if "i \<in> set trio" for i
    using run_term [OF step.hyps(1), of i] cstep_term [OF step.hyps(2), of i] step.prems assms(3) that
      blocked_node_facts(2) [of i "node (s i)"]
    by (force simp: blocked_def intro: antisym)
  then show ?case using blocked_step [OF assms(2) step.IH step.hyps(2) step.prems] by blast
qed (rule assms(3))

subsection \<open>How a cluster gets there\<close>

text \<open>
  \<open>A\<close> is elected in term 1 and appends \<open>x\<close>, \<open>C\<close> is elected in term 2 and appends \<open>y\<close>, both
  by \<open>B\<close> and before any entry has left them. \<open>A\<close> is elected again in term 3 and brings \<open>x\<close> to
  \<open>B\<close>, but its acknowledgement is late. In term 4 \<open>C\<close>, whose last term is the newest, is
  elected by \<open>A\<close>; its heartbeat reaches \<open>B\<close>.
\<close>

definition schedule_5 :: "event list" where
  "schedule_5 = [time_out ''A'', Deliver ''A'' 0, Deliver ''B'' 0, Command ''A'' ''x'',
     time_out ''C'', time_out ''C'', Deliver ''C'' 3, Deliver ''B'' 1, Command ''C'' ''y'', Deliver ''C'' 4,
     time_out ''A'', Deliver ''A'' 8, Deliver ''B'' 2, Deliver ''A'' 10, Deliver ''B'' 3, Deliver ''A'' 12, Deliver ''A'' 11,
     time_out ''C'', Deliver ''C'' 10, Deliver ''A'' 13, Deliver ''C'' 13]"

lemma schedule_5_runs:
  "case run trio least_limit schedule_5 trio_start of None \<Rightarrow> False | Some s \<Rightarrow>
     node (s ''A'') = \<lparr>self_id = ''A'', peers = [''B'', ''C''], current_term = 4, voted_for = Some ''C'',
        leader_id = None, log = [sentinel, entry 1 1 ''x''], state = Follower, committed_index = 0, last_applied = 0\<rparr>
     \<and> node (s ''B'') = \<lparr>self_id = ''B'', peers = [''A'', ''C''], current_term = 4, voted_for = None,
        leader_id = Some ''C'', log = [sentinel, entry 1 1 ''x''], state = Follower, committed_index = 0, last_applied = 0\<rparr>
     \<and> node (s ''C'') = \<lparr>self_id = ''C'', peers = [''A'', ''B''], current_term = 4, voted_for = Some ''C'',
        leader_id = Some ''C'', log = [sentinel, entry 2 1 ''y''],
        state = Leader [(''A'', 2), (''B'', 2)] [(''A'', 0), (''B'', 0)], committed_index = 0, last_applied = 0\<rparr>
     \<and> list_all (\<lambda>i. applied (s i) = [] \<and> \<not> poisoned (s i) \<and>
          list_all (\<lambda>m. m_from m = i \<and> blocked_msg serde_json m) (tx (s i))) trio"
  by code_simp

text \<open>C9: A cluster can stop committing for good. A cluster of three reaches a state in which no process has
  stopped, C leads term 4 and the two others follow, and in every continuation, with whatever commands and deliveries,
  as long as no process moves to a later term, C stays leader and nothing is ever committed or applied anywhere.\<close>

theorem cluster_can_block:
  "\<exists>s. c_reachable (set trio) trio_peers serde_json least_limit s
    \<and> (\<forall>i \<in> set trio. current_term (node (s i)) = 4 \<and> \<not> poisoned (s i))
    \<and> (\<forall>s'. (cstep (set trio) serde_json least_limit)\<^sup>*\<^sup>* s s' \<longrightarrow> (\<forall>i \<in> set trio. current_term (node (s' i)) = 4) \<longrightarrow>
        is_Leader (state (node (s' ''C'')))
        \<and> (\<forall>i \<in> set trio. committed_index (node (s' i)) = 0 \<and> applied (s' i) = []))"
proof -
  obtain s where s: "run trio least_limit schedule_5 trio_start = Some s"
    using schedule_5_runs by (auto split: option.splits)
  note runs = schedule_5_runs [unfolded s option.case]
  have block: "\<forall>i \<in> set trio. blocked serde_json i (s i)"
    using runs
    by (simp add: trio_def blocked_def blocked_node_def blocked_leader_def blocked_follower_def entry_def hm_inv_def
        hm_get_def list_all_iff)
  have "is_Leader (state (node (s' ''C''))) \<and> (\<forall>i \<in> set trio. committed_index (node (s' i)) = 0 \<and> applied (s' i) = [])"
    if "(cstep (set trio) serde_json least_limit)\<^sup>*\<^sup>* s s'" "\<forall>i \<in> set trio. current_term (node (s' i)) = 4" for s'
  proof -
    note b = blocked_run [OF that(1) json.serde_codec_axioms block that(2)]
    have bn: "blocked_node i (node (s' i)) \<and> applied (s' i) = []" if "i \<in> set trio" for i
      using b that by (simp add: blocked_def)
    then have "is_Leader (state (node (s' ''C'')))" using trio_members(3) blocked_node_facts(5) by blast
    then show ?thesis using bn blocked_node_facts(3) by blast
  qed
  moreover have "\<forall>i \<in> set trio. current_term (node (s i)) = 4 \<and> \<not> poisoned (s i)" using runs by (simp add: trio_def)
  ultimately show ?thesis using trio_reachable [OF s] by blast
qed

theorem cluster_can_block_witness:
  "\<exists>s. c_reachable (set trio) trio_peers serde_json least_limit s \<and> is_Leader (state (node (s ''C'')))
    \<and> committed_index (node (s ''A'')) = 0"
  using cluster_can_block trio_members(1) by blast

end
