(* ===== verification/Commit_Progress.thy ===== *)
theory Commit_Progress
  imports Cluster_Views
begin

section \<open>Proposals can be committed\<close>

text \<open>
  The counterpart of \<open>Election_Progress\<close> for a leader at work. The exchanges of \<open>Repair\<close> are runs
  of the cluster: the leader's clock brings a heartbeat, the follower's reply comes back.
  Follower by follower the leader's log arrives, and the acknowledgement that completes a
  majority commits it. So a command that a client sends to a leader can be committed
  whenever a majority of the cluster is not in the one situation in which repair makes no progress.
\<close>

subsection \<open>One exchange as a run of the cluster\<close>


lemma leader_heartbeats:
  assumes "\<not> poisoned p" "state (node p) = Leader ni mi" "heartbeat_tick_count (engine p) < heartbeat_interval"
  shows "\<exists>k. node (ticks c gen k p) = node p \<and> \<not> poisoned (ticks c gen k p)
    \<and> (\<forall>j \<in> set (peers (node p)). next_index_of ni j \<noteq> 0 \<longrightarrow>
        envelope (node p) j ''AppendEntries'' (to_value_append_entries c (append_args (node p) (next_index_of ni j)))
          \<in> set (tx (ticks c gen k p)))"
  using assms
proof (induction "6 - unat (heartbeat_tick_count (engine p))" arbitrary: p rule: less_induct)
  case less
  let ?h = "heartbeat_tick_count (engine p)"
  let ?q = "p\<lparr>engine := (engine p)\<lparr>heartbeat_tick_count := ?h + 1\<rparr>\<rparr>"
  have ldr: "is_Leader (state (node p))" by (simp add: less.prems(2))
  obtain fx where fx: "handle_heartbeat_timeout (node p) = (node p, fx)"
    "sends fx = map (\<lambda>j. SendAppendEntries j (append_args (node p) (next_index_of ni j)))
        (filter (\<lambda>j. next_index_of ni j \<noteq> 0) (peers (node p)))"
    using handle_heartbeat_timeout_leader [OF less.prems(2)] by blast
  have lt: "unat ?h < 6" using less.prems(3) unat_heartbeat_interval by (simp add: word_less_nat_alt)
  then have suc: "unat (?h + 1) = Suc (unat ?h)" by (simp add: unat_word_ariths)
  note t = tick_leader [OF ldr fx(1) less.prems(3), of c gen]
  show ?case
  proof (cases "heartbeat_interval \<le> ?h + 1")
    case True
    then have q: "node (tick c gen p) = node p" "\<not> poisoned (tick c gen p)"
      "tx (tick c gen p) = tx p @ messages_of c (node p) (sends fx)"
      using t less.prems(1) by (simp_all add: tick_def under_lock_def Let_def execute_effects_out)
    have "envelope (node p) j ''AppendEntries'' (to_value_append_entries c (append_args (node p) (next_index_of ni j)))
        \<in> set (messages_of c (node p) (sends fx))" if "j \<in> set (peers (node p))" "next_index_of ni j \<noteq> 0" for j
      using that fx(2) by (auto simp: messages_of_def)
    then show ?thesis using q by (intro exI [of _ "Suc 0"]) auto
  next
    case False
    define q where "q = tick c gen p"
    have q: "q = ?q\<lparr>engine := (engine ?q)\<lparr>election_tick_count := 0\<rparr>\<rparr>"
      using t less.prems(1) False by (simp add: q_def tick_def under_lock_def Let_def)
    have "6 - unat (heartbeat_tick_count (engine q)) < 6 - unat ?h" using lt suc q by simp
    from less.hyps [OF this] obtain k where "node (ticks c gen k q) = node q \<and> \<not> poisoned (ticks c gen k q)
      \<and> (\<forall>j \<in> set (peers (node q)). next_index_of ni j \<noteq> 0 \<longrightarrow>
        envelope (node q) j ''AppendEntries'' (to_value_append_entries c (append_args (node q) (next_index_of ni j)))
          \<in> set (tx (ticks c gen k q)))"
      using less.prems q False by (auto simp: not_le)
    then show ?thesis using q by (intro exI [of _ "Suc k"]) (simp flip: q_def)
  qed
qed

lemma deliver_append_entries:
  fixes gen :: "'g \<Rightarrow> u64 \<times> 'g" and n :: RaftNode and j :: node_id
  assumes ser: "serde_codec c" and "\<not> poisoned q" "handle_append_entries (node q) x = (f', r, fx)"
  defines "q' \<equiv> deliver c gen (envelope n j ''AppendEntries'' (to_value_append_entries c x)) q"
  shows "node q' = f'" "\<not> poisoned q'"
    "envelope f' (self_id n) ''AppendReply'' (to_value_append_reply c r) \<in> set (tx q')"
  using assms(2,3) serde_codec.rt_append_entries [OF ser]
  by (simp_all add: q'_def deliver_def under_lock_def handle_message_def envelope_def Let_def execute_effects_out)

lemma deliver_append_reply:
  fixes gen :: "'g \<Rightarrow> u64 \<times> 'g" and i :: node_id
  assumes ser: "serde_codec c" and "\<not> poisoned p" "handle_append_entries_reply (node p) (self_id f) r = Inr (n', fx)"
  defines "p' \<equiv> deliver c gen (envelope f i ''AppendReply'' (to_value_append_reply c r)) p"
  shows "node p' = n'" "\<not> poisoned p'"
  using assms(2,3) serde_codec.rt_append_reply [OF ser]
  by (simp_all add: p'_def deliver_def under_lock_def handle_message_def envelope_def)

lemma exchange_runs:
  fixes s :: "node_id \<Rightarrow> ('v, 'g) Process" and gen :: "'g \<Rightarrow> u64 \<times> 'g"
  assumes "serde_codec c" "cluster_config N peers_of" "gen_range_30_150 gen" "c_reachable N peers_of c gen s"
    and "i \<in> N" "j \<in> N" "i \<noteq> j" "\<not> poisoned (s i)" "\<not> poisoned (s j)"
    and "pair_ok j (node (s i)) (node (s j))" "exchange j (node (s i), node (s j)) = Inr (n', f')"
  shows "\<exists>p q. (cstep N c gen)\<^sup>*\<^sup>* s (s(i := p, j := q)) \<and> node p = n' \<and> node q = f' \<and> \<not> poisoned p \<and> \<not> poisoned q"
proof -
  let ?n = "node (s i)" and ?f = "node (s j)"
  obtain ni mi where st: "state ?n = Leader ni mi" using pair_okD(1) [OF assms(10)] by (rule is_LeaderE)
  have nxt: "next_index_of ni j \<noteq> 0" using pair_okD(13) [OF assms(10)] st by simp
  let ?x = "append_args ?n (next_index_of ni j)"
  obtain a where a: "cluster_rel N c s a" using cluster_refines [OF assms(1,2,4)] by blast
  have id: "self_id ?n = i" "j \<in> set (peers ?n)"
    using node_relD(1,3) [OF related_node [OF a assms(5)]] assms(6,7) by auto
  obtain r fx gx where h: "handle_append_entries ?f ?x = (f', r, fx)" "handle_append_entries_reply ?n j r = Inr (n', gx)"
    using assms(11) st nxt
    by (auto simp: exchange_def build_append_entries_args_eq res_simps split: prod.splits)
  obtain k where k: "node (ticks c gen k (s i)) = ?n" "\<not> poisoned (ticks c gen k (s i))"
    "envelope ?n j ''AppendEntries'' (to_value_append_entries c ?x) \<in> set (tx (ticks c gen k (s i)))"
    using leader_heartbeats [OF assms(8) st, of c gen] reachable_timers_ok [OF assms(3-5)] id nxt
    by (auto simp: timers_ok_def)
  let ?p = "ticks c gen k (s i)" and ?m = "envelope ?n j ''AppendEntries'' (to_value_append_entries c ?x)"
  define q where "q = deliver c gen ?m (s j)"
  note dq = deliver_append_entries [where gen = gen and n = ?n and j = j, OF assms(1,9) h(1), folded q_def, unfolded id(1)]
  let ?v = "envelope f' i ''AppendReply'' (to_value_append_reply c r)"
  define p where "p = deliver c gen ?v ?p"
  have s1: "(cstep N c gen)\<^sup>*\<^sup>* s (s(i := ?p))" by (rule tick_steps [OF assms(5)])
  have s2: "cstep N c gen (s(i := ?p)) ((s(i := ?p))(j := q))"
    using cstep.c_deliver [of j N i ?m "s(i := ?p)" c gen] assms(5-7) k(3) by (simp add: q_def envelope_def)
  then have "c_reachable N peers_of c gen ((s(i := ?p))(j := q))"
    using c_reachable_star [OF s1 assms(4)] by (rule c_reachable.c_next [rotated])
  then obtain b where b: "cluster_rel N c ((s(i := ?p))(j := q)) b" using cluster_refines [OF assms(1,2)] by blast
  then have self: "self_id f' = j" using node_relD(1) [OF related_node [OF b assms(6)]] dq(1) by simp
  have p: "node p = n'" "\<not> poisoned p"
    using deliver_append_reply [where gen = gen and i = i, OF assms(1) k(2), of f' r n' gx] h(2) k(1) self by (simp_all add: p_def)
  have s3: "cstep N c gen ((s(i := ?p))(j := q)) (((s(i := ?p))(j := q))(i := p))"
    using cstep.c_deliver [of i N j ?v "(s(i := ?p))(j := q)" c gen] assms(5-7) dq(3) by (simp add: p_def envelope_def)
  have "((s(i := ?p))(j := q))(i := p) = s(i := p, j := q)" using assms(7) by auto
  then have "(cstep N c gen)\<^sup>*\<^sup>* s (s(i := p, j := q))"
    using rtranclp.rtrancl_into_rtrancl [of "cstep N c gen", OF rtranclp.rtrancl_into_rtrancl [of "cstep N c gen", OF s1 s2] s3] by simp
  then show ?thesis using p dq(1,2) by blast
qed


subsection \<open>Exchanges, one follower at a time\<close>

text \<open>What an exchange with \<open>j\<close> leaves alone: the log, the term and the role of the leader, its view of the others, and what it has committed.\<close>

definition same_but :: "node_id \<Rightarrow> RaftNode \<Rightarrow> RaftNode \<Rightarrow> bool" where
  "same_but j n n' \<longleftrightarrow> log n' = log n \<and> current_term n' = current_term n \<and> is_Leader (state n')
     \<and> committed_index n \<le> committed_index n' \<and> (\<forall>q. q \<noteq> j \<longrightarrow> hm_get (next_indices (state n')) q = hm_get (next_indices (state n)) q
          \<and> hm_get (match_indices (state n')) q = hm_get (match_indices (state n)) q)"

lemma same_but_trans: "same_but j n n' \<Longrightarrow> same_but j n' n'' \<Longrightarrow> same_but j n n''"
  by (auto simp: same_but_def)

lemma commit_kept:
  "committed_index n \<le> committed_index (caught_up j n)" "committed_index (rejected_by n j w) = committed_index n"
  by (auto simp: caught_up_def accepted_by_def rejected_by_def committed_upto_def may_commit_def Let_def)

lemma exchange_same_but:
  assumes "pair_ok j n f" "hm_inv (match_indices (state n))" "exchange j (n, f) = Inr (n', f')"
  shows "same_but j n n'" "current_term f' = current_term n"
proof -
  note d = pair_okD [OF assms(1)]
  have "same_but j n n' \<and> current_term f' = current_term n"
  proof (cases "prev_matches j n f")
    case True
    then show ?thesis
      using exchange_success [OF assms(1)] assms(2,3) d(2) by (auto simp: same_but_def hm.lookup_insert commit_kept)
  next
    case False
    then show ?thesis using exchange_failure [OF assms(1)] assms(3) d(2) by (auto simp: same_but_def commit_kept)
  qed
  then show "same_but j n n'" "current_term f' = current_term n" by simp_all
qed

lemma related_view:
  assumes "cluster_rel N c s a" "i \<in> N" "state (node (s i)) = Leader ni mi" "1 < card N"
  shows "leader_view_ok (node (s i)) mi" "hm_inv mi" "length (peers (node (s i))) + 1 = card N"
proof -
  note d = node_relD [OF related_node [OF assms(1,2)]]
  have fin: "finite N" using assms(4) by (metis card.infinite not_less_zero)
  show card: "length (peers (node (s i))) + 1 = card N"
    using distinct_card [OF d(2)] d(3) assms(2) fin card_Suc_Diff1 [of N i] by simp
  show "hm_inv mi" using d(10) assms(3) by simp
  moreover have "dom (hm_get mi) = N - {i}" using d(10) assms(3) by simp
  moreover have "unat w < length (log (node (s i)))" if "hm_get mi p = Some w" for p w
  proof -
    have "p \<in> N" "p \<noteq> i" using that \<open>dom (hm_get mi) = N - {i}\<close> by auto
    then show ?thesis using related_indices [OF assms(1-3)] that by fastforce
  qed
  ultimately show "leader_view_ok (node (s i)) mi"
    using d(1-3) card assms(4) by (auto simp: leader_view_ok_def)
qed

lemma exchanges_run:
  fixes s :: "node_id \<Rightarrow> ('v, 'g) Process" and gen :: "'g \<Rightarrow> u64 \<times> 'g"
  assumes "serde_codec c" "cluster_config N peers_of" "gen_range_30_150 gen" "i \<in> N" "j \<in> N" "i \<noteq> j"
    and "c_reachable N peers_of c gen s" "\<not> poisoned (s i)" "\<not> poisoned (s j)" "is_Leader (state (node (s i)))"
    and "current_term (node (s j)) \<le> current_term (node (s i))" "length (log (node (s i))) < 2 ^ 64"
    and "exchanges k j (node (s i), node (s j)) = Inr (n', f')"
  shows "\<exists>p q. (cstep N c gen)\<^sup>*\<^sup>* s (s(i := p, j := q)) \<and> node p = n' \<and> node q = f' \<and> \<not> poisoned p \<and> \<not> poisoned q
    \<and> same_but j (node (s i)) n' \<and> current_term f' \<le> current_term n'"
  using assms(7-)
proof (induction k arbitrary: s)
  case 0
  then show ?case by (intro exI [of _ "s i"] exI [of _ "s j"]) (simp add: same_but_def)
next
  case (Suc k)
  let ?n = "node (s i)" and ?f = "node (s j)"
  obtain a where a: "cluster_rel N c s a" using cluster_refines [OF assms(1,2) Suc.prems(1)] by blast
  note ok = related_pair_ok [OF a assms(4-6) Suc.prems(4-6)]
  have inv: "hm_inv (match_indices (state ?n))"
    using node_relD(10) [OF related_node [OF a assms(4)]] Suc.prems(4) by (auto elim!: is_LeaderE)
  obtain n1 f1 where e: "exchange j (?n, ?f) = Inr (n1, f1)" "exchanges k j (n1, f1) = Inr (n', f')"
    using Suc.prems(7) by (auto simp: res_simps)
  note same = exchange_same_but [OF ok inv e(1)]
  obtain p q where pq: "(cstep N c gen)\<^sup>*\<^sup>* s (s(i := p, j := q))" "node p = n1" "node q = f1" "\<not> poisoned p" "\<not> poisoned q"
    using exchange_runs [OF assms(1-3) Suc.prems(1) assms(4-6) Suc.prems(2,3) ok e(1)] by blast
  let ?s = "s(i := p, j := q)"
  have "\<exists>p' q'. (cstep N c gen)\<^sup>*\<^sup>* ?s (?s(i := p', j := q')) \<and> node p' = n' \<and> node q' = f' \<and> \<not> poisoned p' \<and> \<not> poisoned q'
    \<and> same_but j (node (?s i)) n' \<and> current_term f' \<le> current_term n'"
    by (rule Suc.IH [OF c_reachable_star [OF pq(1) Suc.prems(1)]])
      (use pq assms(6) same e(2) Suc.prems(6) in \<open>simp_all add: same_but_def\<close>)
  then obtain p' q' where pq': "(cstep N c gen)\<^sup>*\<^sup>* ?s (?s(i := p', j := q'))" "node p' = n'" "node q' = f'"
    "\<not> poisoned p'" "\<not> poisoned q'" "same_but j n1 n'" "current_term f' \<le> current_term n'"
    using pq(2) assms(6) by auto
  have "?s(i := p', j := q') = s(i := p', j := q')" using assms(6) by auto
  then have "(cstep N c gen)\<^sup>*\<^sup>* s (s(i := p', j := q'))" using rtranclp_trans [OF pq(1) pq'(1)] by simp
  then show ?case using pq' same_but_trans [OF same(1) pq'(6)] by blast
qed

text \<open>The leader commits its whole log with the acknowledgement that completes a majority.\<close>

lemma caught_up_commits:
  assumes "state n = Leader ni mi" "leader_view_ok n mi" "log n \<noteq> []" "unat (le_index (last (log n))) = length (log n) - 1"
    and "le_term (last (log n)) = current_term n" "j \<in> set (peers n)"
  defines "k \<equiv> le_index (last (log n))"
  assumes "length (peers n) + 1 < 2 * card (reached n (hm_insert j k mi) k)"
  shows "k \<le> committed_index (caught_up j n)"
proof -
  let ?n = "accepted_by n j k" and ?mi = "hm_insert j k mi"
  obtain ni' where m: "state ?n = Leader ni' ?mi" "log ?n = log n" "peers ?n = peers n" "self_id ?n = self_id n"
    "current_term ?n = current_term n"
    using assms(1) by (simp add: accepted_by_def Let_def)
  have inv: "hm_inv mi" "dom (hm_get mi) = set (peers n)" using assms(2) by (simp_all add: leader_view_ok_def)
  then have ins: "hm_get ?mi = (hm_get mi)(j \<mapsto> k)" by (simp add: fun_eq_iff hm.lookup_insert)
  have "dom (hm_get ?mi) = set (peers n)" unfolding ins using inv(2) assms(6) by auto
  moreover have "unat w < length (log n)" if "hm_get ?mi p = Some w" for p w
    using that assms(2-4) unfolding ins by (auto simp: leader_view_ok_def k_def split: if_splits)
  ultimately have view: "leader_view_ok ?n ?mi"
    using assms(2) inv(1) m by (simp add: leader_view_ok_def hm.inv_insert)
  have ne: "log ?n \<noteq> []" "unat (le_index (last (log ?n))) = length (log ?n) - 1" using assms(3,4) m(2) by simp_all
  note b = commit_candidate_bounds [OF m(1) view ne]
  have "reached ?n ?mi k = reached n ?mi k" by (simp add: reached_def m(3,4))
  then have "k \<le> commit_candidate ?n" using b(5) [of k] assms(8) m(2,3) by (simp add: k_def)
  then have cand: "commit_candidate ?n = k" using b(3) m(2) by (simp add: k_def)
  have "log n ! unat k = last (log n)" using assms(3,4) by (simp add: k_def last_conv_nth)
  then have "may_commit ?n \<longleftrightarrow> committed_index ?n < k"
    using b(1,2) cand m assms(5) by (simp add: may_commit_def)
  then show ?thesis using cand by (auto simp: caught_up_def Let_def committed_upto_def not_less simp flip: k_def)
qed


text \<open>One follower catches up, and the leader takes note.\<close>

lemma follower_catches_up:
  fixes s :: "node_id \<Rightarrow> ('v, 'g) Process" and gen :: "'g \<Rightarrow> u64 \<times> 'g"
  assumes "serde_codec c" "cluster_config N peers_of" "gen_range_30_150 gen" "i \<in> N" "j \<in> N" "i \<noteq> j"
    and "c_reachable N peers_of c gen s" "\<not> poisoned (s i)" "\<not> poisoned (s j)" "is_Leader (state (node (s i)))"
    and "current_term (node (s j)) \<le> current_term (node (s i))" "length (log (node (s i))) < 2 ^ 64"
    and "\<not> livelocked j (node (s i)) (node (s j))" "le_term (last (log (node (s i)))) = current_term (node (s i))"
  defines "l \<equiv> log (node (s i))" and "mi \<equiv> match_indices (state (node (s i)))" and "k \<equiv> le_index (last (log (node (s i))))"
  shows "\<exists>p q. (cstep N c gen)\<^sup>*\<^sup>* s (s(i := p, j := q)) \<and> \<not> poisoned p \<and> \<not> poisoned q
    \<and> same_but j (node (s i)) (node p) \<and> take (length l) (log (node q)) = l
    \<and> current_term (node q) = current_term (node (s i)) \<and> committed_index (node (s i)) \<le> committed_index (node q)
    \<and> hm_get (match_indices (state (node p))) j = Some k
    \<and> (card N < 2 * card (insert i (insert j {d \<in> N - {i}. hm_get mi d = Some k})) \<longrightarrow> k \<le> committed_index (node p))"
proof -
  let ?n = "node (s i)" and ?f = "node (s j)"
  obtain a where a: "cluster_rel N c s a" using cluster_refines [OF assms(1,2,7)] by blast
  have fin: "finite N" using assms(2) by (simp add: cluster_config_def)
  have "card {i, j} \<le> card N" using fin assms(4,5) by (intro card_mono) auto
  then have two: "1 < card N" using assms(6) by simp
  note ok = related_pair_ok [OF a assms(4-6,10-12)]
  obtain m n1 f1 where e: "exchanges m j (?n, ?f) = Inr (n1, f1)" "pair_ok j n1 f1" "prev_matches j n1 f1"
    using repair_reaches_match [OF ok not_livelocked [OF ok assms(13)]] by blast
  obtain p q where pq: "(cstep N c gen)\<^sup>*\<^sup>* s (s(i := p, j := q))" "node p = n1" "node q = f1" "\<not> poisoned p" "\<not> poisoned q"
    "same_but j ?n n1" "current_term f1 \<le> current_term n1"
    using exchanges_run [OF assms(1-12) e(1)] by blast
  let ?s = "s(i := p, j := q)"
  have si: "?s i = p" "?s j = q" using assms(6) by simp_all
  have r1: "c_reachable N peers_of c gen ?s" by (rule c_reachable_star [OF pq(1) assms(7)])
  then obtain b where b: "cluster_rel N c ?s b" using cluster_refines [OF assms(1,2)] by blast
  obtain f' where f': "exchange j (n1, f1) = Inr (caught_up j n1, f')" "take (length (log n1)) (log f') = log n1"
    "current_term f' = current_term n1"
    "committed_index f' = follower_commit (committed_index f1) (committed_index n1) (le_index (last (log n1)))"
    using exchange_success [OF e(2,3)] by blast
  have "unat (committed_index n1) < length (log n1)"
    using commit_ok_length [OF related_log(5) [OF b assms(4)]] si(1) pq(2) by simp
  then have "unat (committed_index n1) \<le> unat (le_index (last (log n1)))"
    using last_index [OF pair_okD(5,3) [OF e(2)]] by simp
  then have "committed_index n1 \<le> committed_index f'"
    using f'(4) by (auto simp: word_le_nat_alt unat_follower_commit)
  then have ci: "committed_index ?n \<le> committed_index f'" using pq(6) by (auto simp: same_but_def)
  obtain ni1 mi1 where st: "state n1 = Leader ni1 mi1" using pq(6) by (auto simp: same_but_def elim: is_LeaderE)
  note view = related_view [OF b assms(4) _ two, unfolded si pq(2), OF st]
  obtain p' q' where pq': "(cstep N c gen)\<^sup>*\<^sup>* ?s (?s(i := p', j := q'))" "node p' = caught_up j n1" "node q' = f'"
    "\<not> poisoned p'" "\<not> poisoned q'"
    using exchange_runs [OF assms(1-3) r1 assms(4-6), of "caught_up j n1" f'] pq e(2) f'(1) si by auto
  have "?s(i := p', j := q') = s(i := p', j := q')" using assms(6) by auto
  then have "(cstep N c gen)\<^sup>*\<^sup>* s (s(i := p', j := q'))" using rtranclp_trans [OF pq(1) pq'(1)] by simp
  moreover have same: "same_but j ?n (caught_up j n1)"
    using pq(6) st view(2) pair_okD(2) [OF e(2)] commit_kept(1) [of n1 j]
    by (auto simp: same_but_def hm.lookup_insert)
  moreover have l: "log n1 = l" "current_term n1 = current_term ?n" using pq(6) by (simp_all add: same_but_def l_def)
  moreover have "hm_get (match_indices (state (caught_up j n1))) j = Some k"
    using st view(2) l(1) by (simp add: hm.lookup_insert k_def l_def)
  moreover have "k \<le> committed_index (caught_up j n1)"
    if quorum: "card N < 2 * card (insert i (insert j {d \<in> N - {i}. hm_get mi d = Some k}))"
  proof -
    note d = node_relD [OF related_node [OF b assms(4), unfolded si pq(2)]]
    have old: "hm_get mi1 d = hm_get mi d" if "d \<noteq> j" for d using pq(6) st that by (simp add: same_but_def mi_def)
    let ?R = "reached n1 (hm_insert j k mi1) k"
    have "insert i (insert j {d \<in> N - {i}. hm_get mi d = Some k}) \<subseteq> ?R"
      using d(1,3) assms(5,6) view(2) old by (auto simp: reached_def hm.lookup_insert)
    then have "card (insert i (insert j {d \<in> N - {i}. hm_get mi d = Some k})) \<le> card ?R"
      by (rule card_mono [rotated]) (simp add: reached_def)
    then have "card N < 2 * card ?R" using quorum by linarith
    moreover have k: "le_index (last (log n1)) = k" by (simp add: k_def l(1) l_def)
    moreover have "le_term (last (log n1)) = current_term n1" using assms(14) l by (simp add: l_def)
    moreover have "j \<in> set (peers n1)" using d(3) assms(5,6) by auto
    ultimately show ?thesis
      using caught_up_commits [OF st view(1) pair_okD(3) [OF e(2)] last_index [OF pair_okD(5,3) [OF e(2)]], of j] view(3)
      unfolding k by simp
  qed
  ultimately show ?thesis using pq'(2-5) f'(2,3) ci by (intro exI [of _ p'] exI [of _ q']) simp
qed


text \<open>A follower that is level with the leader's node \<open>n\<close>: it has its log and knows of everything it has committed.\<close>

definition level :: "RaftNode \<Rightarrow> ('v, 'g) Process \<Rightarrow> bool" where
  "level n q \<longleftrightarrow> \<not> poisoned q \<and> current_term (node q) = current_term n
     \<and> take (length (log n)) (log (node q)) = log n \<and> committed_index n \<le> committed_index (node q)"

lemma level_earlier: "same_but j n n' \<Longrightarrow> level n' q \<Longrightarrow> level n q"
  by (auto simp: level_def same_but_def)

text \<open>A leader that goes on: it leads the same term with the same log, and has committed no less.\<close>

definition goes_on :: "RaftNode \<Rightarrow> ('v, 'g) Process \<Rightarrow> bool" where
  "goes_on n p \<longleftrightarrow> \<not> poisoned p \<and> is_Leader (state (node p)) \<and> log (node p) = log n
     \<and> current_term (node p) = current_term n \<and> committed_index n \<le> committed_index (node p)"

lemma goes_on_later: "same_but j n n' \<Longrightarrow> goes_on n' p \<Longrightarrow> goes_on n p"
  by (auto simp: goes_on_def same_but_def)

lemma followers_catch_up:
  fixes s :: "node_id \<Rightarrow> ('v, 'g) Process" and gen :: "'g \<Rightarrow> u64 \<times> 'g"
  assumes "serde_codec c" "cluster_config N peers_of" "gen_range_30_150 gen" "i \<in> N"
    and "js \<noteq> []" "distinct js" "set js \<subseteq> N - {i}" "c_reachable N peers_of c gen s"
    and "\<not> poisoned (s i)" "is_Leader (state (node (s i)))" "length (log (node (s i))) < 2 ^ 64"
    and "le_term (last (log (node (s i)))) = current_term (node (s i))"
    and "\<forall>j \<in> set js. \<not> poisoned (s j) \<and> current_term (node (s j)) \<le> current_term (node (s i))
      \<and> \<not> livelocked j (node (s i)) (node (s j))"
  defines "k \<equiv> le_index (last (log (node (s i))))"
  shows "\<exists>s'. (cstep N c gen)\<^sup>*\<^sup>* s s' \<and> (\<forall>x. x \<notin> insert i (set js) \<longrightarrow> s' x = s x)
    \<and> goes_on (node (s i)) (s' i) \<and> (\<forall>j \<in> set js. level (node (s i)) (s' j))
    \<and> (card N < 2 * card (insert i ({d \<in> N - {i}. hm_get (match_indices (state (node (s i)))) d = Some k} \<union> set js))
        \<longrightarrow> k \<le> committed_index (node (s' i)))"
  using assms(5-13) unfolding k_def
proof (induction js arbitrary: s)
  case (Cons j js)
  let ?n = "node (s i)"
  let ?l = "log ?n" and ?k = "le_index (last (log ?n))"
  let ?D = "{d \<in> N - {i}. hm_get (match_indices (state ?n)) d = Some ?k}"
  have j: "j \<in> N" "i \<noteq> j" "\<not> poisoned (s j)" "current_term (node (s j)) \<le> current_term ?n" "\<not> livelocked j ?n (node (s j))"
    using Cons.prems(3,9) by auto
  obtain p q where pq: "(cstep N c gen)\<^sup>*\<^sup>* s (s(i := p, j := q))" "\<not> poisoned p" "same_but j ?n (node p)" "level ?n q"
    "hm_get (match_indices (state (node p))) j = Some ?k"
    "card N < 2 * card (insert i (insert j ?D)) \<Longrightarrow> ?k \<le> committed_index (node p)"
    using follower_catches_up [OF assms(1-4) j(1,2) Cons.prems(4,5) j(3) Cons.prems(6) j(4) Cons.prems(7) j(5) Cons.prems(8)]
    unfolding level_def by blast
  define s1 where "s1 = s(i := p, j := q)"
  have s1: "s1 i = p" "s1 j = q" "\<And>x. x \<notin> {i, j} \<Longrightarrow> s1 x = s x" using j(2) by (simp_all add: s1_def)
  note run = pq(1) [folded s1_def]
  have p: "s1 i = p" "log (node p) = ?l" "current_term (node p) = current_term ?n" "is_Leader (state (node p))"
    "committed_index ?n \<le> committed_index (node p)"
    using pq(3) s1(1) by (simp_all add: same_but_def)
  have D: "{d \<in> N - {i}. hm_get (match_indices (state (node p))) d = Some ?k} = insert j ?D"
    using pq(3,5) j(1,2) by (auto simp: same_but_def)
  show ?case
  proof (cases "js = []")
    case True
    have un: "?D \<union> set [j] = insert j ?D" by auto
    show ?thesis
      unfolding True un using pq(2,4,6) run p s1 by (intro exI [of _ s1]) (auto simp: goes_on_def)
  next
    case False
    have others: "\<not> poisoned (s1 x) \<and> current_term (node (s1 x)) \<le> current_term (node (s1 i))
        \<and> \<not> livelocked x (node (s1 i)) (node (s1 x))" if "x \<in> set js" for x
    proof -
      have x: "s1 x = s x" "x \<noteq> j" using that Cons.prems(2,3) s1(3) by auto
      have "next_of x (node p) = next_of x ?n" using pq(3) x(2) by (simp add: same_but_def next_index_of_def)
      then show ?thesis using Cons.prems(9) that p x by (simp add: livelocked_def)
    qed
    have "\<exists>s'. (cstep N c gen)\<^sup>*\<^sup>* s1 s' \<and> (\<forall>x. x \<notin> insert i (set js) \<longrightarrow> s' x = s1 x)
      \<and> goes_on (node p) (s' i) \<and> (\<forall>x \<in> set js. level (node p) (s' x))
      \<and> (card N < 2 * card (insert i (insert j ?D \<union> set js)) \<longrightarrow> ?k \<le> committed_index (node (s' i)))"
      using Cons.IH [OF False, of s1] Cons.prems(2,3,5,7,8) c_reachable_star [OF run Cons.prems(4)] others
      unfolding p(1-3) D using pq(2) p(4) by simp
    then obtain s' where s': "(cstep N c gen)\<^sup>*\<^sup>* s1 s'" "\<And>x. x \<notin> insert i (set js) \<Longrightarrow> s' x = s1 x"
      "goes_on (node p) (s' i)" "\<And>x. x \<in> set js \<Longrightarrow> level (node p) (s' x)"
      "card N < 2 * card (insert i (insert j ?D \<union> set js)) \<Longrightarrow> ?k \<le> committed_index (node (s' i))"
      by blast
    have un: "?D \<union> set (j # js) = insert j ?D \<union> set js" by auto
    have "level ?n (s' x)" if "x \<in> set (j # js)" for x
      using that level_earlier [OF pq(3) s'(4)] pq(4) s'(2) [of j] s1(2) Cons.prems(2) j(2) by auto
    moreover have "s' x = s x" if "x \<notin> insert i (set (j # js))" for x using that s'(2) s1(3) by simp
    ultimately show ?thesis
      unfolding un using goes_on_later [OF pq(3) s'(3)] s'(5) rtranclp_trans [OF run s'(1)] by blast
  qed
qed simp


subsection \<open>From the request to the commit\<close>

lemma deliver_request:
  assumes "is_Leader (state (node p))" "\<not> poisoned p" "log (node p) \<noteq> []" "unat (le_index (last (log (node p)))) \<noteq> 2 ^ 64 - 1"
    and "m_type m = ''ClientRequest''" "from_slice_client_request c (m_payload m) = Some x"
  shows "node (deliver c gen m p) = proposal (node p) (cr_command x) \<and> \<not> poisoned (deliver c gen m p)"
  using propose_command_leader [OF assms(3,1), of "cr_command x"] assms(2,4-)
  by (auto simp: deliver_def under_lock_def handle_message_def handle_client_request_def Let_def)

lemma proposal_simps [simp]:
  "state (proposal n x) = state n" "current_term (proposal n x) = current_term n" "self_id (proposal n x) = self_id n"
  "peers (proposal n x) = peers n"
  "log (proposal n x) = log n @ [\<lparr>le_term = current_term n, le_index = le_index (last (log n)) + 1, le_command = x\<rparr>]"
  by (simp_all add: proposal_def)

lemma request_delivered:
  fixes s :: "node_id \<Rightarrow> ('v, 'g) Process" and gen :: "'g \<Rightarrow> u64 \<times> 'g"
  assumes "serde_codec c" "cluster_config N peers_of" "c_reachable N peers_of c gen s"
    and "i \<in> N" "is_Leader (state (node (s i)))" "\<not> poisoned (s i)" "length (log (node (s i))) < 2 ^ 64 - 1"
    and "m_type m = ''ClientRequest''" "from_slice_client_request c (m_payload m) = Some x"
  defines "k \<equiv> length (log (node (s i)))" and "s1 \<equiv> s(i := deliver c gen m (s i))"
  shows "0 < k" "unat (of_nat k :: u64) = k" "node (s1 i) = proposal (node (s i)) (cr_command x)" "\<not> poisoned (s1 i)"
    "log (proposal (node (s i)) (cr_command x))
      = log (node (s i)) @ [\<lparr>le_term = current_term (node (s i)), le_index = of_nat k, le_command = cr_command x\<rparr>]"
    "c_reachable N peers_of c gen s1"
proof -
  let ?n = "node (s i)"
  obtain a where a: "cluster_rel N c s a" using cluster_refines [OF assms(1-3)] by blast
  note nl = node_rel_log [OF related_node [OF a assms(4)] related_log(1) [OF a assms(4)]]
  show k: "0 < k" "unat (of_nat k :: u64) = k" using nl(2) assms(7) by (simp_all add: k_def unat_of_nat_u64)
  have idx: "unat (le_index (last (log ?n))) \<noteq> 2 ^ 64 - 1" using nl(3) assms(7) by linarith
  have "unat (le_index (last (log ?n)) + 1) = k" using nl(3) k(1) assms(7) by (simp add: unat_word_ariths k_def)
  then show "log (proposal ?n (cr_command x))
      = log ?n @ [\<lparr>le_term = current_term ?n, le_index = of_nat k, le_command = cr_command x\<rparr>]"
    using k(2) by (simp add: u64_eq_iff)
  show "node (s1 i) = proposal ?n (cr_command x)" "\<not> poisoned (s1 i)"
    using deliver_request [OF assms(5,6) nl(2) idx assms(8,9)] by (simp_all add: s1_def)
  have "cstep N c gen s s1"
    unfolding s1_def by (rule cstep.c_client) (use assms(4,8) in \<open>simp_all add: node_message_types_def\<close>)
  then show "c_reachable N peers_of c gen s1" by (rule c_reachable.c_next [OF assms(3)])
qed

lemma livelocked_proposal:
  assumes "pair_ok j n f"
  shows "livelocked j (proposal n x) f \<longleftrightarrow> livelocked j n f"
proof -
  have "length (log f) - 1 < length (log n)" if "length (log f) \<le> next_of j n"
    using that pair_okD(4,12) [OF assms] by (cases "log f") auto
  then show ?thesis by (auto simp: livelocked_def nth_append)
qed

lemma applied_take:
  assumes "take (Suc k) L = l" "k < length l" "k \<le> m" "m < length L"
  shows "take k (applied_between L 0 m) = applied_between l 0 k"
proof -
  have "take (Suc k) l = take (Suc k) L" using assms(1) by auto
  from applied_prefix [OF this assms(2) _ assms(3)] assms(3,4) length_applied_between [OF assms(2)]
  show ?thesis by (auto simp: prefix_def)
qed

lemma proposal_keeps_ready:
  assumes "cluster_rel N c s a" "i \<in> N" "is_Leader (state (node (s i)))" "length (log (node (s i))) < 2 ^ 64"
    and "S \<subseteq> N - {i}" "\<forall>j \<in> S. \<not> poisoned (s j) \<and> current_term (node (s j)) \<le> current_term (node (s i))
      \<and> \<not> livelocked j (node (s i)) (node (s j))"
    and "node ((s(i := p)) i) = proposal (node (s i)) x"
  shows "\<forall>j \<in> S. \<not> poisoned ((s(i := p)) j) \<and> current_term (node ((s(i := p)) j)) \<le> current_term (node ((s(i := p)) i))
      \<and> \<not> livelocked j (node ((s(i := p)) i)) (node ((s(i := p)) j))"
proof
  fix j assume "j \<in> S"
  then have j: "j \<in> S" "j \<in> N" "i \<noteq> j" "(s(i := p)) j = s j" using assms(5) by auto
  have "pair_ok j (node (s i)) (node (s j))"
    using related_pair_ok [OF assms(1,2) j(2,3) assms(3)] assms(4,6) j(1) by simp
  then show "\<not> poisoned ((s(i := p)) j) \<and> current_term (node ((s(i := p)) j)) \<le> current_term (node ((s(i := p)) i))
      \<and> \<not> livelocked j (node ((s(i := p)) i)) (node ((s(i := p)) j))"
    unfolding assms(7) j(4) using assms(6) j livelocked_proposal by simp
qed

text \<open>
  The state of the cluster when the command has got everywhere: the leader \<open>i\<close> has committed and applied
  it as its last entry, and each member of \<open>S\<close> has the leader's log, has committed as far and has applied
  the same commands in the same order.
\<close>

definition worked_off :: "(node_id \<Rightarrow> ('v, 'g) Process) \<Rightarrow> node_id \<Rightarrow> node_id set \<Rightarrow> LogEntry list \<Rightarrow> bool" where
  "worked_off s i S l \<longleftrightarrow> (let k = length l - 1 in
     is_Leader (state (node (s i))) \<and> log (node (s i)) = l \<and> unat (committed_index (node (s i))) = k
     \<and> applied (s i) = applied_between l 0 k
     \<and> (\<forall>j \<in> S. take (Suc k) (log (node (s j))) = l \<and> k \<le> unat (committed_index (node (s j)))
          \<and> take k (applied (s j)) = applied (s i)))"

lemma related_worked_off:
  assumes "cluster_rel N c s a" "i \<in> N" "S \<subseteq> N" "l \<noteq> []" "goes_on n (s i)" "log n = l"
    and "length l - 1 \<le> unat (committed_index n)" "\<forall>j \<in> S. level n (s j)"
  shows "worked_off s i S l"
proof -
  let ?k = "length l - 1"
  have k: "?k < length l" "Suc ?k = length l" using assms(4) by simp_all
  have i: "log (node (s i)) = l" "?k \<le> unat (committed_index (node (s i)))"
    using assms(5-7) by (auto simp: goes_on_def word_le_nat_alt)
  note r = related_log [OF assms(1,2)]
  have ci: "unat (committed_index (node (s i))) = ?k" using commit_ok_length [OF r(5)] i by simp
  have "take (Suc ?k) (log (node (s j))) = l \<and> ?k \<le> unat (committed_index (node (s j)))
      \<and> take ?k (applied (s j)) = applied (s i)" if "j \<in> S" for j
  proof -
    have j: "j \<in> N" "take (Suc ?k) (log (node (s j))) = l" "?k \<le> unat (committed_index (node (s j)))"
      using that assms(3,6-8) k(2) by (auto simp: level_def word_le_nat_alt)
    note rj = related_log [OF assms(1) j(1)]
    show ?thesis
      using applied_take [OF j(2) k(1) j(3) commit_ok_length [OF rj(5)]] j(2,3) rj(7) r(7) i(1) ci by simp
  qed
  then show ?thesis using assms(5) i(1) ci r(7) by (simp add: worked_off_def goes_on_def)
qed

text \<open>Once the leader has committed its log, a second round of exchanges tells the followers.\<close>

lemma followers_learn:
  fixes s :: "node_id \<Rightarrow> ('v, 'g) Process" and gen :: "'g \<Rightarrow> u64 \<times> 'g"
  assumes "serde_codec c" "cluster_config N peers_of" "gen_range_30_150 gen" "i \<in> N"
    and "js \<noteq> []" "distinct js" "set js \<subseteq> N - {i}" "c_reachable N peers_of c gen s"
    and "goes_on n (s i)" "\<forall>j \<in> set js. level n (s j)" "length (log n) < 2 ^ 64" "log n \<noteq> []"
    and "le_term (last (log n)) = current_term n" "length (log n) - 1 \<le> unat (committed_index (node (s i)))"
  shows "\<exists>s'. (cstep N c gen)\<^sup>*\<^sup>* s s' \<and> worked_off s' i (set js) (log n)"
proof -
  let ?n = "node (s i)"
  have n: "\<not> poisoned (s i)" "is_Leader (state ?n)" "log ?n = log n" "current_term ?n = current_term n"
    using assms(9) by (simp_all add: goes_on_def)
  obtain a where a: "cluster_rel N c s a" using cluster_refines [OF assms(1,2,8)] by blast
  have "\<not> poisoned (s j) \<and> current_term (node (s j)) \<le> current_term ?n \<and> \<not> livelocked j ?n (node (s j))"
    if "j \<in> set js" for j
  proof -
    have j: "j \<in> N" "i \<noteq> j" "level n (s j)" using that assms(7,10) by auto
    have "pair_ok j ?n (node (s j))"
      using related_pair_ok [OF a assms(4) j(1,2) n(2)] j(3) n(3,4) assms(11) by (simp add: level_def)
    then show ?thesis using livelocked_incomplete [of j ?n "node (s j)"] j(3) n(3,4) by (auto simp: level_def)
  qed
  then obtain s' where s': "(cstep N c gen)\<^sup>*\<^sup>* s s'" "goes_on ?n (s' i)" "\<forall>j \<in> set js. level ?n (s' j)"
    using followers_catch_up [OF assms(1-8) n(1,2)] n(3,4) assms(11,13) by auto
  obtain b where b: "cluster_rel N c s' b" using cluster_refines [OF assms(1,2) c_reachable_star [OF s'(1) assms(8)]] by blast
  have "worked_off s' i (set js) (log n)"
    using related_worked_off [OF b assms(4) _ assms(12) s'(2) n(3) assms(14) s'(3)] assms(7) by auto
  then show ?thesis using s'(1) by blast
qed

text \<open>C10: Proposals can be committed. In a reachable state, let a client send a command to a process that leads and has
  not stopped and whose log has fewer than 2^64 - 1 entries. If the leader and a non-empty set \<open>S\<close> of others that have not
  stopped, are in no newer term and are not livelocked with it (their log ends at or before its next index for them
  and their last entry conflicts with its entry at that position) are a majority, then some ticks and deliveries
  bring the new entry into the logs of all of them, and all of them commit and apply it: the leader as its last
  entry, and each process of \<open>S\<close> after exactly the commands that the leader has applied before. The leader keeps leading.\<close>

theorem proposal_can_commit:
  fixes s :: "node_id \<Rightarrow> ('v, 'g) Process" and gen :: "'g \<Rightarrow> u64 \<times> 'g"
  assumes "serde_codec c" "cluster_config N peers_of" "gen_range_30_150 gen" "c_reachable N peers_of c gen s"
    and "i \<in> N" "is_Leader (state (node (s i)))" "\<not> poisoned (s i)" "length (log (node (s i))) < 2 ^ 64 - 1"
    and "m_type m = ''ClientRequest''" "from_slice_client_request c (m_payload m) = Some x"
    and "S \<subseteq> N - {i}" "S \<noteq> {}" "card N < 2 * card (insert i S)"
    and "\<forall>j \<in> S. \<not> poisoned (s j) \<and> current_term (node (s j)) \<le> current_term (node (s i))
      \<and> \<not> livelocked j (node (s i)) (node (s j))"
  defines "k \<equiv> length (log (node (s i)))"
  defines "l \<equiv> log (node (s i)) @ [\<lparr>le_term = current_term (node (s i)), le_index = of_nat k, le_command = cr_command x\<rparr>]"
  shows "\<exists>s'. (cstep N c gen)\<^sup>*\<^sup>* (s(i := deliver c gen m (s i))) s' \<and> is_Leader (state (node (s' i)))
    \<and> log (node (s' i)) = l \<and> unat (committed_index (node (s' i))) = k \<and> last (applied (s' i)) = (of_nat k, cr_command x)
    \<and> (\<forall>j \<in> S. take (Suc k) (log (node (s' j))) = l \<and> k \<le> unat (committed_index (node (s' j)))
         \<and> take k (applied (s' j)) = applied (s' i))"
proof -
  let ?n = "node (s i)"
  let ?m = "proposal ?n (cr_command x)"
  define s1 where "s1 = s(i := deliver c gen m (s i))"
  note del = request_delivered [OF assms(1,2,4-10), folded k_def s1_def]
  note k = del(1,2) and s1 = del(3,4) and r1 = del(6)
  have new: "log ?m = l" "length l = Suc k" "l \<noteq> []" "le_term (last l) = current_term ?m"
    "unat (le_index (last l)) = k"
    using del(5) k(2) by (simp_all add: l_def k_def)
  have fit: "length l < 2 ^ 64" using assms(8) new(2) by (simp add: k_def)
  obtain a where a: "cluster_rel N c s a" using cluster_refines [OF assms(1,2,4)] by blast
  have fin: "finite N" "finite S" using assms(2,11) by (auto simp: cluster_config_def intro: finite_subset)
  then obtain js where js: "set js = S" "distinct js" using finite_distinct_list by blast
  have jsN: "js \<noteq> []" "set js \<subseteq> N - {i}" using js(1) assms(11,12) by auto
  have others: "\<forall>j \<in> set js. \<not> poisoned (s1 j) \<and> current_term (node (s1 j)) \<le> current_term (node (s1 i))
      \<and> \<not> livelocked j (node (s1 i)) (node (s1 j))"
    using proposal_keeps_ready [OF a assms(5,6) _ assms(11,14) s1(1) [unfolded s1_def]] assms(8)
    unfolding js(1) s1_def by simp
  let ?D = "{d \<in> N - {i}. hm_get (match_indices (state ?m)) d = Some (le_index (last l))} \<union> S"
  obtain s2 where s2: "(cstep N c gen)\<^sup>*\<^sup>* s1 s2" "goes_on ?m (s2 i)" "\<forall>j \<in> S. level ?m (s2 j)"
    "card N < 2 * card (insert i ?D) \<Longrightarrow> le_index (last l) \<le> committed_index (node (s2 i))"
    using followers_catch_up [OF assms(1-3,5) jsN(1) js(2) jsN(2) r1 s1(2) _ _ _ others] assms(6) fit new(4)
    unfolding s1(1) new(1) js(1) by auto
  have "card (insert i S) \<le> card (insert i ?D)" using fin by (intro card_mono) auto
  then have "length l - 1 \<le> unat (committed_index (node (s2 i)))"
    using s2(4) assms(13) new(2,5) by (simp add: word_le_nat_alt)
  from followers_learn [OF assms(1-3,5) jsN(1) js(2) jsN(2) c_reachable_star [OF s2(1) r1] s2(2), unfolded new(1) js(1),
      OF s2(3) fit new(3,4) this]
  obtain s' where s': "(cstep N c gen)\<^sup>*\<^sup>* s2 s'" "worked_off s' i S l" by blast
  have "last (applied_between l 0 k) = (of_nat k, cr_command x)"
    using k(1) new(2) by (simp add: applied_between_inside Suc_le_eq) (simp add: l_def k_def)
  then show ?thesis
    using s'(2) rtranclp_trans [OF s2(1) s'(1)] new(2) by (auto simp: worked_off_def s1_def)
qed

theorem proposal_can_commit_witness:
  "\<exists>s'. (cstep (set trio) serde_json least_limit)\<^sup>*\<^sup>*
      (state_1(''A'' := deliver serde_json least_limit (client_message ''A'' ''y'') (state_1 ''A''))) s'
    \<and> unat (committed_index (node (s' ''A''))) = 2 \<and> last (applied (s' ''A'')) = (2, ''y'')
    \<and> 2 \<le> unat (committed_index (node (s' ''B''))) \<and> take 2 (applied (s' ''B'')) = applied (s' ''A'')"
proof -
  have run: "case run trio least_limit schedule_1 trio_start of None \<Rightarrow> False | Some s \<Rightarrow> \<not> poisoned (s ''A'') \<and> \<not> poisoned (s ''B'')"
    by code_simp
  have live: "\<not> poisoned (state_1 ''A'')" "\<not> poisoned (state_1 ''B'')" using run by (simp_all add: run_states)
  have request: "m_type (client_message ''A'' ''y'') = ''ClientRequest''"
    "from_slice_client_request serde_json (m_payload (client_message ''A'' ''y'')) = Some \<lparr>cr_command = ''y''\<rparr>"
    by code_simp+
  have S: "{''B''} \<subseteq> set trio - {''A''}" "{''B''} \<noteq> {}" "card (set trio) < 2 * card (insert ''A'' {''B''})"
    by (simp_all add: trio_def)
  have leads: "is_Leader (state (node (state_1 ''A'')))" "length (log (node (state_1 ''A''))) < 2 ^ 64 - 1"
    by (simp_all add: state_1_facts)
  have ready: "\<forall>j \<in> {''B''}. \<not> poisoned (state_1 j) \<and> current_term (node (state_1 j)) \<le> current_term (node (state_1 ''A''))
      \<and> \<not> livelocked j (node (state_1 ''A'')) (node (state_1 j))"
    using live(2) by (simp add: state_1_facts livelocked_def entry_def)
  obtain s' where "(cstep (set trio) serde_json least_limit)\<^sup>*\<^sup>*
      (state_1(''A'' := deliver serde_json least_limit (client_message ''A'' ''y'') (state_1 ''A''))) s'"
    "unat (committed_index (node (s' ''A''))) = length (log (node (state_1 ''A'')))"
    "last (applied (s' ''A'')) = (of_nat (length (log (node (state_1 ''A'')))), ''y'')"
    "length (log (node (state_1 ''A''))) \<le> unat (committed_index (node (s' ''B'')))"
    "take (length (log (node (state_1 ''A'')))) (applied (s' ''B'')) = applied (s' ''A'')"
    using proposal_can_commit [OF json.serde_codec_axioms trio_config least_limit_range reachable_1 trio_members(1)
        leads(1) live(1) leads(2) request S ready] by auto
  then show ?thesis by (intro exI [of _ s']) (simp add: state_1_facts numeral_2_eq_2)
qed

end
