(* ===== verification/Wire.thy ===== *)
theory Wire
  imports Process_Properties
begin

section \<open>The wire\<close>

text \<open>
  How a message leaves a process and how the bytes of a connection become lines. A message
  that is put on the channel gets a thread and a connection of its own, on which
  \<^verbatim>\<open>send_to_relay_raw\<close> writes one line of JSON. The threads run at the same time, so nothing is
  known of the order in which the relay reads their lines. What becomes of each
  connection and the text form of a message are parameters (\<^verbatim>\<open>std::net\<close>,
  \<^verbatim>\<open>serde_json::to_string\<close>). Characters are bytes.
\<close>

subsection \<open>Sending\<close>

definition newline :: char where
  "newline = CHR 0x0A"

text \<open>
  A connection is refused, or it takes some number of bytes before a write fails. The result of
  the write is ignored (\<open>let _ = writeln!\<close>), so a write that fails leaves a fragment and no report.
\<close>

datatype link = Refused string | Takes nat

text \<open>What a thread has written on its connection, and what on standard error.\<close>

record Sent =
  bytes :: string
  errors :: "string list"

definition connect_error :: "string \<Rightarrow> string \<Rightarrow> string" where
  "connect_error relay_addr e = ''Failed to connect to Relay at '' @ relay_addr @ '': '' @ e"

definition send_to_relay_raw ::
    "('v Message \<Rightarrow> string option) \<Rightarrow> string \<Rightarrow> link \<Rightarrow> 'v Message \<Rightarrow> Sent res" where
  "send_to_relay_raw to_string relay_addr link msg =
     (case link of
        Takes room \<Rightarrow> (case to_string msg of
            None \<Rightarrow> Inl Unwrap_Err
          | Some json \<Rightarrow> Inr \<lparr>bytes = take room (json @ [newline]), errors = []\<rparr>)
      | Refused e \<Rightarrow> Inr \<lparr>bytes = [], errors = [connect_error relay_addr e]\<rparr>)"

text \<open>
  The thread that drains the channel starts one thread for each message. The result at a
  position is that of the thread for the message at this position of the channel; it says
  nothing about time.
\<close>

fun sender_loop ::
    "('v Message \<Rightarrow> string option) \<Rightarrow> string \<Rightarrow> link list \<Rightarrow> 'v Message list \<Rightarrow> Sent res list" where
  "sender_loop to_string relay_addr (link # links) (msg # rx) =
     send_to_relay_raw to_string relay_addr link msg # sender_loop to_string relay_addr links rx"
| "sender_loop to_string relay_addr _ _ = []"

subsection \<open>Reading lines\<close>

text \<open>Valid UTF-8, byte by byte: the ranges that the next bytes of a started character must be in.\<close>

definition follow_ranges :: "nat \<Rightarrow> (nat \<times> nat) list option" where
  "follow_ranges b =
     (let t = (0x80, 0xBF)
      in if 0xC2 \<le> b \<and> b \<le> 0xDF then Some [t]
         else if b = 0xE0 then Some [(0xA0, 0xBF), t]
         else if b = 0xED then Some [(0x80, 0x9F), t]
         else if 0xE1 \<le> b \<and> b \<le> 0xEF then Some [t, t]
         else if b = 0xF0 then Some [(0x90, 0xBF), t, t]
         else if 0xF1 \<le> b \<and> b \<le> 0xF3 then Some [t, t, t]
         else if b = 0xF4 then Some [(0x80, 0x8F), t, t]
         else None)"

fun utf8 :: "(nat \<times> nat) list \<Rightarrow> string \<Rightarrow> bool" where
  "utf8 pending [] = (pending = [])"
| "utf8 [] (ch # chs) =
     (let b = of_char ch
      in if b < 0x80 then utf8 [] chs
         else case follow_ranges b of None \<Rightarrow> False | Some pending \<Rightarrow> utf8 pending chs)"
| "utf8 ((lo, hi) # pending) (ch # chs) = (let b = of_char ch in lo \<le> b \<and> b \<le> hi \<and> utf8 pending chs)"

text \<open>
  \<open>BufRead::lines\<close>: the text between newlines, without a carriage return before the newline. A
  line that is not UTF-8 is an error, and the lines after it are read all the same.
\<close>

definition strip_cr :: "string \<Rightarrow> string" where
  "strip_cr line = (if line \<noteq> [] \<and> last line = CHR 0x0D then butlast line else line)"

definition line_result :: "string \<Rightarrow> string option" where
  "line_result line = (if utf8 [] line then Some line else None)"

fun read_lines :: "string \<Rightarrow> string \<Rightarrow> string option list" where
  "read_lines line [] = (if line = [] then [] else [line_result line])"
| "read_lines line (ch # chs) =
     (if ch = newline then line_result (strip_cr line) # read_lines [] chs else read_lines (line @ [ch]) chs)"

definition stream_lines :: "string \<Rightarrow> string option list" where
  "stream_lines = read_lines []"

lemma read_lines_append:
  "newline \<notin> set l \<Longrightarrow> read_lines acc (l @ newline # rest) = line_result (strip_cr (acc @ l)) # read_lines [] rest"
  by (induction l arbitrary: acc) auto

text \<open>A text that is one line: UTF-8, no newline in it and no carriage return at its end.\<close>

definition one_line :: "string \<Rightarrow> bool" where
  "one_line l \<longleftrightarrow> utf8 [] l \<and> newline \<notin> set l \<and> (l \<noteq> [] \<longrightarrow> last l \<noteq> CHR 0x0D)"

lemma lines_cons: "one_line l \<Longrightarrow> stream_lines (l @ newline # rest) = Some l # stream_lines rest"
  by (auto simp: stream_lines_def read_lines_append one_line_def strip_cr_def line_result_def)

lemma deliver_inert: "poisoned q \<Longrightarrow> deliver c gen m q = q"
  by (simp add: deliver_def under_lock_def)

lemma fold_deliver_inert: "poisoned q \<Longrightarrow> fold (deliver c gen) ms q = q"
  by (induction ms) (simp_all add: deliver_inert)

text \<open>Whole lines in a stream are handled one after the other.\<close>

lemma connection_of_lines:
  assumes "\<And>k. k \<in> set ks \<Longrightarrow> one_line (text_of k) \<and> from_str (text_of k) = Inr (msg_of k)"
  shows "handle_connection c gen from_str (stream_lines (concat (map (\<lambda>k. text_of k @ [newline]) ks))) p
    = fold (deliver c gen) (map msg_of ks) p"
  using assms
proof (induction ks arbitrary: p)
  case Nil
  then show ?case by (simp add: stream_lines_def)
next
  case (Cons k ks)
  then have k: "one_line (text_of k)" "from_str (text_of k) = Inr (msg_of k)" by simp_all
  show ?case
    using Cons.IH Cons.prems k fold_deliver_inert [of "deliver c gen (msg_of k) p" c gen "map msg_of ks"]
    by (simp add: lines_cons Let_def)
qed

lemma sender_loop_nth:
  assumes "length links = length ms"
  shows "length (sender_loop to_string relay_addr links ms) = length ms"
    "k < length ms \<Longrightarrow> sender_loop to_string relay_addr links ms ! k
      = send_to_relay_raw to_string relay_addr (links ! k) (ms ! k)"
  using assms by (induction links ms arbitrary: k rule: list_induct2) (auto simp: nth_Cons split: nat.split)

subsection \<open>From the channel to the handlers\<close>

definition intact :: "('v Message \<Rightarrow> string option) \<Rightarrow> link \<Rightarrow> 'v Message \<Rightarrow> bool" where
  "intact to_string link m \<longleftrightarrow> (\<exists>room json. link = Takes room \<and> to_string m = Some json \<and> length json < room)"

text \<open>C35: From the channel to the handlers. Let serde_json write each message as one line that it reads back. Then
  every message has a connection of its own: a refused one carries nothing and is reported, any other carries the
  line or, if a write fails, a beginning of it, and nothing is reported. Whichever of the lines that were written
  completely the relay puts on one connection to a process, in whatever order and however often, the process handles
  exactly their messages in the order of that connection (it does not look at the addressee; routing is the relay's).\<close>

theorem wire_roundtrip:
  assumes "length links = length ms"
    and "\<forall>m \<in> set ms. \<exists>json. to_string m = Some json \<and> one_line json \<and> from_str json = Inr m"
  shows "\<exists>sent. sender_loop to_string relay_addr links ms = map Inr sent \<and> length sent = length ms
    \<and> (\<forall>k < length ms. case links ! k of
          Refused e \<Rightarrow> bytes (sent ! k) = [] \<and> errors (sent ! k) = [connect_error relay_addr e]
        | Takes room \<Rightarrow> bytes (sent ! k) = take room (the (to_string (ms ! k)) @ [newline]) \<and> errors (sent ! k) = [])
    \<and> (\<forall>ks. (\<forall>k \<in> set ks. k < length ms \<and> intact to_string (links ! k) (ms ! k)) \<longrightarrow>
        handle_connection c gen from_str (stream_lines (concat (map (\<lambda>k. bytes (sent ! k)) ks))) p
          = fold (deliver c gen) (map (\<lambda>k. ms ! k) ks) p)"
proof -
  let ?send = "\<lambda>k. send_to_relay_raw to_string relay_addr (links ! k) (ms ! k)"
  have codec: "\<exists>json. to_string (ms ! k) = Some json \<and> one_line json \<and> from_str json = Inr (ms ! k)" if "k < length ms" for k
    using assms(2) that by simp
  define sent where "sent = map (\<lambda>k. projr (?send k)) [0..<length ms]"
  have ok: "?send k = Inr (sent ! k)" "case links ! k of
        Refused e \<Rightarrow> bytes (sent ! k) = [] \<and> errors (sent ! k) = [connect_error relay_addr e]
      | Takes room \<Rightarrow> bytes (sent ! k) = take room (the (to_string (ms ! k)) @ [newline]) \<and> errors (sent ! k) = []"
    if "k < length ms" for k
    using codec [OF that] that by (auto simp: sent_def send_to_relay_raw_def split: link.split)
  have len: "length sent = length ms" by (simp add: sent_def)
  have sent: "sender_loop to_string relay_addr links ms = map Inr sent"
    using sender_loop_nth [OF assms(1)] ok(1) len by (intro nth_equalityI) auto
  have "handle_connection c gen from_str (stream_lines (concat (map (\<lambda>k. bytes (sent ! k)) ks))) p
      = fold (deliver c gen) (map (\<lambda>k. ms ! k) ks) p"
    if ks: "\<forall>k \<in> set ks. k < length ms \<and> intact to_string (links ! k) (ms ! k)" for ks
  proof -
    have "bytes (sent ! k) = the (to_string (ms ! k)) @ [newline]" if "k \<in> set ks" for k
      using ks that ok(2) [of k] by (auto simp: intact_def)
    then have eq: "map (\<lambda>k. bytes (sent ! k)) ks = map (\<lambda>k. the (to_string (ms ! k)) @ [newline]) ks" by simp
    have "one_line (the (to_string (ms ! k))) \<and> from_str (the (to_string (ms ! k))) = Inr (ms ! k)" if "k \<in> set ks" for k
      using codec [of k] ks that by auto
    then show ?thesis
      unfolding eq by (rule connection_of_lines [where text_of = "\<lambda>k. the (to_string (ms ! k))" and msg_of = "\<lambda>k. ms ! k"])
  qed
  then show ?thesis using sent len ok(2) by blast
qed

definition ping :: "json Message" where
  "ping = \<lparr>m_from = ''A'', m_to = ''B'', m_type = ''VoteReply'',
     m_payload = json_vote_reply \<lparr>rr_term = 1, rr_vote_granted = False\<rparr>\<rparr>"

definition pong :: "json Message" where
  "pong = ping\<lparr>m_payload := json_vote_reply \<lparr>rr_term = 2, rr_vote_granted = False\<rparr>\<rparr>"

theorem wire_roundtrip_witness:
  "\<exists>sent. sender_loop (\<lambda>m. Some (if m = ping then ''ping'' else ''pong'')) ''relay'' [Takes 9, Refused ''refused'', Takes 5]
      [ping, ping, pong] = map Inr sent
    \<and> errors (sent ! 1) = [''Failed to connect to Relay at relay: refused'']
    \<and> handle_connection serde_json (\<lambda>g :: unit. (40, g)) (\<lambda>l. Inr (if l = ''ping'' then ping else pong))
        (stream_lines (bytes (sent ! 2) @ bytes (sent ! 0))) (start_process (\<lambda>g. (40, g)) () ''B'' [])
      = deliver serde_json (\<lambda>g. (40, g)) ping
          (deliver serde_json (\<lambda>g. (40, g)) pong (start_process (\<lambda>g. (40, g)) () ''B'' []))"
proof -
  let ?to = "\<lambda>m. Some (if m = ping then ''ping'' else ''pong'')"
  let ?from = "\<lambda>l. Inr (if l = ''ping'' then ping else pong) :: string + json Message"
  let ?links = "[Takes 9, Refused ''refused'', Takes 5]" and ?ms = "[ping, ping, pong]"
  have differ: "ping \<noteq> pong" by (simp add: ping_def pong_def json_vote_reply_def)
  have "one_line ''ping''" "one_line ''pong''" by code_simp+
  then have codec: "\<forall>m \<in> set ?ms. \<exists>json. ?to m = Some json \<and> one_line json \<and> ?from json = Inr m" using differ by simp
  have len: "length ?links = length ?ms" by simp
  have intact: "\<forall>k \<in> set [2, 0]. k < length ?ms \<and> intact ?to (?links ! k) (?ms ! k)" using differ by (simp add: intact_def)
  from wire_roundtrip [of ?links ?ms ?to ?from "''relay''" serde_json "\<lambda>g :: unit. (40, g)"
      "start_process (\<lambda>g. (40, g)) () ''B'' []", OF len codec]
  obtain sent where sent: "sender_loop ?to ''relay'' ?links ?ms = map Inr sent"
    "\<forall>k < length ?ms. case ?links ! k of
        Refused e \<Rightarrow> bytes (sent ! k) = [] \<and> errors (sent ! k) = [connect_error ''relay'' e]
      | Takes room \<Rightarrow> bytes (sent ! k) = take room (the (?to (?ms ! k)) @ [newline]) \<and> errors (sent ! k) = []"
    "\<forall>ks. (\<forall>k \<in> set ks. k < length ?ms \<and> intact ?to (?links ! k) (?ms ! k)) \<longrightarrow>
        handle_connection serde_json (\<lambda>g :: unit. (40, g)) ?from (stream_lines (concat (map (\<lambda>k. bytes (sent ! k)) ks)))
          (start_process (\<lambda>g. (40, g)) () ''B'' [])
        = fold (deliver serde_json (\<lambda>g. (40, g))) (map (\<lambda>k. ?ms ! k) ks) (start_process (\<lambda>g. (40, g)) () ''B'' [])"
    by blast
  have "errors (sent ! 1) = [connect_error ''relay'' ''refused'']" using spec [OF sent(2), of 1] by simp
  moreover note spec [OF sent(3), of "[2, 0]", THEN mp, OF intact]
  ultimately show ?thesis using sent(1) by (intro exI [of _ sent]) (simp add: connect_error_def)
qed

end
