(* ===== verification/Startup.thy ===== *)
theory Startup
  imports Engine
begin

section \<open>Starting a process\<close>

text \<open>
  The beginning of \<^verbatim>\<open>main\<close>: the command line is the program, the id, the port, the address
  of the relay and the ids of the peers. Fewer than four arguments print the usage and end
  the program; a port that is not a \<^verbatim>\<open>u16\<close> panics. What the rest
  of \<^verbatim>\<open>main\<close> starts is in \<open>Listener\<close>.
\<close>

record Config =
  cfg_id :: node_id
  cfg_port :: "16 word"
  cfg_relay_addr :: string
  cfg_peers :: "node_id list"

text \<open>\<open>parse::<u16>()\<close> of the standard library: an optional plus sign, then digits, in range.\<close>

fun parse_digits :: "nat \<Rightarrow> string \<Rightarrow> nat option" where
  "parse_digits acc [] = Some acc"
| "parse_digits acc (c # cs) =
     (let d = of_char c :: nat
      in if 48 \<le> d \<and> d \<le> 57 then
           let v = 10 * acc + (d - 48) in if 65535 < v then None else parse_digits v cs
         else None)"

definition parse_u16 :: "string \<Rightarrow> 16 word option" where
  "parse_u16 s = map_option of_nat
     (case s of [] \<Rightarrow> None
      | c # cs \<Rightarrow> if c = CHR ''+'' then (if cs = [] then None else parse_digits 0 cs) else parse_digits 0 s)"

definition parse_args :: "string list \<Rightarrow> Config option res" where
  "parse_args args =
     (if length args < 4 then Inr None
      else
        let i = args ! 1
        in case parse_u16 (args ! 2) of
             None \<Rightarrow> Inl Invalid_Port
           | Some port \<Rightarrow> Inr (Some \<lparr>cfg_id = i, cfg_port = port, cfg_relay_addr = args ! 3, cfg_peers = drop 4 args\<rparr>))"

definition listen_addr :: "Config \<Rightarrow> string" where
  "listen_addr cfg = ''0.0.0.0:'' @ dec_nat (unat (cfg_port cfg))"

definition main_start :: "('g \<Rightarrow> u64 \<times> 'g) \<Rightarrow> 'g \<Rightarrow> string list \<Rightarrow> ('v, 'g) Process option res" where
  "main_start gen g args = res_bind (parse_args args) (\<lambda>cfg.
     Inr (map_option (\<lambda>cfg. start_process gen g (cfg_id cfg) (cfg_peers cfg)) cfg))"

subsection \<open>Reading back a printed port\<close>

definition all_digits :: "string \<Rightarrow> bool" where
  "all_digits s \<longleftrightarrow> (\<forall>c \<in> set s. 48 \<le> (of_char c :: nat) \<and> (of_char c :: nat) \<le> 57)"

lemma parse_dec_ge: "acc \<le> parse_dec acc s"
  by (induction acc s rule: parse_dec.induct) auto

lemma parse_digits_dec:
  "all_digits s \<Longrightarrow> parse_dec acc s \<le> 65535 \<Longrightarrow> parse_digits acc s = Some (parse_dec acc s)"
proof (induction acc s rule: parse_dec.induct)
  case (2 acc c cs)
  have "10 * acc + (of_char c - 48) \<le> 65535"
    using parse_dec_ge [of "10 * acc + (of_char c - 48)" cs] 2(3) by simp
  then show ?case using 2 by (auto simp: all_digits_def Let_def)
qed simp

lemma all_digits_dec: "all_digits (dec_nat n) \<and> dec_nat n \<noteq> []"
proof (induction n rule: dec_nat.induct)
  case (1 n)
  then show ?case
    by (cases "n < 10") (simp_all add: dec_nat.simps [of n] all_digits_def of_char_digit)
qed

lemma parse_u16_dec:
  assumes "n < 65536"
  shows "parse_u16 (dec_nat n) = Some (of_nat n)"
proof -
  obtain c cs where s: "dec_nat n = c # cs" using all_digits_dec [of n] by (cases "dec_nat n") auto
  have "48 \<le> (of_char c :: nat)" using all_digits_dec [of n] by (simp add: all_digits_def s)
  then have "c \<noteq> CHR ''+''" by auto
  moreover have "parse_digits 0 (dec_nat n) = Some n"
    using parse_digits_dec [of "dec_nat n" 0] all_digits_dec [of n] parse_dec_nat [of n] assms by simp
  ultimately show ?thesis by (simp add: parse_u16_def s)
qed

lemma parse_command_line:
  assumes "port < 65536"
  shows "parse_args (program # i # dec_nat port # relay # ps)
    = Inr (Some \<lparr>cfg_id = i, cfg_port = of_nat port, cfg_relay_addr = relay, cfg_peers = ps\<rparr>)"
  by (simp add: parse_args_def parse_u16_dec [OF assms] eval_nat_numeral)

text \<open>C39: The command line that the orchestrator builds (the port printed in decimal) is read back: a process starts as
  a follower of term 0 with the given id and peers and the sentinel as its log, listening on the given port; with
  fewer than four arguments nothing starts.\<close>

theorem startup_reads_command_line:
  fixes gen :: "'g \<Rightarrow> u64 \<times> 'g"
  assumes "port < 65536"
  shows "\<exists>cfg p. parse_args (program # i # dec_nat port # relay # ps) = Inr (Some cfg)
      \<and> main_start gen g (program # i # dec_nat port # relay # ps) = Inr (Some (p :: ('v, 'g) Process))
      \<and> listen_addr cfg = ''0.0.0.0:'' @ dec_nat port \<and> cfg_relay_addr cfg = relay
      \<and> self_id (node p) = i \<and> peers (node p) = ps \<and> current_term (node p) = 0 \<and> state (node p) = Follower
      \<and> log (node p) = [sentinel] \<and> tx p = []
    \<and> (\<forall>args. length args < 4 \<longrightarrow> main_start gen g args = Inr (None :: ('v, 'g) Process option))"
proof -
  let ?cfg = "\<lparr>cfg_id = i, cfg_port = of_nat port, cfg_relay_addr = relay, cfg_peers = ps\<rparr>"
  have a: "parse_args (program # i # dec_nat port # relay # ps) = Inr (Some ?cfg)"
    by (rule parse_command_line [OF assms])
  moreover have "unat (of_nat port :: 16 word) = port" using assms by (simp add: unat_of_nat)
  moreover obtain e g' where "engine_new gen g = (e, g')" by fastforce
  ultimately show ?thesis
    by (simp add: main_start_def listen_addr_def start_process_def new_def parse_args_def)
qed

theorem startup_reads_command_line_witness:
  "\<exists>cfg. parse_args [''raft-rust'', ''A'', dec_nat 8001, ''127.0.0.1:8000'', ''B''] = Inr (Some cfg)
    \<and> listen_addr cfg = ''0.0.0.0:'' @ dec_nat 8001"
  using startup_reads_command_line [of 8001 "''raft-rust''" "''A''" "''127.0.0.1:8000''" "[''B'']" "\<lambda>g :: unit. (40, g)" "()"]
  by auto

end
