(* ===== verification/Election_Progress.thy ===== *)
theory Election_Progress
  imports Cluster_Views
begin

section \<open>Elections can succeed\<close>

text \<open>
  Safety alone is met by a cluster that does nothing. Here the ticks and deliveries are put
  together that elect a leader when a majority \<open>R\<close> of the cluster runs, whatever has become of
  the others: the member of \<open>R\<close> whose last log position is the largest waits until its election
  timeouts have carried it past every other term in \<open>R\<close>, its requests reach the other members
  of \<open>R\<close>, and their replies come back. No step of this panics below the limits of \<open>u64\<close>.
\<close>

subsection \<open>A silent node times out\<close>

text \<open>What a process looks like that has just started an election from the node \<open>n\<close>.\<close>

definition stands :: "'v codec \<Rightarrow> RaftNode \<Rightarrow> ('v, 'g) Process \<Rightarrow> bool" where
  "stands c n q \<longleftrightarrow> node q = candidacy n \<and> \<not> poisoned q \<and> timers_ok q
     \<and> (\<forall>j \<in> set (peers n). envelope (candidacy n) j ''RequestVote''
           (to_value_request_vote c (vote_request (candidacy n))) \<in> set (tx q))"

lemma candidacy_simps [simp]:
  "self_id (candidacy n) = self_id n" "peers (candidacy n) = peers n" "log (candidacy n) = log n"
  "current_term (candidacy n) = current_term n + 1" "state (candidacy n) = Candidate {self_id n}"
  by (simp_all add: candidacy_def)

lemma tick_fires:
  assumes "\<not> poisoned p" "\<not> is_Leader (state (node p))" "log (node p) \<noteq> []"
    and "unat (current_term (node p)) < 2 ^ 64 - 1" "timers_ok (tick c gen p)"
    and "election_timeout_limit (engine p) \<le> election_tick_count (engine p) + 1"
    and "unat (election_tick_count (engine p) + 1) = Suc (unat (election_tick_count (engine p)))"
  shows "stands c (node p) (tick c gen p)"
  using tick_elects [OF assms(1-4,6,7), of c gen] assms(5) by (simp add: stands_def envelope_def)

lemma silent_times_out:
  assumes gen: "gen_range_30_150 gen"
    and "\<not> poisoned p" "\<not> is_Leader (state (node p))" "log (node p) \<noteq> []" "unat (current_term (node p)) < 2 ^ 64 - 1"
    and "timers_ok p"
  shows "\<exists>k. stands c (node p) (ticks c gen k p)"
  using assms(2-)
proof (induction "unat (election_timeout_limit (engine p)) - unat (election_tick_count (engine p))" arbitrary: p rule: less_induct)
  case less
  have lim: "unat (election_timeout_limit (engine p)) < 150" "unat (election_tick_count (engine p)) < unat (election_timeout_limit (engine p))"
    using less.prems(5) by (auto simp: timers_ok_def word_less_nat_alt)
  then have suc: "unat (election_tick_count (engine p) + 1) = Suc (unat (election_tick_count (engine p)))"
    by (simp add: unat_word_ariths)
  show ?case
  proof (cases "election_tick_count (engine p) + 1 < election_timeout_limit (engine p)")
    case True
    note t = tick_waits [OF less.prems(1,2) True suc, of c gen]
    have "timers_ok (tick c gen p)" by (rule timers_ok_tick [OF gen less.prems(5)])
    moreover have "unat (election_timeout_limit (engine (tick c gen p))) - unat (election_tick_count (engine (tick c gen p)))
        < unat (election_timeout_limit (engine p)) - unat (election_tick_count (engine p))"
      using lim suc by (simp add: t)
    ultimately have "\<exists>k. stands c (node (tick c gen p)) (ticks c gen k (tick c gen p))"
      using less.prems by (intro less.hyps) (simp_all add: t)
    then obtain k where "stands c (node p) (ticks c gen k (tick c gen p))" by (auto simp: t)
    then show ?thesis by (intro exI [of _ "Suc k"]) simp
  next
    case False
    then have "stands c (node p) (tick c gen p)"
      using tick_fires [OF less.prems(1-4) timers_ok_tick [OF gen less.prems(5)] _ suc] by simp
    then show ?thesis by (intro exI [of _ "Suc 0"]) simp
  qed
qed

text \<open>So it can reach any later term as a candidate with its log unchanged.\<close>

lemma reaches_term:
  assumes gen: "gen_range_30_150 gen"
    and "\<not> poisoned p" "\<not> is_Leader (state (node p))" "log (node p) \<noteq> []" "timers_ok p"
    and "unat (current_term (node p)) < unat t"
  shows "\<exists>k n. stands c n (ticks c gen k p) \<and> self_id n = self_id (node p) \<and> peers n = peers (node p)
    \<and> log n = log (node p) \<and> current_term n + 1 = t"
  using assms(2-)
proof (induction "unat t - unat (current_term (node p))" arbitrary: p rule: less_induct)
  case less
  have "unat t < 2 ^ LENGTH(64)" by (rule unsigned_less)
  then have small: "unat (current_term (node p)) < 2 ^ 64 - 1" using less.prems(5) by simp
  then have suc: "unat (current_term (node p) + 1) = Suc (unat (current_term (node p)))" by (simp add: unat_word_ariths)
  obtain k where k: "stands c (node p) (ticks c gen k p)"
    using silent_times_out [OF gen less.prems(1-3) small less.prems(4)] by blast
  show ?case
  proof (cases "current_term (node p) + 1 = t")
    case True
    then show ?thesis using k by blast
  next
    case False
    let ?q = "ticks c gen k p"
    have lt: "unat (current_term (node p) + 1) < unat t"
      using less.prems(5) suc False by (metis Suc_lessI u64_eq_iff)
    have q: "\<not> poisoned ?q" "\<not> is_Leader (state (node ?q))" "log (node ?q) \<noteq> []" "timers_ok ?q"
      using k less.prems(3) by (simp_all add: stands_def)
    have "unat (current_term (node ?q)) < unat t" "unat t - unat (current_term (node ?q)) < unat t - unat (current_term (node p))"
      using k lt suc by (simp_all add: stands_def)
    from less.hyps [OF this(2) q this(1)] obtain l n where
      "stands c n (ticks c gen l ?q)" "self_id n = self_id (node ?q)" "peers n = peers (node ?q)" "log n = log (node ?q)" "current_term n + 1 = t"
      by blast
    then show ?thesis using k by (intro exI [of _ "k + l"] exI [of _ n]) (simp add: ticks_add stands_def)
  qed
qed


subsection \<open>The request and the reply\<close>

definition granted_to :: "'v codec \<Rightarrow> node_id \<Rightarrow> u64 \<Rightarrow> 'v Message \<Rightarrow> bool" where
  "granted_to c i t v \<longleftrightarrow> m_to v = i \<and> m_type v = ''VoteReply''
     \<and> from_slice_vote_reply c (m_payload v) = Some \<lparr>rr_term = t, rr_vote_granted = True\<rparr>"

lemma voter_grants:
  assumes ser: "serde_codec c" and "\<not> poisoned p" "log (node p) \<noteq> []" "current_term (node p) < rv_term x"
    and "entry_pos (last (log (node p))) \<le> request_pos x"
  shows "\<exists>v \<in> set (tx (deliver c gen (envelope n j ''RequestVote'' (to_value_request_vote c x)) p)).
    m_from v = self_id (node p) \<and> granted_to c (self_id n) (rv_term x) v"
proof -
  let ?m = "envelope n j ''RequestVote'' (to_value_request_vote c x)"
  have "voted_for (observe (node p) (rv_term x)) = None" using assms(4) by (simp add: observe_def)
  then have g: "grants_vote (node p) x" using assms(4,5) by (auto simp: grants_vote_def)
  let ?r = "\<lparr>rr_term = rv_term x, rr_vote_granted = True\<rparr>"
  let ?n = "(observe (node p) (rv_term x))\<lparr>voted_for := Some (rv_candidate_id x)\<rparr>"
  have mx: "max (current_term (node p)) (rv_term x) = rv_term x" using assms(4) by simp
  obtain fx where h: "handle_request_vote (node p) x = Inr (?n, ?r, fx)" "sends fx = []"
    using handle_request_vote_eq [OF assms(3), of x] g mx by auto
  let ?v = "envelope ?n (self_id n) ''VoteReply'' (to_value_vote_reply c ?r)"
  have "deliver c gen ?m p = execute_effects c gen fx (send (p\<lparr>node := ?n\<rparr>) ?v)"
    using assms(2) h(1) serde_codec.rt_request_vote [OF ser]
    by (simp add: deliver_def under_lock_def handle_message_def envelope_def Let_def)
  then have "?v \<in> set (tx (deliver c gen ?m p))" by (simp add: execute_effects_out)
  moreover have "m_from ?v = self_id (node p)" "granted_to c (self_id n) (rv_term x) ?v"
    using serde_codec.rt_vote_reply [OF ser] by (simp_all add: granted_to_def envelope_def)
  ultimately show ?thesis by blast
qed

lemma candidate_counts:
  fixes gen :: "'g \<Rightarrow> u64 \<times> 'g"
  assumes "\<not> poisoned p" "state (node p) = Candidate V" "log (node p) \<noteq> []"
    and "unat (le_index (last (log (node p)))) \<noteq> 2 ^ 64 - 1" "granted_to c i (current_term (node p)) v"
  defines "q \<equiv> deliver c gen v p"
  shows "current_term (node q) = current_term (node p)"
    "if (length (peers (node p)) + 1) div 2 < card (insert (m_from v) V) then is_Leader (state (node q))
     else node q = with_vote (node p) (m_from v) \<and> \<not> poisoned q"
proof -
  let ?n = "node p" and ?r = "\<lparr>rr_term = current_term (node p), rr_vote_granted = True\<rparr>" and ?w = "with_vote (node p) (m_from v)"
  have "counts_vote ?n ?r" using assms(2) by (simp add: counts_vote_def)
  from handle_request_vote_reply_counted [OF this, of "m_from v"] obtain se where
    h: "handle_request_vote_reply ?n (m_from v) ?r = (if (length (peers ?n) + 1) div 2 < card (insert (m_from v) V)
      then become_leader ?w se else Inr (?w, se))"
    using assms(2) by auto
  have w: "log ?w = log ?n" "current_term ?w = current_term ?n" by (simp_all add: with_vote_def)
  obtain fx where b: "become_leader ?w se = Inr (leadership ?w, fx)"
    using become_leader_eq [of ?w se] assms(3,4) w by auto
  have d: "handle_request_vote_reply ?n (m_from v) ?r = Inr (n', fx) \<Longrightarrow> node q = n' \<and> \<not> poisoned q" for n' fx
    using assms(1,5)
    by (simp add: q_def deliver_def under_lock_def handle_message_def granted_to_def)
  have l: "is_Leader (state (leadership ?w))" "current_term (leadership ?w) = current_term ?w" by (simp_all add: leadership_def)
  show "current_term (node q) = current_term ?n"
    "if (length (peers ?n) + 1) div 2 < card (insert (m_from v) V) then is_Leader (state (node q))
     else node q = ?w \<and> \<not> poisoned q"
    using h b d l w by (auto split: if_splits)
qed

subsection \<open>The round of a cluster\<close>

lemma requests_reach:
  assumes ser: "serde_codec c" and "distinct js" "set js \<subseteq> N - {i}" "i \<in> N" "self_id n = i"
    and "\<forall>j \<in> set js. envelope n j ''RequestVote'' (to_value_request_vote c x) \<in> set (tx (s i))"
    and "\<forall>j \<in> set js. \<not> poisoned (s j) \<and> self_id (node (s j)) = j \<and> log (node (s j)) \<noteq> [] \<and> current_term (node (s j)) < rv_term x
           \<and> entry_pos (last (log (node (s j)))) \<le> request_pos x"
  shows "\<exists>s'. (cstep N c gen)\<^sup>*\<^sup>* s s' \<and> (\<forall>k. k \<notin> set js \<longrightarrow> s' k = s k)
    \<and> (\<forall>j \<in> set js. \<exists>v \<in> set (tx (s' j)). m_from v = j \<and> granted_to c i (rv_term x) v)"
  using assms(2-)
proof (induction js arbitrary: s)
  case (Cons j js)
  let ?m = "envelope n j ''RequestVote'' (to_value_request_vote c x)"
  let ?s = "s(j := deliver c gen ?m (s j))"
  have st: "cstep N c gen s ?s"
    using Cons.prems by (intro cstep.c_deliver [where j = i]) (auto simp: envelope_def)
  have "\<exists>s'. (cstep N c gen)\<^sup>*\<^sup>* ?s s' \<and> (\<forall>k. k \<notin> set js \<longrightarrow> s' k = ?s k)
      \<and> (\<forall>j \<in> set js. \<exists>v \<in> set (tx (s' j)). m_from v = j \<and> granted_to c i (rv_term x) v)"
    using Cons.prems by (intro Cons.IH) auto
  then obtain s' where s': "(cstep N c gen)\<^sup>*\<^sup>* ?s s'" "\<And>k. k \<notin> set js \<Longrightarrow> s' k = ?s k"
    "\<forall>j \<in> set js. \<exists>v \<in> set (tx (s' j)). m_from v = j \<and> granted_to c i (rv_term x) v" by blast
  have "\<exists>v \<in> set (tx (s' j)). m_from v = j \<and> granted_to c i (rv_term x) v"
    using voter_grants [OF ser, of "s j" x gen n j] Cons.prems s'(2) [of j] by simp
  then show ?case
    using s' converse_rtranclp_into_rtranclp [of "cstep N c gen", OF st s'(1)] by (intro exI [of _ s']) simp
qed auto

lemma replies_elect:
  fixes gen :: "'g \<Rightarrow> u64 \<times> 'g" and s :: "node_id \<Rightarrow> ('v, 'g) Process"
  assumes maj: "card N < 2 * card R" and iN: "i \<in> N"
    and "js \<noteq> []" "set js \<subseteq> N" "V \<union> set js = R"
    and "\<not> poisoned (s i)" "state (node (s i)) = Candidate V" "length (peers (node (s i))) + 1 = card N"
    and "log (node (s i)) \<noteq> []" "unat (le_index (last (log (node (s i))))) \<noteq> 2 ^ 64 - 1"
    and "i \<notin> set js" "\<forall>j \<in> set js. \<exists>v \<in> set (tx (s j)). m_from v = j \<and> granted_to c i (current_term (node (s i))) v"
  shows "\<exists>s'. (cstep N c gen)\<^sup>*\<^sup>* s s' \<and> is_Leader (state (node (s' i)))
    \<and> current_term (node (s' i)) = current_term (node (s i))"
  using assms(3-)
proof (induction js arbitrary: s V)
  case (Cons j js)
  obtain v where v: "v \<in> set (tx (s j))" "m_from v = j" "granted_to c i (current_term (node (s i))) v"
    using Cons.prems by auto
  let ?q = "deliver c gen v (s i)" and ?V = "insert j V"
  let ?s = "s(i := ?q)"
  have st: "cstep N c gen s ?s"
    using v Cons.prems(2) iN by (intro cstep.c_deliver [where j = j]) (auto simp: granted_to_def)
  note count = candidate_counts [where gen = gen, OF Cons.prems(4,5,7,8) v(3)]
  show ?case
  proof (cases "(length (peers (node (s i))) + 1) div 2 < card ?V")
    case True
    then have "is_Leader (state (node (?s i)))" "current_term (node (?s i)) = current_term (node (s i))"
      using count v(2) by simp_all
    then show ?thesis using r_into_rtranclp [of "cstep N c gen", OF st] by blast
  next
    case False
    then have q: "node ?q = with_vote (node (s i)) j" "\<not> poisoned ?q" using count(2) v(2) by auto
    have "js \<noteq> []"
    proof
      assume "js = []"
      then have "?V = R" using Cons.prems(3) by auto
      then show False using False Cons.prems(6) maj by auto
    qed
    moreover have "state (node ?q) = Candidate ?V" using q(1) Cons.prems(5) by (simp add: with_vote_def)
    ultimately have "\<exists>s'. (cstep N c gen)\<^sup>*\<^sup>* ?s s' \<and> is_Leader (state (node (s' i)))
        \<and> current_term (node (s' i)) = current_term (node (?s i))"
      using Cons.prems q by (intro Cons.IH [of ?V]) (auto simp: with_vote_def)
    then show ?thesis using converse_rtranclp_into_rtranclp [of "cstep N c gen", OF st] count(1) by auto
  qed
qed simp


text \<open>Some member has the largest last log position.\<close>

lemma most_up_to_date:
  fixes f :: "'a \<Rightarrow> 'b :: linorder"
  assumes "finite N" "N \<noteq> {}"
  shows "\<exists>i \<in> N. \<forall>j \<in> N. f j \<le> f i"
proof -
  have "Max (f ` N) \<in> f ` N" using assms by (intro Max_in) auto
  then obtain i where "i \<in> N" "f i = Max (f ` N)" by fastforce
  then show ?thesis using assms(1) by (intro bexI [of _ i]) auto
qed

text \<open>
  A candidate whose log is the most up to date and whose term is the newest in a majority wins
  when its messages to this majority get through.
\<close>

lemma round_elects:
  fixes s :: "node_id \<Rightarrow> ('v, 'g) Process" and gen :: "'g \<Rightarrow> u64 \<times> 'g"
  assumes "serde_codec c" and fin: "finite N" "1 < card N" and R: "R \<subseteq> N" "card N < 2 * card R" and iR: "i \<in> R"
    and n: "stands c n (s i)" "self_id n = i" "set (peers n) = N - {i}" "distinct (peers n)" "log n \<noteq> []"
      "unat (le_index (last (log n))) \<noteq> 2 ^ 64 - 1"
    and others: "\<And>j. j \<in> R - {i} \<Longrightarrow> \<not> poisoned (s j) \<and> self_id (node (s j)) = j \<and> log (node (s j)) \<noteq> []
      \<and> current_term (node (s j)) < current_term n + 1 \<and> entry_pos (last (log (node (s j)))) \<le> entry_pos (last (log n))"
  shows "\<exists>s'. (cstep N c gen)\<^sup>*\<^sup>* s s' \<and> is_Leader (state (node (s' i))) \<and> current_term (node (s' i)) = current_term n + 1"
proof -
  let ?x = "vote_request (candidacy n)"
  define js where "js = filter (\<lambda>j. j \<in> R) (peers n)"
  have js: "distinct js" "set js = R - {i}" using n(3,4) R(1) by (auto simp: js_def)
  have iN: "i \<in> N" using iR R(1) by auto
  have x: "rv_term ?x = current_term n + 1" "request_pos ?x = entry_pos (last (log n))"
    by (simp_all add: vote_request_def request_pos_def entry_pos_def)
  have "\<exists>s2. (cstep N c gen)\<^sup>*\<^sup>* s s2 \<and> (\<forall>k. k \<notin> set js \<longrightarrow> s2 k = s k)
      \<and> (\<forall>j \<in> set js. \<exists>v \<in> set (tx (s2 j)). m_from v = j \<and> granted_to c i (rv_term ?x) v)"
    using n iN R(1) js others x
    by (intro requests_reach [OF assms(1), where n = "candidacy n"]) (auto simp: stands_def)
  then obtain s2 where s2: "(cstep N c gen)\<^sup>*\<^sup>* s s2" "s2 i = s i"
    "\<forall>j \<in> set js. \<exists>v \<in> set (tx (s2 j)). m_from v = j \<and> granted_to c i (current_term n + 1) v"
    using js(2) x(1) by auto
  have card: "length (peers n) + 1 = card N"
    using distinct_card [OF n(4)] n(3) iN fin(1) card_Suc_Diff1 [of N i] by simp
  have "js \<noteq> []"
  proof
    assume "js = []"
    then have "R = {i}" using js(2) iR by auto
    then show False using R(2) fin(2) by simp
  qed
  then have "\<exists>s'. (cstep N c gen)\<^sup>*\<^sup>* s2 s' \<and> is_Leader (state (node (s' i)))
      \<and> current_term (node (s' i)) = current_term (node (s2 i))"
    using s2 n iN iR R(1) js card by (intro replies_elect [OF R(2) iN, of js "{i}"]) (auto simp: stands_def)
  then show ?thesis using s2(1,2) n(1) rtranclp_trans [of "cstep N c gen" s s2] by (auto simp: stands_def)
qed

lemma related_member:
  assumes "cluster_rel N c s a" "R \<subseteq> N" "j \<in> R"
  shows "self_id (node (s j)) = j" "set (peers (node (s j))) = N - {j}" "distinct (peers (node (s j)))"
    "log (node (s j)) \<noteq> []" "unat (le_index (last (log (node (s j))))) = length (log (node (s j))) - 1" "j \<in> N"
proof -
  show j: "j \<in> N" using assms(2,3) by auto
  show "self_id (node (s j)) = j" "set (peers (node (s j))) = N - {j}" "distinct (peers (node (s j)))"
    "log (node (s j)) \<noteq> []" "unat (le_index (last (log (node (s j))))) = length (log (node (s j))) - 1"
    using node_relD [OF related_node [OF assms(1) j]] node_rel_log [OF related_node [OF assms(1) j] related_log(1) [OF assms(1) j]]
    by simp_all
qed

text \<open>C8: Elections can succeed. Take a reachable state of a cluster of at least two processes and a majority \<open>R\<close> of the
  cluster in which none has stopped, none leads, no term is the largest u64 and no log is full; nothing is asked of
  the other processes, which may have stopped or lead. Then some sequence of ticks and deliveries makes a process of
  \<open>R\<close> the leader of a term that is newer than every term in \<open>R\<close> before.\<close>

theorem election_can_succeed:
  fixes s :: "node_id \<Rightarrow> ('v, 'g) Process" and gen :: "'g \<Rightarrow> u64 \<times> 'g"
  assumes "serde_codec c" "cluster_config N peers_of" "gen_range_30_150 gen" "c_reachable N peers_of c gen s" "1 < card N"
    and "R \<subseteq> N" "card N < 2 * card R"
    and "\<forall>i \<in> R. \<not> poisoned (s i) \<and> \<not> is_Leader (state (node (s i))) \<and> unat (current_term (node (s i))) < 2 ^ 64 - 1
      \<and> length (log (node (s i))) < 2 ^ 64"
  shows "\<exists>s' i. (cstep N c gen)\<^sup>*\<^sup>* s s' \<and> i \<in> R \<and> is_Leader (state (node (s' i)))
    \<and> (\<forall>j \<in> R. current_term (node (s j)) < current_term (node (s' i)))"
proof -
  obtain a where a: "cluster_rel N c s a" using cluster_refines [OF assms(1,2,4)] by blast
  have finN: "finite N" using assms(2) by (simp add: cluster_config_def)
  have fin: "finite R" "R \<noteq> {}" using finite_subset [OF assms(6) finN] assms(7) by auto
  note nodes = related_member [OF a assms(6)]
  obtain i where i: "i \<in> R" "\<And>j. j \<in> R \<Longrightarrow> entry_pos (last (log (node (s j)))) \<le> entry_pos (last (log (node (s i))))"
    using most_up_to_date [OF fin, of "\<lambda>j. entry_pos (last (log (node (s j))))"] by blast
  obtain l where l: "l \<in> R" "\<And>j. j \<in> R \<Longrightarrow> current_term (node (s j)) \<le> current_term (node (s l))"
    using most_up_to_date [OF fin, of "\<lambda>j. current_term (node (s j))"] by blast
  let ?t = "current_term (node (s l)) + 1"
  have "unat ?t = Suc (unat (current_term (node (s l))))" using assms(8) l(1) by (simp add: unat_word_ariths)
  then have newer: "current_term (node (s j)) < ?t" if "j \<in> R" for j
    using l(2) [OF that] by (simp add: word_less_nat_alt word_le_nat_alt)
  have "\<exists>k n. stands c n (ticks c gen k (s i)) \<and> self_id n = self_id (node (s i)) \<and> peers n = peers (node (s i))
      \<and> log n = log (node (s i)) \<and> current_term n + 1 = ?t"
    using assms(8) i(1) nodes(4) reachable_timers_ok [OF assms(3,4) nodes(6) [OF i(1)]] newer [OF i(1)]
    by (intro reaches_term [OF assms(3)]) (auto simp: word_less_nat_alt)
  then obtain k n where k: "stands c n (ticks c gen k (s i))" "self_id n = i" "peers n = peers (node (s i))"
    "log n = log (node (s i))" "current_term n + 1 = ?t"
    unfolding nodes(1) [OF i(1)] by blast
  define s1 where "s1 = s(i := ticks c gen k (s i))"
  have r1: "(cstep N c gen)\<^sup>*\<^sup>* s s1" unfolding s1_def by (rule tick_steps [OF nodes(6) [OF i(1)]])
  have idx: "unat (le_index (last (log (node (s i))))) \<noteq> 2 ^ 64 - 1"
    using nodes(4,5) [OF i(1)] assms(8) i(1) by (cases "log (node (s i))") auto
  have "\<exists>s'. (cstep N c gen)\<^sup>*\<^sup>* s1 s' \<and> is_Leader (state (node (s' i))) \<and> current_term (node (s' i)) = current_term n + 1"
  proof (rule round_elects [OF assms(1) finN assms(5-7) i(1)])
    show "stands c n (s1 i)" using k(1) by (simp add: s1_def)
    show "\<not> poisoned (s1 j) \<and> self_id (node (s1 j)) = j \<and> log (node (s1 j)) \<noteq> []
        \<and> current_term (node (s1 j)) < current_term n + 1 \<and> entry_pos (last (log (node (s1 j)))) \<le> entry_pos (last (log n))"
      if "j \<in> R - {i}" for j
      using that assms(8) nodes(1,4) newer i(2) by (simp add: s1_def k(4,5))
  qed (use k(2-4) nodes [OF i(1)] idx in simp_all)
  then obtain s' where s': "(cstep N c gen)\<^sup>*\<^sup>* s s'" "is_Leader (state (node (s' i)))" "current_term (node (s' i)) = ?t"
    using rtranclp_trans [OF r1] k(5) by auto
  show ?thesis using s' newer i(1) by (intro exI [of _ s'] exI [of _ i]) simp
qed

text \<open>With \<open>C\<close> out of the picture, \<open>A\<close> and \<open>B\<close> can elect one of them.\<close>

theorem election_can_succeed_witness:
  "\<exists>s' i. (cstep (set trio) serde_json least_limit)\<^sup>*\<^sup>* trio_start s' \<and> i \<in> {''A'', ''B''}
    \<and> is_Leader (state (node (s' i))) \<and> 0 < current_term (node (s' i))"
proof -
  have start: "\<forall>i \<in> {''A'', ''B''}. \<not> poisoned (trio_start i) \<and> \<not> is_Leader (state (node (trio_start i)))
      \<and> unat (current_term (node (trio_start i))) < 2 ^ 64 - 1 \<and> length (log (node (trio_start i))) < 2 ^ 64"
    by (simp add: trio_start_def start_process_def new_def engine_new_def least_limit_def)
  have cards: "1 < card (set trio)" "{''A'', ''B''} \<subseteq> set trio" "card (set trio) < 2 * card {''A'', ''B''}"
    by (simp_all add: trio_def)
  from election_can_succeed [OF json.serde_codec_axioms trio_config least_limit_range
      c_reachable.c_start [OF trio_initial] cards start]
  obtain s' i where "(cstep (set trio) serde_json least_limit)\<^sup>*\<^sup>* trio_start s'" "i \<in> {''A'', ''B''}"
    "is_Leader (state (node (s' i)))" "current_term (node (trio_start ''A'')) < current_term (node (s' i))"
    by blast
  then show ?thesis by (intro exI [of _ s'] exI [of _ i]) (auto simp: word_neq_0_conv [symmetric])
qed

end
