(* ===== verification/Listener.thy ===== *)
theory Listener
  imports Wire Startup Election_Progress
begin

section \<open>The listener and the threads of a process\<close>

text \<open>
  The thread that \<^verbatim>\<open>main\<close> starts for the relay's connections, and how the tick loop and the
  connection threads take turns. The thread prepares a socket by a sequence of calls, each
  with an \<^verbatim>\<open>expect\<close>; a call that fails ends this thread and nothing else. Every accepted
  connection gets a thread of its own, a connection that fails to be accepted is skipped. What the calls return
  and what the peers write are parameters. A turn is one tick or one line of one
  connection, since both lock the node and the engine from start to end.
\<close>

datatype socket_call = Parse_Addr | Socket_New | Set_Reuse_Address | Set_Reuse_Port | Bind | Listen

fun expect_text :: "socket_call \<Rightarrow> string" where
  "expect_text Parse_Addr = ''Invalid listen address''"
| "expect_text Socket_New = ''Failed to create socket''"
| "expect_text Set_Reuse_Address = ''Failed to set SO_REUSEADDR''"
| "expect_text Set_Reuse_Port = ''Failed to set SO_REUSEPORT''"
| "expect_text Bind = ''Failed to bind port''"
| "expect_text Listen = ''Failed to listen''"

text \<open>The calls in their order; \<open>outcome\<close> says for each whether it returns an error. The left side is the panic.\<close>

fun expect_calls :: "(socket_call \<Rightarrow> string option) \<Rightarrow> socket_call list \<Rightarrow> string + unit" where
  "expect_calls failure [] = Inr ()"
| "expect_calls failure (call # calls) =
     (case failure call of
        Some e \<Rightarrow> Inl (expect_text call @ '': '' @ e)
      | None \<Rightarrow> expect_calls failure calls)"

definition open_listener :: "(socket_call \<Rightarrow> string option) \<Rightarrow> string + unit" where
  "open_listener failure =
     expect_calls failure [Parse_Addr, Socket_New, Set_Reuse_Address, Set_Reuse_Port, Bind, Listen]"

fun accept_loop :: "(string + string) list \<Rightarrow> string list" where
  "accept_loop [] = []"
| "accept_loop (Inr stream # incoming) = stream # accept_loop incoming"
| "accept_loop (Inl e # incoming) = accept_loop incoming"

definition listener_thread :: "(socket_call \<Rightarrow> string option) \<Rightarrow> (string + string) list \<Rightarrow> string + string list" where
  "listener_thread failure incoming =
     (case open_listener failure of Inl e \<Rightarrow> Inl e | Inr _ \<Rightarrow> Inr (accept_loop incoming))"

subsection \<open>Turns\<close>

text \<open>
  The threads of a process: the lines that each connection has still to read, and whether the main
  thread is alive. It ends when a tick panics or finds the locks poisoned, and with it the
  whole process. A connection thread ends in the same way, but alone.
\<close>

record ('v, 'g) Threads =
  process :: "('v, 'g) Process"
  connections :: "string option list list"
  main_alive :: bool

datatype turn = Clock | Read nat

definition read_turn ::
    "'v codec \<Rightarrow> ('g \<Rightarrow> u64 \<times> 'g) \<Rightarrow> (string \<Rightarrow> string + 'v Message) \<Rightarrow> nat
      \<Rightarrow> ('v, 'g) Threads \<Rightarrow> ('v, 'g) Threads" where
  "read_turn c gen from_str k t =
     (if k < length (connections t) then
        (case connections t ! k of
           [] \<Rightarrow> t
         | None # lines \<Rightarrow> t\<lparr>connections := (connections t)[k := lines]\<rparr>
         | Some line # lines \<Rightarrow>
             (case from_str line of
                Inl e \<Rightarrow> t\<lparr>process := (process t)\<lparr>stderr := stderr (process t) @ [''JSON Parse Error: '' @ e]\<rparr>,
                  connections := (connections t)[k := lines]\<rparr>
              | Inr msg \<Rightarrow>
                  let p = deliver c gen msg (process t)
                  in t\<lparr>process := p, connections := (connections t)[k := (if poisoned p then [] else lines)]\<rparr>))
      else t)"

definition clock_turn :: "'v codec \<Rightarrow> ('g \<Rightarrow> u64 \<times> 'g) \<Rightarrow> ('v, 'g) Threads \<Rightarrow> ('v, 'g) Threads" where
  "clock_turn c gen t = (let p = tick c gen (process t) in t\<lparr>process := p, main_alive := \<not> poisoned p\<rparr>)"

definition take_turn ::
    "'v codec \<Rightarrow> ('g \<Rightarrow> u64 \<times> 'g) \<Rightarrow> (string \<Rightarrow> string + 'v Message) \<Rightarrow> turn
      \<Rightarrow> ('v, 'g) Threads \<Rightarrow> ('v, 'g) Threads" where
  "take_turn c gen from_str a t =
     (if \<not> main_alive t then t
      else case a of Clock \<Rightarrow> clock_turn c gen t | Read k \<Rightarrow> read_turn c gen from_str k t)"

definition turns ::
    "'v codec \<Rightarrow> ('g \<Rightarrow> u64 \<times> 'g) \<Rightarrow> (string \<Rightarrow> string + 'v Message) \<Rightarrow> turn list
      \<Rightarrow> ('v, 'g) Threads \<Rightarrow> ('v, 'g) Threads" where
  "turns c gen from_str as t = fold (take_turn c gen from_str) as t"

text \<open>What \<^verbatim>\<open>main\<close> has when its loop begins: the fresh process and the connections of the listener.\<close>

definition launch ::
    "('g \<Rightarrow> u64 \<times> 'g) \<Rightarrow> 'g \<Rightarrow> string list \<Rightarrow> (socket_call \<Rightarrow> string option) \<Rightarrow> (string + string) list
      \<Rightarrow> ('v, 'g) Threads option res" where
  "launch gen g args failure incoming = res_bind (main_start gen g args) (\<lambda>started.
     Inr (map_option (\<lambda>p. \<lparr>process = p,
       connections = (case listener_thread failure incoming of Inl _ \<Rightarrow> [] | Inr streams \<Rightarrow> map stream_lines streams),
       main_alive = True\<rparr>) started))"

subsection \<open>Lemmas\<close>

lemma tick_inert: "poisoned p \<Longrightarrow> tick c gen p = p"
  by (simp add: tick_def under_lock_def)

lemma ticks_inert: "poisoned p \<Longrightarrow> ticks c gen k p = p"
  by (induction k) (simp_all add: tick_inert)

lemma turns_simps [simp]:
  "turns c gen from_str [] t = t"
  "turns c gen from_str (a # as) t = turns c gen from_str as (take_turn c gen from_str a t)"
  by (simp_all add: turns_def)

lemma turns_dead: "\<not> main_alive t \<Longrightarrow> turns c gen from_str as t = t"
  by (induction as) (simp_all add: take_turn_def)

lemma take_turn_alive: "main_alive (take_turn c gen from_str (Read k) t) = main_alive t"
  by (simp add: take_turn_def read_turn_def Let_def split: list.split option.split sum.split)

lemma idle_turns:
  assumes "connections t ! k = []"
  shows "turns c gen from_str (replicate n (Read k)) t = t"
  using assms by (induction n) (simp_all add: take_turn_def read_turn_def)

text \<open>The loop of a connection is what its thread does in the turns it takes.\<close>

lemma turns_of_connection:
  assumes "k < length (connections t)" "main_alive t"
  shows "process (turns c gen from_str (replicate (length (connections t ! k)) (Read k)) t)
    = handle_connection c gen from_str (connections t ! k) (process t)"
  using assms
proof (induction "connections t ! k" arbitrary: t)
  case Nil
  then show ?case by (simp flip: Nil(1))
next
  case (Cons l ls)
  define t' where "t' = take_turn c gen from_str (Read k) t"
  have alive: "main_alive t'" "k < length (connections t')"
    using Cons.prems
    by (simp_all add: t'_def take_turn_def read_turn_def Let_def split: list.split option.split sum.split)
  have first: "turns c gen from_str (replicate (length (connections t ! k)) (Read k)) t
      = turns c gen from_str (replicate (length ls) (Read k)) t'"
    by (simp add: t'_def flip: Cons.hyps(2))
  have rest: "connections t' ! k = ls \<Longrightarrow> process (turns c gen from_str (replicate (length ls) (Read k)) t')
      = handle_connection c gen from_str ls (process t')"
    using Cons.hyps(1) [OF _ alive(2,1)] by simp
  note t' = t'_def take_turn_def read_turn_def
  show ?case
  proof (cases l)
    case None
    then have "process t' = process t" "connections t' ! k = ls"
      using Cons.prems by (simp_all add: t' flip: Cons.hyps(2))
    then show ?thesis using rest first None by (simp flip: Cons.hyps(2))
  next
    case (Some line)
    show ?thesis
    proof (cases "from_str line")
      case (Inl e)
      then have "process t' = (process t)\<lparr>stderr := stderr (process t) @ [''JSON Parse Error: '' @ e]\<rparr>" "connections t' ! k = ls"
        using Cons.prems Some by (simp_all add: t' flip: Cons.hyps(2))
      then show ?thesis using rest first Inl Some by (simp flip: Cons.hyps(2))
    next
      case (Inr m)
      let ?p = "deliver c gen m (process t)"
      have "process t' = ?p" "connections t' ! k = (if poisoned ?p then [] else ls)"
        using Inr Cons.prems Some by (simp_all add: t' Let_def flip: Cons.hyps(2))
      then show ?thesis
        using rest first Inr Some idle_turns [of t' k c gen from_str "length ls"]
        by (simp add: Let_def flip: Cons.hyps(2))
    qed
  qed
qed

text \<open>Which preparation fails is the first call that returns an error.\<close>

lemma open_listener_panics:
  "(\<exists>e. open_listener failure = Inl e) \<longleftrightarrow> (\<exists>call. failure call \<noteq> None)"
proof -
  have "(\<exists>e. expect_calls failure calls = Inl e) \<longleftrightarrow> (\<exists>call \<in> set calls. failure call \<noteq> None)" for calls
    by (induction calls) (auto split: option.split)
  moreover have "call \<in> set [Parse_Addr, Socket_New, Set_Reuse_Address, Set_Reuse_Port, Bind, Listen]" for call
    by (cases call) simp_all
  ultimately show ?thesis by (metis open_listener_def)
qed

text \<open>Without connections the clock is all there is.\<close>

abbreviation clocks :: "turn list \<Rightarrow> nat" where
  "clocks as \<equiv> length (filter (\<lambda>a. a = Clock) as)"

lemma deaf_turns:
  assumes "connections t = []" "main_alive t"
  shows "process (turns c gen from_str as t) = ticks c gen (clocks as) (process t)"
  using assms
proof (induction as arbitrary: t)
  case (Cons a as)
  show ?case
  proof (cases a)
    case Clock
    show ?thesis
    proof (cases "poisoned (tick c gen (process t))")
      case True
      then show ?thesis
        using Cons.prems Clock by (simp add: take_turn_def clock_turn_def Let_def turns_dead ticks_inert)
    next
      case False
      then show ?thesis using Cons Clock by (simp add: take_turn_def clock_turn_def Let_def)
    qed
  next
    case (Read k)
    then show ?thesis using Cons by (simp add: take_turn_def read_turn_def)
  qed
qed simp

text \<open>
  After a panic under the locks nothing moves any more: other connections may still report bad
  lines, and the next tick ends the process.
\<close>

lemma turn_poisoned:
  fixes c :: "'v codec" and gen :: "'g \<Rightarrow> u64 \<times> 'g" and from_str :: "string \<Rightarrow> string + 'v Message" and a :: turn
  assumes "poisoned (process t)"
  defines "u \<equiv> take_turn c gen from_str a t"
  shows "poisoned (process u)" "node (process u) = node (process t)" "tx (process u) = tx (process t)"
    "applied (process u) = applied (process t)" "stdout (process u) = stdout (process t)"
    "main_alive u \<longleftrightarrow> main_alive t \<and> a \<noteq> Clock"
  using assms(1)
  by (cases a; simp add: u_def take_turn_def clock_turn_def read_turn_def tick_inert deliver_inert Let_def
      split: list.split option.split sum.split)+

lemma turns_poisoned:
  fixes c :: "'v codec" and gen :: "'g \<Rightarrow> u64 \<times> 'g" and from_str :: "string \<Rightarrow> string + 'v Message" and as :: "turn list"
  assumes "poisoned (process t)"
  defines "u \<equiv> turns c gen from_str as t"
  shows "node (process u) = node (process t)" "tx (process u) = tx (process t)"
    "applied (process u) = applied (process t)" "stdout (process u) = stdout (process t)"
    "main_alive u \<longleftrightarrow> main_alive t \<and> Clock \<notin> set as"
  using assms(1) unfolding u_def by (induction as arbitrary: t) (auto simp: turn_poisoned)

text \<open>C36: A malformed payload is fatal. If a line of a connection is a message of one of the five known types whose
  payload does not decode to that type's arguments, the thread that reads it panics with the locks held: node, timers,
  channel, output and applied entries stay as they are, the thread's other lines are never read, nothing that happens
  later changes the node, sends or applies anything, and the process ends with its next tick.\<close>

theorem malformed_payload_is_fatal:
  fixes gen :: "'g \<Rightarrow> u64 \<times> 'g"
  assumes "main_alive t" "\<not> poisoned (process t)" "k < length (connections t)" "connections t ! k = Some line # lines"
    and "from_str line = Inr m"
    and "m_type m = ''AppendEntries'' \<and> from_slice_append_entries c (m_payload m) = None
      \<or> m_type m = ''RequestVote'' \<and> from_slice_request_vote c (m_payload m) = None
      \<or> m_type m = ''AppendReply'' \<and> from_slice_append_reply c (m_payload m) = None
      \<or> m_type m = ''VoteReply'' \<and> from_slice_vote_reply c (m_payload m) = None
      \<or> m_type m = ''ClientRequest'' \<and> from_slice_client_request c (m_payload m) = None"
  defines "t' \<equiv> take_turn c gen from_str (Read k) t"
  shows "process t' = (process t)\<lparr>poisoned := True\<rparr> \<and> connections t' = (connections t)[k := []]
    \<and> (\<forall>as. let u = turns c gen from_str as t'
        in node (process u) = node (process t) \<and> tx (process u) = tx (process t)
          \<and> applied (process u) = applied (process t) \<and> stdout (process u) = stdout (process t)
          \<and> (main_alive u \<longleftrightarrow> Clock \<notin> set as))"
proof -
  obtain e where "handle_message c gen (process t) m = Inl (e, process t)"
    using assms(6) by (auto simp: handle_message_def)
  then have "deliver c gen m (process t) = (process t)\<lparr>poisoned := True\<rparr>"
    using assms(2) by (simp add: deliver_def under_lock_def)
  then have t': "process t' = (process t)\<lparr>poisoned := True\<rparr>" "connections t' = (connections t)[k := []]" "main_alive t'"
    using assms(1,3-5) by (simp_all add: t'_def take_turn_def read_turn_def Let_def)
  then show ?thesis using turns_poisoned [of t'] by (simp add: Let_def)
qed

theorem malformed_payload_is_fatal_witness:
  "let p = start_process (\<lambda>g :: unit. (40, g)) () ''A'' [''B''];
       t = \<lparr>process = p, connections = [[Some ''line'', Some ''line''], []], main_alive = True\<rparr>;
       m = \<lparr>m_from = ''B'', m_to = ''A'', m_type = ''AppendReply'',
         m_payload = JObject [(''term'', JNumber 1), (''success'', JBool True)]\<rparr>;
       u = turns serde_json (\<lambda>g. (40, g)) (\<lambda>_. Inr m) [Read 0, Read 0, Clock, Clock] t
   in node (process u) = node p \<and> tx (process u) = [] \<and> \<not> main_alive u"
proof -
  let ?gen = "\<lambda>g :: unit. (40 :: u64, g)"
  let ?p = "start_process ?gen () ''A'' [''B''] :: (json, unit) Process"
  let ?t = "\<lparr>process = ?p, connections = [[Some ''line'', Some ''line''], []], main_alive = True\<rparr>"
  let ?m = "\<lparr>m_from = ''B'', m_to = ''A'', m_type = ''AppendReply'',
      m_payload = JObject [(''term'', JNumber 1), (''success'', JBool True)]\<rparr> :: json Message"
  have bad: "from_slice_append_reply serde_json (m_payload ?m) = None" by code_simp
  have t: "main_alive ?t" "\<not> poisoned (process ?t)" "0 < length (connections ?t)" "connections ?t ! 0 = Some ''line'' # [Some ''line'']"
    "tx (process ?t) = []"
    by (simp_all add: start_process_def engine_new_def)
  have wrong: "m_type ?m = ''AppendEntries'' \<and> from_slice_append_entries serde_json (m_payload ?m) = None
      \<or> m_type ?m = ''RequestVote'' \<and> from_slice_request_vote serde_json (m_payload ?m) = None
      \<or> m_type ?m = ''AppendReply'' \<and> from_slice_append_reply serde_json (m_payload ?m) = None
      \<or> m_type ?m = ''VoteReply'' \<and> from_slice_vote_reply serde_json (m_payload ?m) = None
      \<or> m_type ?m = ''ClientRequest'' \<and> from_slice_client_request serde_json (m_payload ?m) = None"
    using bad by simp
  note fatal = malformed_payload_is_fatal [where from_str = "\<lambda>_. Inr ?m" and gen = ?gen, OF t(1-4) refl wrong]
  note spec [OF conjunct2 [OF conjunct2 [OF fatal]], of "[Read 0, Clock, Clock]"]
  then show ?thesis using t(5) by (simp add: Let_def)
qed

lemma request_deposes:
  fixes gen :: "'g \<Rightarrow> u64 \<times> 'g" and n :: RaftNode and j :: node_id
  assumes ser: "serde_codec c" and "\<not> poisoned p" "log (node p) \<noteq> []" "current_term (node p) < rv_term x"
  defines "q \<equiv> deliver c gen (envelope n j ''RequestVote'' (to_value_request_vote c x)) p"
  shows "\<not> is_Leader (state (node q)) \<and> current_term (node q) = rv_term x \<and> leader_id (node q) = None"
proof -
  obtain fx b r where h: "handle_request_vote (node p) x
      = Inr (if b then (observe (node p) (rv_term x))\<lparr>voted_for := Some (rv_candidate_id x)\<rparr> else observe (node p) (rv_term x), r, fx)"
    using handle_request_vote_eq [OF assms(3), of x] by blast
  have "node q = (if b then (observe (node p) (rv_term x))\<lparr>voted_for := Some (rv_candidate_id x)\<rparr> else observe (node p) (rv_term x))"
    using assms(2) h serde_codec.rt_request_vote [OF ser]
    by (simp add: q_def deliver_def under_lock_def handle_message_def envelope_def Let_def)
  then show ?thesis using assms(4) by (simp add: observe_def)
qed


lemma ticks_tx: "set (tx p) \<subseteq> set (tx (ticks c gen k p))"
proof (induction k arbitrary: p)
  case (Suc k)
  have "set (tx p) \<subseteq> set (tx p')" if "tick_body c gen p = Inr p'" for p'
    using that by (auto simp: tick_body_def Let_def res_simps execute_effects_out split: if_splits prod.splits)
  then have "set (tx p) \<subseteq> set (tx (tick c gen p))"
    by (cases c gen p rule: tick_cases) auto
  then show ?case using Suc.IH [of "tick c gen p"] by auto
qed simp

text \<open>C37: A deaf process. If one of the calls that prepare the listener fails, the process runs on without it: it hears
  nothing, so its terms grow without end, and any process it has as a peer, a leader of a working cluster included, is
  deposed and moved to a newer term by one of its vote requests, once the deaf process has ticked often enough.\<close>

theorem deaf_process_deposes:
  fixes gen :: "'g \<Rightarrow> u64 \<times> 'g" and p :: "('v, 'g) Process"
  assumes "serde_codec c" "gen_range_30_150 gen" "failure call \<noteq> None"
    and "launch gen g args failure incoming = Inr (Some t)"
    and "\<not> poisoned p" "log (node p) \<noteq> []" "unat (current_term (node p)) < 2 ^ 64 - 1"
    and "self_id (node p) \<in> set (peers (node (process t)))"
  shows "\<exists>k. \<forall>as. k \<le> clocks as \<longrightarrow> (\<exists>m \<in> set (tx (process (turns c gen from_str as t))). m_to m = self_id (node p)
    \<and> \<not> is_Leader (state (node (deliver c gen m p))) \<and> current_term (node p) < current_term (node (deliver c gen m p)))"
proof -
  let ?p = "process t" and ?t = "current_term (node p) + 1"
  obtain cfg where "parse_args args = Inr (Some cfg)"
    using assms(4) by (auto simp: launch_def main_start_def res_simps)
  then have "t = \<lparr>process = start_process gen g (cfg_id cfg) (cfg_peers cfg),
      connections = (case listener_thread failure incoming of Inl _ \<Rightarrow> [] | Inr streams \<Rightarrow> map stream_lines streams),
      main_alive = True\<rparr>"
    using assms(4) by (simp add: launch_def main_start_def)
  then have start: "?p = start_process gen g (cfg_id cfg) (cfg_peers cfg)"
    and t: "connections t = (case listener_thread failure incoming of Inl _ \<Rightarrow> [] | Inr streams \<Rightarrow> map stream_lines streams)"
      "main_alive t"
    by simp_all
  obtain e where "open_listener failure = Inl e" using open_listener_panics assms(3) by blast
  then have deaf: "connections t = []" using t(1) by (simp add: listener_thread_def)
  have fresh: "\<not> poisoned ?p" "\<not> is_Leader (state (node ?p))" "log (node ?p) \<noteq> []" "current_term (node ?p) = 0"
    by (simp_all add: start start_process_def new_def split_beta Let_def)
  have tm: "unat ?t = Suc (unat (current_term (node p)))" using assms(7) by (simp add: unat_word_ariths)
  have "timers_ok ?p" unfolding start by (rule timers_ok_start [OF assms(2)])
  from reaches_term [OF assms(2) fresh(1-3) this, of ?t c] obtain k n where
    k: "stands c n (ticks c gen k ?p)" "peers n = peers (node ?p)" "current_term n + 1 = ?t"
    using tm fresh(4) by auto
  define x where "x = vote_request (candidacy n)"
  define m where "m = envelope (candidacy n) (self_id (node p)) ''RequestVote'' (to_value_request_vote c x)"
  have m: "m \<in> set (tx (ticks c gen k ?p))" "m_to m = self_id (node p)"
    using k(1,2) assms(8) by (auto simp: stands_def m_def x_def envelope_def)
  have newer: "current_term (node p) < rv_term x"
    using tm k(3) by (simp add: x_def vote_request_def word_less_nat_alt)
  note del = request_deposes [where gen = gen, OF assms(1,5,6) newer, of "candidacy n" "self_id (node p)", folded m_def]
  have "m \<in> set (tx (process (turns c gen from_str as t)))" if "k \<le> clocks as" for as
  proof -
    have "ticks c gen (clocks as) ?p = ticks c gen (clocks as - k) (ticks c gen k ?p)"
      using that by (simp flip: ticks_add)
    then show ?thesis using deaf_turns [OF deaf t(2)] ticks_tx m(1) by fastforce
  qed
  then show ?thesis using m(2) del newer by (intro exI [of _ k] allI impI bexI [of _ m]) simp_all
qed


theorem deaf_process_deposes_witness:
  "let t = \<lparr>process = start_process least_limit () ''A'' [''B''], connections = [], main_alive = True\<rparr>;
       p = (start_process least_limit () ''B'' [''A''])\<lparr>node := (new ''B'' [''A''])\<lparr>current_term := 5, state := Leader [] []\<rparr>\<rparr>
   in \<exists>k. \<exists>m \<in> set (tx (process (turns serde_json least_limit (\<lambda>_. Inl ''no message'') (replicate k Clock) t))).
     m_to m = ''B'' \<and> \<not> is_Leader (state (node (deliver serde_json least_limit m p)))"
proof -
  let ?args = "[''raft-rust'', ''A'', dec_nat 8001, ''127.0.0.1:8000'', ''B'']"
  let ?failure = "\<lambda>call. if call = Bind then Some ''address in use'' else None"
  let ?t = "\<lparr>process = start_process least_limit () ''A'' [''B''], connections = [], main_alive = True\<rparr> :: (json, unit) Threads"
  let ?p = "(start_process least_limit () ''B'' [''A''])\<lparr>node := (new ''B'' [''A''])\<lparr>current_term := 5, state := Leader [] []\<rparr>\<rparr> :: (json, unit) Process"
  have "parse_args ?args = Inr (Some \<lparr>cfg_id = ''A'', cfg_port = of_nat 8001, cfg_relay_addr = ''127.0.0.1:8000'', cfg_peers = [''B'']\<rparr>)"
    by (rule parse_command_line) simp
  then have launched: "launch least_limit () ?args ?failure [] = Inr (Some ?t)"
    by (simp add: launch_def main_start_def listener_thread_def open_listener_def)
  have p: "?failure Bind \<noteq> None" "\<not> poisoned ?p" "log (node ?p) \<noteq> []" "unat (current_term (node ?p)) < 2 ^ 64 - 1"
    "self_id (node ?p) \<in> set (peers (node (process ?t)))" "self_id (node ?p) = ''B''"
    by (simp_all add: start_process_def new_def engine_new_def least_limit_def)
  from deaf_process_deposes [where from_str = "\<lambda>_. Inl ''no message''",
      OF json.serde_codec_axioms least_limit_range p(1) launched p(2-5)] p(6)
  obtain k where k: "\<And>as. k \<le> clocks as \<Longrightarrow> \<exists>m \<in> set (tx (process (turns serde_json least_limit (\<lambda>_. Inl ''no message'') as ?t))).
    m_to m = ''B'' \<and> \<not> is_Leader (state (node (deliver serde_json least_limit m ?p)))"
    by (metis (no_types, lifting))
  show ?thesis unfolding Let_def by (rule exI [of _ k], rule k) simp
qed

end
