(* ===== verification/Lone_Node.thy ===== *)
theory Lone_Node
  imports Cluster_Run
begin

section \<open>A cluster of one process\<close>

text \<open>
  A process that is started without peers. Its channel leads to the clients only, because
  it has nobody to ask for a vote; and votes are counted only in the handler of a vote reply.
  So it stands for election again and again and never notices that it has won. The runs are
  those of \<open>Cluster\<close> for one process: ticks, client messages, and whatever it sent itself. A
  vote reply from a stranger would make it leader (\<open>vote_of_outsider\<close>); a cluster of one contains
  no process that sends one.
\<close>

definition refusal :: ClientRequestReply where
  "refusal = \<lparr>cp_success = False, cp_leader_id = None,
     cp_response = ''Not the leader. Please redirect to the current leader.''\<rparr>"

definition alone :: "node_id \<Rightarrow> RaftNode \<Rightarrow> bool" where
  "alone i n \<longleftrightarrow> self_id n = i \<and> peers n = [] \<and> leader_id n = None \<and> log n = [sentinel] \<and> committed_index n = 0
     \<and> state n \<in> {Follower, Candidate {i}}"

definition refused :: "'v codec \<Rightarrow> 'v Message \<Rightarrow> bool" where
  "refused c m \<longleftrightarrow> m_type m = ''ClientReply'' \<and> m_payload m = to_value_client_reply c refusal"

definition lone :: "'v codec \<Rightarrow> node_id \<Rightarrow> ('v, 'g) Process \<Rightarrow> bool" where
  "lone c i p \<longleftrightarrow> alone i (node p) \<and> applied p = [] \<and> (\<forall>m \<in> set (tx p). refused c m)"

lemma alone_not_leader: "alone i n \<Longrightarrow> \<not> is_Leader (state n)"
  by (auto simp: alone_def)

text \<open>A message that is not one of the four is a client request, which is refused, or is ignored.\<close>

lemma lone_deliver:
  assumes "lone c i p" "m_type m \<notin> node_message_types"
  shows "lone c i (deliver c gen m p)"
proof (cases c gen m p rule: deliver_cases)
  case (run p')
  show ?thesis
  proof (cases "m_type m = ''ClientRequest''")
    case False
    then have "p' = p" using run(2) assms(2) by (simp add: handle_message_def node_message_types_def)
    then show ?thesis using run(3) assms(1) by simp
  next
    case True
    then obtain x where x: "from_slice_client_request c (m_payload m) = Some x"
      using run(2) by (auto simp: handle_message_def res_simps)
    obtain fx where fx: "handle_client_request (node p) x = Inr (node p, refusal, fx)" "sends fx = []" "applies fx = []"
      using assms(1)
      by (cases "state (node p)")
        (auto simp: lone_def alone_def handle_client_request_def propose_command_def refusal_def)
    then have "p' = execute_effects c gen fx (send p (envelope (node p) (m_from m) ''ClientReply'' (to_value_client_reply c refusal)))"
      using True x run(2) by (simp add: handle_message_def Let_def)
    then show ?thesis
      using assms(1) run(3) fx(2,3) by (auto simp: lone_def execute_effects_out refused_def envelope_def)
  qed
qed (use assms(1) in \<open>simp_all add: lone_def\<close>)

lemma lone_tick:
  assumes "lone c i p"
  shows "lone c i (tick c gen p)"
proof (cases c gen p rule: tick_cases)
  case (run p')
  have a: "alone i (node p)" using assms by (simp add: lone_def)
  obtain k where k: "add_u64 (election_tick_count (engine p)) 1 = Inr k"
    using run(2) alone_not_leader [OF a] by (auto simp: tick_body_def res_simps Let_def)
  let ?q = "p\<lparr>engine := (engine p)\<lparr>election_tick_count := k\<rparr>\<rparr>"
  consider (wait) "p' = ?q"
    | (elect) n fx where "handle_election_timeout (node p) = Inr (n, fx)" "p' = execute_effects c gen fx (?q\<lparr>node := n\<rparr>)"
    using run(2) alone_not_leader [OF a] k by (auto simp: tick_body_def res_simps Let_def split: if_splits)
  then show ?thesis
  proof cases
    case wait
    then show ?thesis using run(3) assms by (simp add: lone_def)
  next
    case elect
    then have n: "n = candidacy (node p)" "sends fx = [BroadcastRequestVote (vote_request n)]" "applies fx = []"
      using handle_election_timeout_eq [of "node p"] a alone_not_leader [OF a] by (auto simp: alone_def)
    then have "alone i n" using a by (simp add: alone_def candidacy_def)
    moreover have "peers n = []" using \<open>alone i n\<close> by (simp add: alone_def)
    ultimately show ?thesis using elect(2) n(2,3) run(3) assms by (simp add: lone_def execute_effects_out)
  qed
qed (use assms in \<open>simp_all add: lone_def\<close>)

lemma reachable_lone:
  fixes s :: "node_id \<Rightarrow> ('v, 'g) Process" and gen :: "'g \<Rightarrow> u64 \<times> 'g"
  assumes "c_reachable {i} (\<lambda>_. []) c gen s"
  shows "lone c i (s i)"
  using assms
proof (rule c_reachable_invariant)
  fix s :: "node_id \<Rightarrow> ('v, 'g) Process"
  assume "c_initial {i} (\<lambda>_. []) gen s"
  then obtain g where s: "s i = start_process gen g i []" by (auto simp: c_initial_def)
  show "lone c i (s i)"
    unfolding s by (cases "gen g") (simp add: lone_def alone_def start_process_def engine_new_def new_def)
next
  fix s s' :: "node_id \<Rightarrow> ('v, 'g) Process"
  assume l: "lone c i (s i)" and step: "cstep {i} c gen s s'"
  have m: "m_type m \<notin> node_message_types" if "m \<in> set (tx (s i))" for m
    using that l by (simp add: lone_def refused_def node_message_types_def)
  from step show "lone c i (s' i)"
  proof cases
    case (c_tick k)
    then show ?thesis using lone_tick [OF l] by simp
  next
    case (c_deliver k j v)
    then show ?thesis using lone_deliver [OF l m] by simp
  next
    case (c_client k v)
    then show ?thesis using lone_deliver [OF l] by simp
  qed
qed

text \<open>C38: A cluster of one process never works. In every run of a process without peers, with any requests of its clients,
  the process never becomes leader, commits and applies nothing, and all it ever sends are refusals without a leader
  to turn to; and yet, whenever it is a candidate, the votes it holds pass the very test for a majority that the
  handler of vote replies makes.\<close>

theorem single_node_never_leads:
  fixes s :: "node_id \<Rightarrow> ('v, 'g) Process" and gen :: "'g \<Rightarrow> u64 \<times> 'g"
  assumes "c_reachable {i} (\<lambda>_. []) c gen s"
  shows "\<not> is_Leader (state (node (s i))) \<and> log (node (s i)) = [sentinel] \<and> committed_index (node (s i)) = 0
    \<and> applied (s i) = []
    \<and> (\<forall>m \<in> set (tx (s i)). m_type m = ''ClientReply'' \<and> m_payload m = to_value_client_reply c
         \<lparr>cp_success = False, cp_leader_id = None,
          cp_response = ''Not the leader. Please redirect to the current leader.''\<rparr>)
    \<and> (\<forall>V. state (node (s i)) = Candidate V \<longrightarrow> (length (peers (node (s i))) + 1) div 2 < card V)"
  using reachable_lone [OF assms] by (auto simp: lone_def alone_def refused_def refusal_def)

theorem single_node_never_leads_witness:
  "\<exists>s. c_reachable {''A''} (\<lambda>_. []) serde_json least_limit s \<and> state (node (s ''A'')) = Candidate {''A''}
    \<and> \<not> is_Leader (state (node (s ''A''))) \<and> map m_type (tx (s ''A'')) = [''ClientReply'']
    \<and> (length (peers (node (s ''A''))) + 1) div 2 < card {''A''}"
proof -
  define s0 :: "node_id \<Rightarrow> (json, unit) Process" where "s0 = (\<lambda>i. start_process least_limit () i [])"
  have start: "c_initial {''A''} (\<lambda>_. []) least_limit s0" by (simp add: c_initial_def s0_def)
  have "case run [''A''] least_limit [time_out ''A'', Command ''A'' ''x''] (\<lambda>i. start_process least_limit () i [])
      of None \<Rightarrow> False | Some s \<Rightarrow> state (node (s ''A'')) = Candidate {''A''} \<and> map m_type (tx (s ''A'')) = [''ClientReply'']"
    by code_simp
  then obtain s where s: "run [''A''] least_limit [time_out ''A'', Command ''A'' ''x''] s0 = Some s"
    "state (node (s ''A'')) = Candidate {''A''}" "map m_type (tx (s ''A'')) = [''ClientReply'']"
    by (auto simp: s0_def split: option.splits)
  have "c_reachable {''A''} (\<lambda>_. []) serde_json least_limit s"
    using c_reachable_star [OF run_steps [OF s(1)]] c_reachable.c_start [OF start] by simp
  then show ?thesis using single_node_never_leads [of "''A''" serde_json least_limit s] s(2,3) by auto
qed

end
