(* ===== verification/Restart.thy ===== *)
theory Restart
  imports Cluster_Run
begin

section \<open>A process that is started again\<close>

text \<open>
  \<^verbatim>\<open>RaftNode::new\<close> begins in term 0, with no vote and an empty log, and nothing of the crate
  writes the node to a file or reads it back. The structure calls the commit and the applied
  index volatile, so the term, the vote and the log are meant to be kept; but a process that
  is started again has lost them too. The safety properties hold for runs without a restart;
  one restart of one process in between is enough to break them.
\<close>

text \<open>
  After \<open>schedule_1\<close>, where \<open>A\<close> was elected by \<open>B\<close> and has committed \<open>x\<close> with \<open>B\<close>'s
  acknowledgement, \<open>B\<close> is started again. \<open>C\<close>, which has received nothing so far, times out,
  is elected by \<open>B\<close> in the same term and commits \<open>y\<close> with \<open>B\<close>'s acknowledgement.
\<close>

definition schedule_4 :: "event list" where
  "schedule_4 = [time_out ''C'', Deliver ''C'' 1, Deliver ''B'' 0, Command ''C'' ''y'', Deliver ''C'' 6, Deliver ''B'' 1]"

lemma schedule_4_runs:
  "case run trio least_limit schedule_1 trio_start of None \<Rightarrow> False | Some s \<Rightarrow>
   (case run trio least_limit schedule_4 (s(''B'' := trio_start ''B'')) of None \<Rightarrow> False | Some s \<Rightarrow>
     is_Leader (state (node (s ''A''))) \<and> is_Leader (state (node (s ''C'')))
     \<and> current_term (node (s ''A'')) = 1 \<and> current_term (node (s ''C'')) = 1
     \<and> applied (s ''A'') = [(1, ''x'')] \<and> applied (s ''C'') = [(1, ''y'')])"
  by code_simp

text \<open>C15: A restart breaks the safety of the cluster. There is a reachable state of a cluster of three, in which \<open>A\<close> leads and
  has applied \<open>x\<close>, such that after one restart of the one process \<open>B\<close> ticks, deliveries and client requests, and
  no further restart, lead to a state with two leaders of the same term whose state machines have applied
  different commands at the same index.\<close>

theorem restart_breaks_safety:
  "\<exists>s s'. c_reachable (set trio) trio_peers serde_json least_limit s
    \<and> is_Leader (state (node (s ''A''))) \<and> applied (s ''A'') = [(1, ''x'')]
    \<and> (cstep (set trio) serde_json least_limit)\<^sup>*\<^sup>* (s(''B'' := start_process least_limit () ''B'' (trio_peers ''B''))) s'
    \<and> is_Leader (state (node (s' ''A''))) \<and> is_Leader (state (node (s' ''C'')))
    \<and> current_term (node (s' ''A'')) = current_term (node (s' ''C''))
    \<and> applied (s' ''A'') = [(1, ''x'')] \<and> applied (s' ''C'') = [(1, ''y'')]"
proof -
  obtain s' where s': "run trio least_limit schedule_4 (state_1(''B'' := trio_start ''B'')) = Some s'"
    "is_Leader (state (node (s' ''A'')))" "is_Leader (state (node (s' ''C'')))"
    "current_term (node (s' ''A'')) = current_term (node (s' ''C''))"
    "applied (s' ''A'') = [(1, ''x'')]" "applied (s' ''C'') = [(1, ''y'')]"
    using schedule_4_runs by (auto simp: run_states split: option.splits)
  have "is_Leader (state (node (state_1 ''A'')))" "applied (state_1 ''A'') = [(1, ''x'')]" by (simp_all add: state_1_facts)
  then show ?thesis
    using reachable_1 run_steps [OF s'(1), unfolded trio_start_def] s'(2-6) by blast
qed

end
