(* ===== verification/Round_Trips.thy ===== *)
theory Round_Trips
  imports Cluster_Run
begin

section \<open>Round trips between two processes\<close>

text \<open>
  From a side effect of one process to the handler of another and back: what
  \<open>execute_effect\<close> puts on the channel, what \<open>handle_message\<close> makes of it at the addressee, and
  what the reply does at the sender, whatever happened to the sender in between. The
  encoding of arguments and replies is \<^verbatim>\<open>serde_json\<close>'s (\<open>serde_codec\<close>); the type, the
  addressee and the sender of each message are the code's.
\<close>

subsection \<open>What the handlers of requests send themselves\<close>

lemma append_entries_loop_quiet:
  "append_entries_loop n se k es = (n', se', k')
    \<Longrightarrow> self_id n' = self_id n \<and> peers n' = peers n \<and> sends se' = sends se"
proof (induction es arbitrary: n se k)
  case (Cons e es)
  then show ?case by (fastforce simp: Let_def split: option.splits if_splits)
qed simp

lemma advance_follower_commit_quiet:
  assumes "advance_follower_commit n se lc k = (n', se')"
  shows "self_id n' = self_id n \<and> sends se' = sends se"
  using advance_follower_commit_eq [OF assms] by auto

lemma handle_append_entries_quiet:
  assumes "handle_append_entries n args = (n', r, fx)"
  shows "self_id n' = self_id n \<and> sends fx = []"
proof (cases "ae_term args < current_term n")
  case True
  then show ?thesis using handle_append_entries_stale [OF True] assms by auto
next
  case False
  show ?thesis
  proof (cases "has_matching_prev_entry n (ae_prev_log_index args) (ae_prev_log_term args)")
    case mismatch: False
    then show ?thesis using handle_append_entries_mismatch [OF False] assms by auto
  next
    case True
    let ?m = "(observe n (ae_term args))\<lparr>leader_id := Some (ae_leader_id args), state := Follower\<rparr>"
    obtain b o' se where sd: "maybe_step_down n (ae_term args) [] = (b, o', se)" by (cases "maybe_step_down n (ae_term args) []")
    then have o': "o' = observe n (ae_term args)" "sends se = []"
      using maybe_step_down_observe [of n "ae_term args" "[]"] by auto
    obtain sf l sg k m2 sh where loop: "append_entries_loop ?m sf (ae_prev_log_index args) (ae_entries args) = (l, sg, k)"
      and adv: "advance_follower_commit l sg (ae_leader_commit args) k = (m2, sh)" and out: "n' = m2" "sends fx = sends sh"
      and sf: "sends sf = []"
      using assms False True sd o'
      by (auto simp: handle_append_entries_def Let_def has_matching_prev_entry_def split: prod.splits NodeState.splits)
    then show ?thesis
      using append_entries_loop_quiet [OF loop] advance_follower_commit_quiet [OF adv] by simp
  qed
qed

lemma handle_request_vote_quiet:
  assumes "handle_request_vote n a = Inr (n', r, fx)"
  shows "self_id n' = self_id n \<and> sends fx = []"
proof (cases "log n = []")
  case True
  then show ?thesis
    using assms by (auto simp: handle_request_vote_def vec_last_def maybe_step_down_def Let_def split: if_splits)
next
  case False
  then show ?thesis
    using handle_request_vote_eq [OF False, of a] assms by (auto split: if_splits)
qed

subsection \<open>What a side effect puts on the channel\<close>

text \<open>The peers to which an effect sends an AppendEntries message, and a RequestVote message, with their arguments.\<close>

definition asks_append :: "RaftNode \<Rightarrow> SideEffect list \<Rightarrow> node_id \<Rightarrow> AppendEntriesArgs \<Rightarrow> bool" where
  "asks_append n fx j x \<longleftrightarrow> SendAppendEntries j x \<in> set fx \<or> BroadcastAppendEntries x \<in> set fx \<and> j \<in> set (peers n)"

definition asks_vote :: "RaftNode \<Rightarrow> SideEffect list \<Rightarrow> node_id \<Rightarrow> RequestVoteArgs \<Rightarrow> bool" where
  "asks_vote n fx j x \<longleftrightarrow> BroadcastRequestVote x \<in> set fx \<and> j \<in> set (peers n)"

lemma set_messages_of: "set (messages_of c n fx) = (\<Union>e \<in> set fx. set (effect_messages c n e))"
  by (simp add: messages_of_def)

lemma sent_messages:
  "set (tx (execute_effects c gen fx p)) = set (tx p) \<union> set (messages_of c (node p) fx)"
  by (simp add: execute_effects_out flip: messages_of_sends)

lemma asks_sent:
  "asks_append (node p) fx j x
    \<Longrightarrow> envelope (node p) j ''AppendEntries'' (to_value_append_entries c x) \<in> set (tx (execute_effects c gen fx p))"
  "asks_vote (node p) fx j y
    \<Longrightarrow> envelope (node p) j ''RequestVote'' (to_value_request_vote c y) \<in> set (tx (execute_effects c gen fx p))"
  unfolding sent_messages set_messages_of asks_append_def asks_vote_def
  by (intro UnI2, elim disjE conjE; rule UN_I, assumption, simp)+

subsection \<open>The properties\<close>

text \<open>C34: An AppendEntries round trip. Let a process carry out side effects that send an AppendEntries to a peer,
  directly or as a broadcast. Then there is a message to this peer on its channel; a running process with the peer's
  id that receives it becomes what its handler makes of exactly these arguments, applies what the handler applies, and
  puts exactly one message on its channel, addressed to the sender; and the sender, in whatever later state of its own
  it receives this reply, runs the handler of replies with the peer's id and the reply that was returned, effects and
  panics included.\<close>

theorem append_entries_round_trip:
  assumes "serde_codec c" "asks_append (node p) fx j x"
    and "\<not> poisoned q" "self_id (node q) = j" "\<not> poisoned p'" "self_id (node p') = self_id (node p)"
    and "handle_append_entries (node q) x = (n, r, gx)"
  shows "\<exists>m v. m \<in> set (tx (execute_effects c gen fx p)) \<and> m_to m = j
    \<and> node (deliver c gen m q) = n \<and> applied (deliver c gen m q) = applied q @ applies gx
    \<and> tx (deliver c gen m q) = tx q @ [v] \<and> \<not> poisoned (deliver c gen m q)
    \<and> m_to v = self_id (node p)
    \<and> deliver c gen v p' = (case handle_append_entries_reply (node p') j r of
          Inl e \<Rightarrow> p'\<lparr>poisoned := True\<rparr>
        | Inr (n', hx) \<Rightarrow> execute_effects c gen hx (p'\<lparr>node := n'\<rparr>))"
proof -
  let ?m = "envelope (node p) j ''AppendEntries'' (to_value_append_entries c x)"
  let ?v = "envelope n (self_id (node p)) ''AppendReply'' (to_value_append_reply c r)"
  note quiet = handle_append_entries_quiet [OF assms(7)]
  have "?m \<in> set (tx (execute_effects c gen fx p))"
    by (rule asks_sent(1) [OF assms(2)])
  moreover have "deliver c gen ?m q = execute_effects c gen gx (send (q\<lparr>node := n\<rparr>) ?v)"
    using assms(3,7) serde_codec.rt_append_entries [OF assms(1)]
    by (simp add: deliver_def under_lock_def handle_message_def envelope_def Let_def)
  moreover have "deliver c gen ?v p' = (case handle_append_entries_reply (node p') j r of
      Inl e \<Rightarrow> p'\<lparr>poisoned := True\<rparr> | Inr (n', hx) \<Rightarrow> execute_effects c gen hx (p'\<lparr>node := n'\<rparr>))"
    using assms(4,5) quiet serde_codec.rt_append_reply [OF assms(1)]
    by (auto simp: deliver_def under_lock_def handle_message_def envelope_def split: sum.split)
  ultimately show ?thesis
    using assms(3) quiet by (intro exI [of _ ?m] exI [of _ ?v]) (simp add: execute_effects_out, simp add: envelope_def)
qed


theorem append_entries_round_trip_witness:
  "\<exists>m v. m \<in> set (tx (execute_effects serde_json least_limit (snd (handle_heartbeat_timeout (node (state_1 ''A'')))) (state_1 ''A'')))
    \<and> m_to m = ''B'' \<and> committed_index (node (deliver serde_json least_limit m (state_1 ''B''))) = 1
    \<and> applied (deliver serde_json least_limit m (state_1 ''B'')) = [(1, ''x'')]
    \<and> tx (deliver serde_json least_limit m (state_1 ''B'')) = tx (state_1 ''B'') @ [v] \<and> m_to v = ''A''"
proof -
  let ?x = "\<lparr>ae_term = 1, ae_leader_id = ''A'', ae_prev_log_index = 1, ae_prev_log_term = 1, ae_entries = [], ae_leader_commit = 1\<rparr>"
  let ?h = "handle_append_entries (node (state_1 ''B'')) ?x"
  have "case run trio least_limit schedule_1 trio_start of None \<Rightarrow> False | Some s \<Rightarrow>
      \<not> poisoned (s ''A'') \<and> \<not> poisoned (s ''B'') \<and> applied (s ''B'') = []
      \<and> asks_append (node (s ''A'')) (snd (handle_heartbeat_timeout (node (s ''A'')))) ''B'' ?x
      \<and> (case handle_append_entries (node (s ''B'')) ?x of (n, r, gx) \<Rightarrow> committed_index n = 1 \<and> applies gx = [(1, ''x'')])"
    by code_simp
  then have run: "\<not> poisoned (state_1 ''A'')" "\<not> poisoned (state_1 ''B'')" "applied (state_1 ''B'') = []"
    "asks_append (node (state_1 ''A'')) (snd (handle_heartbeat_timeout (node (state_1 ''A'')))) ''B'' ?x"
    "case ?h of (n, r, gx) \<Rightarrow> committed_index n = 1 \<and> applies gx = [(1, ''x'')]"
    by (simp_all add: run_states)
  obtain n r gx where h: "?h = (n, r, gx)" by (cases ?h)
  have id: "self_id (node (state_1 ''B'')) = ''B''" "self_id (node (state_1 ''A'')) = ''A''" by (simp_all add: state_1_facts)
  show ?thesis
    using append_entries_round_trip [where gen = least_limit, OF json.serde_codec_axioms run(4,2) id(1) run(1) refl h] run(3,5) h id(2)
    by auto
qed

text \<open>C40: A RequestVote round trip. Let a process carry out side effects that broadcast a RequestVote. Then there is a message to each
  of its peers on its channel; a running process with the peer's id that receives it decides on exactly these
  arguments, becomes what its handler makes of itself, and puts exactly one message on its channel, addressed to the
  candidate; and the candidate, in whatever later state of its own it receives this reply, counts it as the reply of
  this peer, effects and panics included.\<close>

theorem request_vote_round_trip:
  assumes "serde_codec c" "asks_vote (node p) fx j x"
    and "\<not> poisoned q" "self_id (node q) = j" "\<not> poisoned p'" "self_id (node p') = self_id (node p)"
    and "handle_request_vote (node q) x = Inr (n, r, gx)"
  shows "\<exists>m v. m \<in> set (tx (execute_effects c gen fx p)) \<and> m_to m = j
    \<and> node (deliver c gen m q) = n \<and> applied (deliver c gen m q) = applied q @ applies gx
    \<and> tx (deliver c gen m q) = tx q @ [v] \<and> \<not> poisoned (deliver c gen m q)
    \<and> m_to v = self_id (node p)
    \<and> deliver c gen v p' = (case handle_request_vote_reply (node p') j r of
          Inl e \<Rightarrow> p'\<lparr>poisoned := True\<rparr>
        | Inr (n', hx) \<Rightarrow> execute_effects c gen hx (p'\<lparr>node := n'\<rparr>))"
proof -
  let ?m = "envelope (node p) j ''RequestVote'' (to_value_request_vote c x)"
  let ?v = "envelope n (self_id (node p)) ''VoteReply'' (to_value_vote_reply c r)"
  note quiet = handle_request_vote_quiet [OF assms(7)]
  have "?m \<in> set (tx (execute_effects c gen fx p))"
    by (rule asks_sent(2) [OF assms(2)])
  moreover have "deliver c gen ?m q = execute_effects c gen gx (send (q\<lparr>node := n\<rparr>) ?v)"
    using assms(3,7) serde_codec.rt_request_vote [OF assms(1)]
    by (simp add: deliver_def under_lock_def handle_message_def envelope_def Let_def)
  moreover have "deliver c gen ?v p' = (case handle_request_vote_reply (node p') j r of
      Inl e \<Rightarrow> p'\<lparr>poisoned := True\<rparr> | Inr (n', hx) \<Rightarrow> execute_effects c gen hx (p'\<lparr>node := n'\<rparr>))"
    using assms(4,5) quiet serde_codec.rt_vote_reply [OF assms(1)]
    by (auto simp: deliver_def under_lock_def handle_message_def envelope_def split: sum.split)
  ultimately show ?thesis
    using assms(3) quiet by (intro exI [of _ ?m] exI [of _ ?v]) (simp add: execute_effects_out, simp add: envelope_def)
qed

theorem request_vote_round_trip_witness:
  "\<exists>m v. m \<in> set (tx (execute_effects serde_json least_limit
      [BroadcastRequestVote (vote_request (candidacy (node (trio_start ''A''))))] (trio_start ''A'')))
    \<and> m_to m = ''B'' \<and> voted_for (node (deliver serde_json least_limit m (trio_start ''B''))) = Some ''A''
    \<and> tx (deliver serde_json least_limit m (trio_start ''B'')) = [v] \<and> m_to v = ''A''
    \<and> is_Leader (state (node (deliver serde_json least_limit v (ticks serde_json least_limit 30 (trio_start ''A'')))))"
proof -
  let ?p = "trio_start ''A''" and ?q = "trio_start ''B''"
  let ?p' = "ticks serde_json least_limit 30 ?p" and ?x = "vote_request (candidacy (node ?p))"
  have hyps: "asks_vote (node ?p) [BroadcastRequestVote ?x] ''B'' ?x" "\<not> poisoned ?q" "self_id (node ?q) = ''B''"
    "\<not> poisoned ?p'" "self_id (node ?p') = self_id (node ?p)"
    by code_simp+
  have out: "case handle_request_vote (node ?q) ?x of Inl _ \<Rightarrow> False | Inr (n, r, gx) \<Rightarrow> voted_for n = Some ''A''
      \<and> (case handle_request_vote_reply (node ?p') ''B'' r of Inl _ \<Rightarrow> False | Inr (n', hx) \<Rightarrow> is_Leader (state n'))"
    "tx ?q = []" "self_id (node ?p) = ''A''"
    by code_simp+
  then obtain n r gx where h: "handle_request_vote (node ?q) ?x = Inr (n, r, gx)" by (auto split: sum.splits)
  show ?thesis
    using request_vote_round_trip [where gen = least_limit, OF json.serde_codec_axioms hyps h] out h
    by (auto split: sum.splits)
qed

end
