(* ===== verification/Unit_Tests.thy ===== *)
theory Unit_Tests
  imports Leadership Replication
begin

section \<open>The unit tests of the node\<close>

text \<open>
  The module \<^verbatim>\<open>tests\<close> at the end of \<^verbatim>\<open>raft-rust/src/node.rs\<close>, one Boolean for each test
  function and with its name: the node that the test sets up, the calls it makes on it, and
  the conjunction of what it asserts. A test whose handler panics fails. Evaluating them
  checks the model against the behaviour that the authors wrote down.
\<close>

subsection \<open>Assertions\<close>

definition returns :: "'a res \<Rightarrow> ('a \<Rightarrow> bool) \<Rightarrow> bool" where
  "returns r asserts = (case r of Inl _ \<Rightarrow> False | Inr x \<Rightarrow> asserts x)"

text \<open>Indexing panics out of range, so an assertion about a missing element fails.\<close>

definition has_at :: "'a list \<Rightarrow> u64 \<Rightarrow> ('a \<Rightarrow> bool) \<Rightarrow> bool" where
  "has_at xs i asserts = (case vec_get xs i of None \<Rightarrow> False | Some x \<Rightarrow> asserts x)"

definition is_Candidate :: "NodeState \<Rightarrow> bool" where
  "is_Candidate s = (case s of Candidate _ \<Rightarrow> True | _ \<Rightarrow> False)"

definition is_BroadcastRequestVote :: "SideEffect \<Rightarrow> bool" where
  "is_BroadcastRequestVote se = (case se of BroadcastRequestVote _ \<Rightarrow> True | _ \<Rightarrow> False)"

definition is_BroadcastAppendEntries :: "SideEffect \<Rightarrow> bool" where
  "is_BroadcastAppendEntries se = (case se of BroadcastAppendEntries _ \<Rightarrow> True | _ \<Rightarrow> False)"

definition is_SendAppendEntries :: "SideEffect \<Rightarrow> bool" where
  "is_SendAppendEntries se = (case se of SendAppendEntries _ _ \<Rightarrow> True | _ \<Rightarrow> False)"

text \<open>\<open>str::contains\<close>\<close>

fun contains :: "string \<Rightarrow> string \<Rightarrow> bool" where
  "contains pat [] = (pat = [])"
| "contains pat (c # cs) = (take (length pat) (c # cs) = pat \<or> contains pat cs)"

lemma contains_iff: "contains pat s \<longleftrightarrow> (\<exists>before after. s = before @ pat @ after)"
proof (induction s)
  case (Cons c cs)
  have "(\<exists>before after. c # cs = before @ pat @ after)
      \<longleftrightarrow> (\<exists>after. c # cs = pat @ after) \<or> (\<exists>before after. cs = before @ pat @ after)"
    by (metis append_Cons append_Nil list.exhaust list.sel(3))
  moreover have "take (length pat) (c # cs) = pat \<longleftrightarrow> (\<exists>after. c # cs = pat @ after)"
    by (metis append_eq_conv_conj append_take_drop_id)
  ultimately show ?case using Cons.IH by simp
qed simp

definition push :: "u64 \<Rightarrow> u64 \<Rightarrow> string \<Rightarrow> RaftNode \<Rightarrow> RaftNode" where
  "push t i command n = n\<lparr>log := log n @ [\<lparr>le_term = t, le_index = i, le_command = command\<rparr>]\<rparr>"

definition setup_node :: RaftNode where
  "setup_node = new ''node-1'' [''node-2'', ''node-3'']"

definition test_initial_state :: bool where
  "test_initial_state \<longleftrightarrow>
     (let n = setup_node
      in state n = Follower \<and> current_term n = 0 \<and> voted_for n = None \<and> length (log n) = 1
         \<and> committed_index n = 0)"

subsection \<open>Followers\<close>

definition test_follower_updates_committed_index_on_append_entries_arg :: bool where
  "test_follower_updates_committed_index_on_append_entries_arg \<longleftrightarrow>
     (let follower = setup_node;
          follower = push 1 1 ''cmd1'' follower;
          follower = push 1 2 ''cmd1'' follower;
          leader_args = \<lparr>ae_term = 1, ae_leader_id = ''node-2'', ae_prev_log_index = 2,
            ae_prev_log_term = 1, ae_entries = [], ae_leader_commit = 2\<rparr>;
          (follower, _, _) = handle_append_entries follower leader_args
      in committed_index follower = 2)"

definition test_follower_rejects_append_entries_when_prev_log_index_is_missing :: bool where
  "test_follower_rejects_append_entries_when_prev_log_index_is_missing \<longleftrightarrow>
     (let follower = setup_node;
          follower = push 1 1 ''cmd1'' follower;
          leader_args = \<lparr>ae_term = 1, ae_leader_id = ''node-2'', ae_prev_log_index = 2,
            ae_prev_log_term = 1, ae_entries = [], ae_leader_commit = 0\<rparr>;
          (_, reply, _) = handle_append_entries follower leader_args
      in ar_success reply = False)"

definition test_follower_rejects_append_entries_when_prev_log_term_mismatch :: bool where
  "test_follower_rejects_append_entries_when_prev_log_term_mismatch \<longleftrightarrow>
     (let follower = setup_node;
          follower = push 1 1 ''cmd1'' follower;
          leader_args = \<lparr>ae_term = 1, ae_leader_id = ''node-2'', ae_prev_log_index = 1,
            ae_prev_log_term = 2, ae_entries = [], ae_leader_commit = 0\<rparr>;
          (_, reply, _) = handle_append_entries follower leader_args
      in ar_success reply = False)"

definition test_follower_updates_term_when_receiving_higher_term_append_entries :: bool where
  "test_follower_updates_term_when_receiving_higher_term_append_entries \<longleftrightarrow>
     (let follower = setup_node;
          follower = follower\<lparr>current_term := 1\<rparr>;
          follower = follower\<lparr>voted_for := Some ''node-1''\<rparr>;
          leader_args = \<lparr>ae_term = 2, ae_leader_id = ''node-2'', ae_prev_log_index = 0,
            ae_prev_log_term = 0, ae_entries = [], ae_leader_commit = 0\<rparr>;
          (follower, reply, _) = handle_append_entries follower leader_args
      in ar_success reply = True \<and> current_term follower = 2 \<and> voted_for follower = None)"

definition test_follower_appends_and_overwrites_logs :: bool where
  "test_follower_appends_and_overwrites_logs \<longleftrightarrow>
     (let follower = setup_node;
          follower = push 1 1 ''cmd1'' follower;
          follower = push 1 2 ''old_cmd2'' follower;
          leader_args = \<lparr>ae_term = 2, ae_leader_id = ''node-2'', ae_prev_log_index = 1,
            ae_prev_log_term = 1,
            ae_entries = [\<lparr>le_term = 2, le_index = 2, le_command = ''new_cmd2''\<rparr>,
              \<lparr>le_term = 2, le_index = 3, le_command = ''new_cmd3''\<rparr>],
            ae_leader_commit = 3\<rparr>;
          (follower, reply, _) = handle_append_entries follower leader_args
      in ar_success reply = True \<and> length (log follower) = 4
         \<and> has_at (log follower) 2 (\<lambda>e. le_term e = 2)
         \<and> has_at (log follower) 2 (\<lambda>e. le_command e = ''new_cmd2'')
         \<and> has_at (log follower) 3 (\<lambda>e. le_term e = 2)
         \<and> has_at (log follower) 3 (\<lambda>e. le_index e = 3)
         \<and> committed_index follower = 3)"

definition test_follower_resets_timer_on_valid_append_entries :: bool where
  "test_follower_resets_timer_on_valid_append_entries \<longleftrightarrow>
     (let follower = setup_node;
          follower = follower\<lparr>current_term := 1\<rparr>;
          leader_args = \<lparr>ae_term = 1, ae_leader_id = ''node-2'', ae_prev_log_index = 0,
            ae_prev_log_term = 0, ae_entries = [], ae_leader_commit = 0\<rparr>;
          (_, _, side_effects) = handle_append_entries follower leader_args
      in ResetElectionTimer \<in> set side_effects)"

definition test_leader_steps_down_when_receiving_higher_term_append_entries :: bool where
  "test_leader_steps_down_when_receiving_higher_term_append_entries \<longleftrightarrow>
     (let leader = setup_node;
          leader = leader\<lparr>state := Leader [] []\<rparr>;
          leader = leader\<lparr>current_term := 1\<rparr>;
          args = \<lparr>ae_term = 2, ae_leader_id = ''node-2'', ae_prev_log_index = 0,
            ae_prev_log_term = 0, ae_entries = [], ae_leader_commit = 0\<rparr>;
          (leader, _, _) = handle_append_entries leader args
      in state leader = Follower \<and> current_term leader = 2 \<and> voted_for leader = None)"

definition test_leader_does_not_update_committed_index_from_append_entries :: bool where
  "test_leader_does_not_update_committed_index_from_append_entries \<longleftrightarrow>
     (let leader = setup_node;
          next_idx = hm_insert ''node-2'' 1 [];
          match_idx = hm_insert ''node-2'' 0 [];
          leader = leader\<lparr>state := Leader next_idx match_idx\<rparr>;
          leader = leader\<lparr>current_term := 2\<rparr>;
          leader = leader\<lparr>committed_index := 1\<rparr>;
          args = \<lparr>ae_term = 2, ae_leader_id = ''node-2'', ae_prev_log_index = 1,
            ae_prev_log_term = 2, ae_entries = [], ae_leader_commit = 5\<rparr>;
          (leader, _, _) = handle_append_entries leader args
      in committed_index leader = 1)"

definition test_follower_advances_last_applied_on_leader_commit :: bool where
  "test_follower_advances_last_applied_on_leader_commit \<longleftrightarrow>
     (let follower = setup_node;
          follower = follower\<lparr>current_term := 1\<rparr>;
          follower = push 1 1 ''cmd1'' follower;
          follower = push 1 2 ''cmd2'' follower;
          args = \<lparr>ae_term = 1, ae_leader_id = ''node-2'', ae_prev_log_index = 2,
            ae_prev_log_term = 1, ae_entries = [], ae_leader_commit = 2\<rparr>;
          (follower, _, side_effects) = handle_append_entries follower args;
          apply_count = length (filter (\<lambda>se. case se of
              LogMessage m \<Rightarrow> contains ''Applying command at index'' m | _ \<Rightarrow> False) side_effects)
      in committed_index follower = 2 \<and> last_applied follower = 2 \<and> apply_count = 2)"

definition test_follower_redirects_client_request_to_known_leader :: bool where
  "test_follower_redirects_client_request_to_known_leader \<longleftrightarrow>
     (let follower = setup_node;
          follower = follower\<lparr>current_term := 1\<rparr>;
          args = \<lparr>ae_term = 1, ae_leader_id = ''node-B'', ae_prev_log_index = 0,
            ae_prev_log_term = 0, ae_entries = [], ae_leader_commit = 0\<rparr>;
          (follower, _, _) = handle_append_entries follower args;
          client_args = \<lparr>cr_command = ''set y=20''\<rparr>
      in returns (handle_client_request follower client_args) (\<lambda>(_, reply, _).
           cp_success reply = False \<and> cp_leader_id reply = Some ''node-B''))"

subsection \<open>Votes\<close>

definition test_request_vote_rejects_old_term :: bool where
  "test_request_vote_rejects_old_term \<longleftrightarrow>
     (let n = setup_node;
          n = n\<lparr>current_term := 2\<rparr>;
          args = \<lparr>rv_term = 1, rv_candidate_id = ''candidate-A'', rv_last_log_index = 0, rv_last_log_term = 0\<rparr>
      in returns (handle_request_vote n args) (\<lambda>(_, reply, _).
           rr_vote_granted reply = False \<and> rr_term reply = 2))"

definition test_request_vote_grants_vote_and_updates_term :: bool where
  "test_request_vote_grants_vote_and_updates_term \<longleftrightarrow>
     (let n = setup_node;
          n = n\<lparr>current_term := 1\<rparr>;
          args = \<lparr>rv_term = 3, rv_candidate_id = ''candidate-A'', rv_last_log_index = 0, rv_last_log_term = 0\<rparr>
      in returns (handle_request_vote n args) (\<lambda>(n, reply, side_effects).
           rr_vote_granted reply = True \<and> rr_term reply = 3 \<and> current_term n = 3
           \<and> voted_for n = Some ''candidate-A'' \<and> state n = Follower
           \<and> ResetElectionTimer \<in> set side_effects))"

definition test_request_vote_rejects_duplicate_vote_in_same_term :: bool where
  "test_request_vote_rejects_duplicate_vote_in_same_term \<longleftrightarrow>
     (let n = setup_node;
          n = n\<lparr>current_term := 3\<rparr>;
          n = n\<lparr>voted_for := Some ''candidate-A''\<rparr>;
          args = \<lparr>rv_term = 3, rv_candidate_id = ''candidate-B'', rv_last_log_index = 0, rv_last_log_term = 0\<rparr>
      in returns (handle_request_vote n args) (\<lambda>(n, reply, _).
           rr_vote_granted reply = False \<and> rr_term reply = 3 \<and> voted_for n = Some ''candidate-A''))"

definition test_request_vote_rejects_if_candidate_log_term_is_older :: bool where
  "test_request_vote_rejects_if_candidate_log_term_is_older \<longleftrightarrow>
     (let voter = setup_node;
          voter = voter\<lparr>current_term := 2\<rparr>;
          voter = push 2 1 ''cmd1'' voter;
          candidate_args = \<lparr>rv_term = 3, rv_candidate_id = ''candidate-A'', rv_last_log_index = 10,
            rv_last_log_term = 1\<rparr>
      in returns (handle_request_vote voter candidate_args) (\<lambda>(voter, voter_reply, _).
           rr_vote_granted voter_reply = False \<and> voted_for voter = None))"

definition test_request_vote_rejects_if_candidate_log_term_same_but_index_shorter :: bool where
  "test_request_vote_rejects_if_candidate_log_term_same_but_index_shorter \<longleftrightarrow>
     (let voter = setup_node;
          voter = voter\<lparr>current_term := 2\<rparr>;
          voter = push 2 1 ''cmd1'' voter;
          voter = push 2 2 ''cmd1'' voter;
          candidate_args = \<lparr>rv_term = 3, rv_candidate_id = ''candidate-A'', rv_last_log_index = 1,
            rv_last_log_term = 2\<rparr>
      in returns (handle_request_vote voter candidate_args) (\<lambda>(voter, voter_reply, _).
           rr_vote_granted voter_reply = False \<and> voted_for voter = None))"

subsection \<open>Candidates and leaders\<close>

definition test_election_timeout_triggers_election :: bool where
  "test_election_timeout_triggers_election \<longleftrightarrow>
     (let follower = setup_node;
          follower = follower\<lparr>current_term := 1\<rparr>;
          follower = push 1 1 ''cmd1'' follower
      in returns (handle_election_timeout follower) (\<lambda>(new_candidate, side_effects).
           is_Candidate (state new_candidate) \<and> current_term new_candidate = 2
           \<and> voted_for new_candidate = Some ''node-1''
           \<and> ResetElectionTimer \<in> set side_effects
           \<and> list_ex is_BroadcastRequestVote side_effects))"

definition test_candidate_becomes_leader_on_majority_votes :: bool where
  "test_candidate_becomes_leader_on_majority_votes \<longleftrightarrow>
     (let n = setup_node
      in returns (res_bind (handle_election_timeout n) (\<lambda>(n, _).
             handle_request_vote_reply n ''node-2'' \<lparr>rr_term = 1, rr_vote_granted = True\<rparr>))
           (\<lambda>(n, side_effects). is_Leader (state n) \<and> current_term n = 1
             \<and> (case state n of
                  Leader next_idx match_idx \<Rightarrow>
                    hm_get next_idx ''node-2'' = Some 1 \<and> hm_get next_idx ''node-3'' = Some 1
                    \<and> hm_get match_idx ''node-2'' = Some 0
                | _ \<Rightarrow> False)
             \<and> list_ex is_BroadcastAppendEntries side_effects
             \<and> ResetHeartbeatTimer \<in> set side_effects))"

definition test_leader_updates_indices_on_successful_append_entries_reply :: bool where
  "test_leader_updates_indices_on_successful_append_entries_reply \<longleftrightarrow>
     (let leader = setup_node;
          next_idx = hm_insert ''node-2'' 1 [];
          match_idx = hm_insert ''node-2'' 0 [];
          leader = leader\<lparr>state := Leader next_idx match_idx\<rparr>;
          leader = leader\<lparr>current_term := 2\<rparr>;
          leader = push 2 1 ''c1'' leader;
          leader = push 2 2 ''c2'' leader;
          follower_reply = \<lparr>ar_term = 2, ar_success = True, ar_match_index = 2\<rparr>
      in returns (handle_append_entries_reply leader ''node-2'' follower_reply) (\<lambda>(leader, _).
           case state leader of
             Leader next_idx match_idx \<Rightarrow>
               hm_get next_idx ''node-2'' = Some 3 \<and> hm_get match_idx ''node-2'' = Some 2
           | _ \<Rightarrow> False))"

definition test_leader_decrements_next_index_and_retries_on_failed_append_entries_reply :: bool where
  "test_leader_decrements_next_index_and_retries_on_failed_append_entries_reply \<longleftrightarrow>
     (let leader = setup_node;
          next_idx = hm_insert ''node-2'' 5 [];
          match_idx = hm_insert ''node-2'' 0 [];
          leader = leader\<lparr>state := Leader next_idx match_idx\<rparr>;
          leader = leader\<lparr>current_term := 2\<rparr>;
          leader = fold (\<lambda>i. push 2 i (''cmd'' @ show_u64 i)) [1, 2, 3, 4, 5] leader;
          follower_reply = \<lparr>ar_term = 2, ar_success = False, ar_match_index = 2\<rparr>
      in returns (handle_append_entries_reply leader ''node-2'' follower_reply) (\<lambda>(leader, side_effects).
           (case state leader of
              Leader next_idx _ \<Rightarrow> hm_get next_idx ''node-2'' = Some 3
            | _ \<Rightarrow> False)
           \<and> list_ex (\<lambda>se. case se of
                SendAppendEntries target args \<Rightarrow>
                  target = ''node-2'' \<and> ae_prev_log_index args = 2 \<and> length (ae_entries args) = 3
              | _ \<Rightarrow> False) side_effects))"

definition test_leader_heartbeat_timeout_sends_append_entries :: bool where
  "test_leader_heartbeat_timeout_sends_append_entries \<longleftrightarrow>
     (let leader = setup_node;
          leader = leader\<lparr>state := Leader
            (fold (\<lambda>(k, v). hm_insert k v) [(''node-2'', 1), (''node-3'', 1)] [])
            (fold (\<lambda>(k, v). hm_insert k v) [(''node-2'', 0), (''node-3'', 0)] [])\<rparr>;
          leader = leader\<lparr>current_term := 1\<rparr>;
          (_, side_effects) = handle_heartbeat_timeout leader;
          count = length (filter is_SendAppendEntries side_effects)
      in count = 2 \<and> ResetHeartbeatTimer \<in> set side_effects)"

definition test_leader_does_not_commit_old_term_logs_directly :: bool where
  "test_leader_does_not_commit_old_term_logs_directly \<longleftrightarrow>
     (let leader = setup_node;
          next_idx = hm_insert ''node-3'' 2 (hm_insert ''node-2'' 2 []);
          match_idx = hm_insert ''node-3'' 0 (hm_insert ''node-2'' 0 []);
          leader = leader\<lparr>state := Leader next_idx match_idx\<rparr>;
          leader = leader\<lparr>current_term := 3\<rparr>;
          leader = push 2 1 ''old_cmd'' leader;
          follower_reply = \<lparr>ar_term = 3, ar_success = True, ar_match_index = 1\<rparr>
      in returns (handle_append_entries_reply leader ''node-2'' follower_reply) (\<lambda>(leader, _).
           committed_index leader = 0))"

definition test_leader_proposes_command :: bool where
  "test_leader_proposes_command \<longleftrightarrow>
     (let leader = setup_node;
          leader = leader\<lparr>state := Leader [] []\<rparr>;
          leader = leader\<lparr>current_term := 2\<rparr>;
          cmd = ''set x=10''
      in returns (propose_command leader cmd) (\<lambda>(leader, proposed_info, side_effects).
           (case proposed_info of None \<Rightarrow> False | Some (index, t) \<Rightarrow> index = 1 \<and> t = 2)
           \<and> length (log leader) = 2
           \<and> (case vec_last (log leader) of None \<Rightarrow> False | Some e \<Rightarrow> le_command e = cmd)
           \<and> list_ex (\<lambda>se. case se of
                BroadcastAppendEntries args \<Rightarrow> length (ae_entries args) = 1
              | _ \<Rightarrow> False) side_effects))"

subsection \<open>The outcome\<close>

lemma follower_tests:
  "test_initial_state"
  "test_follower_updates_committed_index_on_append_entries_arg"
  "test_follower_rejects_append_entries_when_prev_log_index_is_missing"
  "test_follower_rejects_append_entries_when_prev_log_term_mismatch"
  "test_follower_updates_term_when_receiving_higher_term_append_entries"
  "test_follower_appends_and_overwrites_logs"
  "test_follower_resets_timer_on_valid_append_entries"
  "test_leader_steps_down_when_receiving_higher_term_append_entries"
  "test_leader_does_not_update_committed_index_from_append_entries"
  "test_follower_advances_last_applied_on_leader_commit"
  "test_follower_redirects_client_request_to_known_leader"
  by code_simp+

lemma vote_tests:
  "test_request_vote_rejects_old_term"
  "test_request_vote_grants_vote_and_updates_term"
  "test_request_vote_rejects_duplicate_vote_in_same_term"
  "test_request_vote_rejects_if_candidate_log_term_is_older"
  "test_request_vote_rejects_if_candidate_log_term_same_but_index_shorter"
  by code_simp+

lemma leader_tests:
  "test_election_timeout_triggers_election"
  "test_candidate_becomes_leader_on_majority_votes"
  "test_leader_updates_indices_on_successful_append_entries_reply"
  "test_leader_decrements_next_index_and_retries_on_failed_append_entries_reply"
  "test_leader_heartbeat_timeout_sends_append_entries"
  "test_leader_does_not_commit_old_term_logs_directly"
  "test_leader_proposes_command"
  by code_simp+

end
