(* ===== verification/Spec2Isabelle.thy ===== *)
theory Spec2Isabelle
  imports Blocked_Cluster Commit_Progress Listener Lone_Node Restart Round_Trips Unit_Tests
begin

text \<open>
  A verification library for the Raft node of \<^verbatim>\<open>mini-raft\<close>: the Rust crate
  \<^verbatim>\<open>mini-raft/raft-rust/src\<close> (\<^verbatim>\<open>protocol.rs\<close>, \<^verbatim>\<open>node.rs\<close>, \<^verbatim>\<open>main.rs\<close>).

  The program. A node (\<^verbatim>\<open>RaftNode\<close>, \<^verbatim>\<open>node.rs\<close>) is a state machine without I/O: a handler
  changes it and returns a reply and a list of side effects. The engine (\<^verbatim>\<open>main.rs\<close>) owns the node and
  two tick counters behind two mutexes that are always taken together; every 50 ms a tick
  runs the heartbeat or election handler when a counter reaches its limit; every line of a
  connection is a JSON message that is dispatched to a handler; side effects become messages
  on a channel, resets of the counters, or lines on standard output. A relay written in
  Go carries messages between the processes of a cluster and may drop, delay, duplicate or reorder
  them.

  The theories and what they model, in the order of the imports:

  \<^item> \<open>Prelude\<close>: \<open>u64\<close> with the overflow check of the debug profile, panics as values,
    \<open>Vec::get\<close>, \<open>HashMap\<close>, decimal printing, quorums. Interfaces: \<open>key_value_store\<close>
    (interpreted on the association lists of the model) and \<open>quorum_system\<close> (on majorities).
  \<^item> \<open>Protocol\<close>: the types of \<^verbatim>\<open>protocol.rs\<close>; the order on last log positions.
  \<^item> \<open>Raft_Node\<close>: the structure, its constructor and its private methods; the loop that
    applies committed entries, as a recursion with a measure and as the while loop of the source.
  \<^item> \<open>Replication\<close>: \<open>handle_append_entries\<close>; the in-place loop equals a positional merge.
  \<^item> \<open>Election\<close>: \<open>handle_request_vote\<close>, \<open>handle_election_timeout\<close>, \<open>handle_request_vote_reply\<close>.
  \<^item> \<open>Leadership\<close>: \<open>propose_command\<close>, \<open>handle_client_request\<close>, \<open>handle_heartbeat_timeout\<close>,
    \<open>handle_append_entries_reply\<close> with the commit rule by the median.
  \<^item> \<open>Repair\<close>: rounds of message and reply between a leader and one follower.
  \<^item> \<open>Unit_Tests\<close>: the test functions of \<^verbatim>\<open>node.rs\<close>, each an executable Boolean.
  \<^item> \<open>Engine\<close>: timers, tick loop, dispatch, effects, poisoning. Interface: \<open>serde_codec\<close>.
  \<^item> \<open>Startup\<close>: the command line. \<open>Wire\<close>: \<^verbatim>\<open>send_to_relay_raw\<close>, the thread that drains the
    channel, and the lines of a connection. \<open>Listener\<close>: the preparation of the socket, the accept loop, and the
    turns that the tick loop and the connection threads take; what a malformed payload does to them.
  \<^item> \<open>Json_Codec\<close>: the documented JSON representation of the derived types, which provides
    the interface \<open>serde_codec\<close> for the concrete runs.
  \<^item> \<open>Process_Properties\<close>: what holds of a single process whatever it receives. \<open>Round_Trips\<close>: from a side
    effect of one process to the handler of another and back.
  \<^item> \<open>Cluster\<close>: processes and relay as a step relation over explicit sequences of ticks and
    deliveries; \<open>Cluster_Run\<close>: executable schedules, and the runs the examples use.
  \<^item> \<open>Abstract_Raft\<close>, \<open>Abstract_Safety\<close>: the protocol as an abstract machine with history, its
    ten invariants and their preservation by every transition.
  \<^item> \<open>Handler_Refinement\<close>, \<open>Cluster_Refinement\<close>: every handler, every process step and every cluster
    step is followed by transitions of the abstract machine; interface \<open>forward_simulation\<close>,
    interpreted on the cluster.
  \<^item> \<open>Cluster_Safety\<close>: the safety properties of the cluster, for any number of nodes, any
    schedule and any two moments of a run.
  \<^item> \<open>Cluster_Views\<close>: what the nodes know: the data of the roles, the leader's indices, the redirection hint,
    the exact condition of repair, and the only panics that the cluster's own messages can cause.
  \<^item> \<open>Election_Progress\<close>: an election can succeed whenever a majority runs and none of it leads.
  \<^item> \<open>Commit_Progress\<close>: the rounds of \<open>Repair\<close> as runs of the cluster; a proposal can be committed and applied by
    the leader and by every running follower that is not livelocked with it, when these are a majority.
  \<^item> \<open>Blocked_Cluster\<close>: a reachable state in which a leader can never commit anything.
  \<^item> \<open>Lone_Node\<close>: the cluster of one process, which never gets a leader.
  \<^item> \<open>Restart\<close>: a run with one restart of one process that breaks safety.

  State and operations. A record has the fields of the Rust structure (\<open>self_id\<close> is
  \<^verbatim>\<open>id\<close>; fields of the message structures carry a prefix). \<open>&mut self\<close> is the node that a handler takes and
  returns. A handler that can panic (unwrapping the last entry, indexing, adding to a
  \<open>u64\<close>, decoding a payload) returns a sum whose left side is the panic; the dispatch adds the process as it is
  at that point, so that what a message has changed or sent before a panic would stay. A panic under the
  locks poisons them: the process of the model then ignores every further step. A panic in the middle of an operation of the
  node keeps the node before the call; nothing reads it after that.

  What the lemmas show. For each handler a closed form on every branch; for the node and
  engine the functional rules of votes, elections, replication, commit, retries, timers and
  failures; for the cluster election safety, log matching, leader completeness, state machine safety, leader append-only,
  durability of what is committed, agreement of what is applied, the truth of what leaders believe and of what clients
  are told, the possibility of an election and of a commit, and the absence of every panic below the limits of \<open>u64\<close>. Terms and indices are 64-bit words with the overflow panics written out, so
  no bound on a run is assumed. No fuel is used: the loops are structural or have a measure, and the numbers of ticks
  and exchanges in the possibility properties are existentially quantified or given by the limits of the timers.

  What the code does not guarantee, each as a theorem here: a retry can repeat for ever, exactly in the situation
  that \<open>repair_iff\<close> names (the follower's log ends before the leader's next index and its last entry conflicts), and this can hold for every follower at once, so that a cluster with a live leader
  commits nothing any more (\<open>cluster_can_block\<close>); a process that is started again has lost its vote and its log, which
  breaks the safety of the cluster, one restart being enough (\<open>restart_breaks_safety\<close>); a process whose listener could not
  be opened deposes the leaders of its peers (\<open>deaf_process_deposes\<close>); a process that is the whole cluster never leads,
  whatever its clients request (\<open>single_node_never_leads\<close>); votes of strangers count (\<open>vote_of_outsider\<close>); a message outside the
  protocol can move a commit index back (\<open>follower_commit_moves\<close>); one malformed payload
  stops a process (\<open>malformed_payload_is_fatal\<close>).

  Concrete runs. The examples and counterexamples are schedules of three processes with the JSON codec of \<open>Json_Codec\<close>
  and a generator that always draws 30, the least limit that the code can draw; thirty ticks are a timeout.

  Not modelled: startup jitter and sleeping (their effect is the order of steps); the outcomes of socket calls, the random generator and
  \<^verbatim>\<open>serde_json\<close>, which are parameters; the report that the panic hook writes to standard error; a restart is no step of
  the cluster (\<open>Restart\<close> puts one into a run), since the code keeps nothing
  over it, and a process that stops is one that takes no more steps; the
  relay, the orchestrator and the RPC exercise, which are Go programs.
\<close>

section \<open>The tests of the source\<close>

text \<open>
  Each of the twenty-three test functions, run on the model with the same set-up, the same calls
  and the same assertions, succeeds. This checks the translation on the inputs that the authors chose.
\<close>

lemma unit_tests_pass:
  "list_all id [test_initial_state,
     test_follower_updates_committed_index_on_append_entries_arg,
     test_follower_rejects_append_entries_when_prev_log_index_is_missing,
     test_follower_rejects_append_entries_when_prev_log_term_mismatch,
     test_follower_updates_term_when_receiving_higher_term_append_entries,
     test_follower_appends_and_overwrites_logs,
     test_follower_resets_timer_on_valid_append_entries,
     test_leader_steps_down_when_receiving_higher_term_append_entries,
     test_leader_does_not_update_committed_index_from_append_entries,
     test_leader_updates_indices_on_successful_append_entries_reply,
     test_leader_decrements_next_index_and_retries_on_failed_append_entries_reply,
     test_request_vote_rejects_old_term,
     test_request_vote_grants_vote_and_updates_term,
     test_request_vote_rejects_duplicate_vote_in_same_term,
     test_request_vote_rejects_if_candidate_log_term_is_older,
     test_request_vote_rejects_if_candidate_log_term_same_but_index_shorter,
     test_election_timeout_triggers_election,
     test_candidate_becomes_leader_on_majority_votes,
     test_leader_heartbeat_timeout_sends_append_entries,
     test_leader_does_not_commit_old_term_logs_directly,
     test_follower_advances_last_applied_on_leader_commit,
     test_leader_proposes_command,
     test_follower_redirects_client_request_to_known_leader]"
  by (simp add: follower_tests vote_tests leader_tests)

end
